(* ===== verification/HKV_Prelude.thy ===== *)
theory HKV_Prelude
  imports Complex_Main "HOL-Library.Word" "HOL-Library.Monad_Syntax"
begin

text \<open>
  Shared vocabulary of the HybridKV development: the machine types of the Rust sources, the
  outcome of code that can panic, the saturating operations of the Rust integers, in-place
  updates of a vector, and the generic lemmas the component theories use.

  \<^item> \<open>u8\<close>, \<open>u16\<close>, \<open>u32\<close>, \<open>u64\<close> and \<open>usize\<close> (a 64-bit target) are words; \<open>+\<close> and \<open>-\<close>
    wrap around, as they do in the release profile of the workspace's \<^verbatim>\<open>Cargo.toml\<close>, which leaves
    overflow checks off.
  \<^item> \<open>bytes\<close> stands for \<^verbatim>\<open>Vec<u8>\<close>, \<^verbatim>\<open>&[u8]\<close>, \<^verbatim>\<open>Arc<[u8]>\<close> and the contents of a \<^verbatim>\<open>BytesMut\<close>.
  \<^item> \<open>'a exec\<close> is the result of code that may panic: \<open>None\<close> is the panic (an index out of range,
    an \<^verbatim>\<open>expect\<close> on \<^verbatim>\<open>None\<close>, an overflowing \<^verbatim>\<open>Instant\<close> addition), \<open>Some x\<close> is a normal return.
\<close>

section \<open>Machine types\<close>

type_synonym byte = "8 word"
type_synonym bytes = "byte list"
type_synonym u16 = "16 word"
type_synonym u32 = "32 word"
type_synonym u64 = "64 word"
type_synonym usize = "64 word"

type_synonym 'a exec = "'a option"

abbreviation u64_max :: nat where
  "u64_max \<equiv> 2 ^ 64 - 1"

abbreviation i64_max :: int where
  "i64_max \<equiv> 2 ^ 63 - 1"

definition ascii :: "string \<Rightarrow> bytes" where
  "ascii s = map of_char s"

lemma ascii_simps:
  "ascii [] = []"
  "ascii (c # s) = of_char c # ascii s"
  by (simp_all add: ascii_def)

lemma length_ascii [simp]: "length (ascii s) = length s"
  by (simp add: ascii_def)

text \<open>The collection of unfolding rules a component offers to the proofs about its callers.\<close>

named_theorems hkv_defs

section \<open>Saturating arithmetic\<close>

definition saturating_add :: "'a::len word \<Rightarrow> 'a word \<Rightarrow> 'a word" where
  "saturating_add a b = (if unat a + unat b < 2 ^ LENGTH('a) then a + b else - 1)"

definition saturating_mul :: "'a::len word \<Rightarrow> 'a word \<Rightarrow> 'a word" where
  "saturating_mul a b = (if unat a * unat b < 2 ^ LENGTH('a) then a * b else - 1)"

definition saturating_sub :: "'a::len word \<Rightarrow> 'a word \<Rightarrow> 'a word" where
  "saturating_sub a b = (if b \<le> a then a - b else 0)"

lemma unat_saturating_add:
  "unat (saturating_add a b) = min (unat a + unat b) (2 ^ LENGTH('a) - 1)"
  for a b :: "'a::len word"
  by (auto simp: saturating_add_def unat_word_ariths unsigned_minus_1_eq_mask mask_eq_exp_minus_1)

lemma unat_saturating_mul:
  "unat (saturating_mul a b) = min (unat a * unat b) (2 ^ LENGTH('a) - 1)"
  for a b :: "'a::len word"
  by (auto simp: saturating_mul_def unat_word_ariths unsigned_minus_1_eq_mask mask_eq_exp_minus_1)

lemma unat_saturating_sub: "unat (saturating_sub a b) = unat a - unat b"
  by (auto simp: saturating_sub_def word_le_nat_alt unat_sub)

section \<open>Vectors\<close>

text \<open>
  \<open>update_at xs i f\<close> is a write through \<^verbatim>\<open>xs[i]\<close>: it panics out of range and applies \<open>f\<close> to the
  element in place otherwise.
\<close>

definition update_at :: "'a list \<Rightarrow> nat \<Rightarrow> ('a \<Rightarrow> 'a) \<Rightarrow> 'a list exec" where
  "update_at xs i f = (if i < length xs then Some (xs[i := f (xs ! i)]) else None)"

definition index_at :: "'a list \<Rightarrow> nat \<Rightarrow> 'a exec" where
  "index_at xs i = (if i < length xs then Some (xs ! i) else None)"

lemma update_at_Some_iff [simp]: "i < length xs \<Longrightarrow> update_at xs i f = Some (xs[i := f (xs ! i)])"
  by (simp add: update_at_def)

lemma index_at_Some_iff [simp]: "i < length xs \<Longrightarrow> index_at xs i = Some (xs ! i)"
  by (simp add: index_at_def)

lemma update_at_SomeD: "update_at xs i f = Some ys \<Longrightarrow> i < length xs \<and> ys = xs[i := f (xs ! i)]"
  by (simp add: update_at_def split: if_splits)

lemma index_at_SomeD: "index_at xs i = Some y \<Longrightarrow> i < length xs \<and> y = xs ! i"
  by (simp add: index_at_def split: if_splits)

lemma sum_list_update_group:
  fixes xs :: "'a::ab_group_add list"
  shows "i < length xs \<Longrightarrow> sum_list (xs[i := y]) = sum_list xs - xs ! i + y"
proof (induction xs arbitrary: i)
  case (Cons x xs)
  then show ?case by (cases i) simp_all
qed simp

section \<open>Results and maps\<close>

lemma map_sum_eq_Inr [simp]: "map_sum f g x = Inr y \<longleftrightarrow> (\<exists>z. x = Inr z \<and> y = g z)"
  by (cases x) auto

lemma map_sum_eq_Inl [simp]: "map_sum f g x = Inl y \<longleftrightarrow> (\<exists>z. x = Inl z \<and> y = f z)"
  by (cases x) auto

lemma map_le_iff: "m \<subseteq>\<^sub>m n \<longleftrightarrow> (\<forall>k d. m k = Some d \<longrightarrow> n k = Some d)"
  by (auto simp: map_le_def dom_def)

lemma map_leI: "(\<And>k d. m k = Some d \<Longrightarrow> n k = Some d) \<Longrightarrow> m \<subseteq>\<^sub>m n"
  by (simp add: map_le_iff)

section \<open>Invariants of transition systems\<close>

text \<open>
  The interface of a state machine with an invariant: an initial-state predicate, a step relation
  and a predicate that holds at the start and that every step keeps. The components with
  interleaved operations instantiate it.
\<close>

inductive reach :: "('s \<Rightarrow> bool) \<Rightarrow> ('s \<Rightarrow> 's \<Rightarrow> bool) \<Rightarrow> 's \<Rightarrow> bool" for init step where
  reach_init: "init s \<Longrightarrow> reach init step s"
| reach_step: "reach init step s \<Longrightarrow> step s t \<Longrightarrow> reach init step t"

lemma reach_steps: "step\<^sup>*\<^sup>* s t \<Longrightarrow> reach init step s \<Longrightarrow> reach init step t"
  by (induction rule: rtranclp_induct) (blast intro: reach_step)+

locale invariant_system =
  fixes init :: "'s \<Rightarrow> bool"
    and step :: "'s \<Rightarrow> 's \<Rightarrow> bool"
    and inv :: "'s \<Rightarrow> bool"
  assumes init_inv: "init s \<Longrightarrow> inv s"
    and step_inv: "step s t \<Longrightarrow> inv s \<Longrightarrow> inv t"
begin

lemma reach_inv: "reach init step s \<Longrightarrow> inv s"
  by (induction rule: reach.induct) (blast intro: init_inv step_inv)+

lemma steps_inv: "step\<^sup>*\<^sup>* s t \<Longrightarrow> inv s \<Longrightarrow> inv t"
  by (induction rule: rtranclp_induct) (blast intro: step_inv)+

end

text \<open>The sum over the parts of a system when one part changes.\<close>

lemma sum_map_update:
  fixes f :: "'a \<Rightarrow> 'b::ab_group_add"
  shows "i < length xs \<Longrightarrow> sum_list (map f (xs[i := x])) = f x + (sum_list (map f xs) - f (xs ! i))"
  by (simp add: map_update sum_list_update_group)

text \<open>The executions of a labelled transition system, with the labels of their steps.\<close>

inductive labelled_run :: "('l \<Rightarrow> 's \<Rightarrow> 's \<Rightarrow> bool) \<Rightarrow> 'l list \<Rightarrow> 's \<Rightarrow> 's \<Rightarrow> bool" for step where
  run_nil: "labelled_run step [] s s"
| run_snoc: "labelled_run step ls s s' \<Longrightarrow> step l s' s'' \<Longrightarrow> labelled_run step (ls @ [l]) s s''"

inductive_cases labelled_run_snocE: "labelled_run step (ls @ [l]) s s'"

lemma labelled_run_split:
  "labelled_run step (xs @ l # ys) s s'' \<Longrightarrow> \<exists>s1 s2. labelled_run step xs s s1 \<and> step l s1 s2"
proof (induction ys arbitrary: s'' rule: rev_induct)
  case Nil
  then show ?case by (elim labelled_run_snocE) blast+
next
  case (snoc y ys)
  then have "labelled_run step ((xs @ l # ys) @ [y]) s s''" by simp
  then obtain s' where "labelled_run step (xs @ l # ys) s s'" by (elim labelled_run_snocE) auto
  then show ?case by (rule snoc.IH)
qed

lemma labelled_run_steps: "labelled_run step ls s s' \<Longrightarrow> (\<lambda>s s'. \<exists>l. step l s s')\<^sup>*\<^sup>* s s'"
  by (induction rule: labelled_run.induct) (blast intro: rtranclp.rtrancl_into_rtrancl)+

end
