(* ===== verification/HKV_Time.thy ===== *)
theory HKV_Time
  imports HKV_Prelude
begin

text \<open>
  Time as the Rust standard library has it, in nanoseconds: \<^verbatim>\<open>Instant\<close>, \<^verbatim>\<open>Duration\<close> and the wall clock
  \<^verbatim>\<open>SystemTime\<close>.
\<close>

section \<open>Instants and durations\<close>

text \<open>
  \<^verbatim>\<open>Instant\<close> and \<^verbatim>\<open>Duration\<close> in nanoseconds. On the Linux target an \<^verbatim>\<open>Instant\<close> holds its seconds in
  an \<^verbatim>\<open>i64\<close>, and \<^verbatim>\<open>Instant + Duration\<close> panics when the sum has no representation.
\<close>

type_synonym instant = nat
type_synonym duration = nat

definition nanos_per_sec :: nat where
  "nanos_per_sec = 1000000000"

definition instant_limit :: nat where
  "instant_limit = 2 ^ 63 * nanos_per_sec"

definition instant_add :: "instant \<Rightarrow> duration \<Rightarrow> instant exec" where
  "instant_add t d = (if t + d < instant_limit then Some (t + d) else None)"

text \<open>\<^verbatim>\<open>Duration::from_secs\<close>, and \<^verbatim>\<open>Duration::as_secs\<close>, which drops the fraction.\<close>

definition from_secs :: "u64 \<Rightarrow> duration" where
  "from_secs s = unat s * nanos_per_sec"

definition from_millis :: "u64 \<Rightarrow> duration" where
  "from_millis ms = unat ms * 1000000"

definition as_secs :: "duration \<Rightarrow> u64" where
  "as_secs d = of_nat (d div nanos_per_sec)"

text \<open>The sum of two durations panics when its seconds do not fit into 64 bits.\<close>

definition duration_add :: "duration \<Rightarrow> duration \<Rightarrow> duration exec" where
  "duration_add a b = (if a + b < 2 ^ 64 * nanos_per_sec then Some (a + b) else None)"

section \<open>The wall clock\<close>

text \<open>
  A reading of \<^verbatim>\<open>SystemTime::now()\<close> relative to \<^verbatim>\<open>UNIX_EPOCH\<close>: \<open>None\<close> is a clock set before the epoch.
\<close>

type_synonym wall_clock = "duration option"

definition unix_now :: "wall_clock \<Rightarrow> duration" where
  "unix_now clock = (case clock of Some d \<Rightarrow> d | None \<Rightarrow> 0)"

definition unix_nanos :: "wall_clock \<Rightarrow> u64" where
  "unix_nanos clock = of_nat (unix_now clock)"

end
