(* ===== verification/Shard_Refine.thy ===== *)
theory Shard_Refine
  imports Shard_LRU
begin

text \<open>
  The shard operations of \<^verbatim>\<open>ShardInner\<close> refine the abstract cache: on a shard that satisfies the
  invariant none of them panics, the invariant is kept, and the list of entries changes as the
  abstract operation says.
\<close>

section \<open>The operations refine the abstract cache\<close>

lemma shard_rep_new: "shard_rep shard_new []"
  by (auto simp: shard_rep_def shard_new_def dll_def node_at_def dom_def)

lemma shard_new_inv [simp]: "shard_inv shard_new" "shard_abs shard_new = []"
  using shard_rep_new by (auto simp: shard_inv_iff shard_rep_abs)

lemma shard_rep_map:
  "shard_rep s xs \<Longrightarrow> s_map s k = Some i \<longleftrightarrow> (\<exists>n. node_at s i = Some n \<and> n_key n = k)"
  by (auto simp: shard_rep_def)

lemma shard_rep_keys_distinct:
  assumes "shard_rep s xs"
  shows "distinct (map fst (entries s xs))"
proof -
  have "inj_on (\<lambda>i. n_key (the (node_at s i))) (set xs)"
  proof (rule inj_onI)
    fix i j assume ij: "i \<in> set xs" "j \<in> set xs" "n_key (the (node_at s i)) = n_key (the (node_at s j))"
    have "set xs = dom (node_at s)" using assms by (simp add: shard_rep_def)
    with ij obtain m n where "node_at s i = Some m" "node_at s j = Some n" by blast
    with ij(3) shard_rep_map [OF assms] show "i = j" by (metis option.inject option.sel)
  qed
  then show ?thesis
    using assms
    by (auto simp: entries_def entry_of_def distinct_map comp_def shard_rep_def dll_def inj_on_def)
qed

text \<open>A key in the map splits the list at its slot.\<close>

lemma shard_rep_split:
  assumes "shard_rep s xs" and "s_map s k = Some i"
  obtains as bs n where "xs = as @ i # bs" "node_at s i = Some n" "n_key n = k"
    "k \<notin> fst ` set (entries s as)" "k \<notin> fst ` set (entries s bs)"
proof -
  obtain n where n: "node_at s i = Some n" "n_key n = k"
    using assms shard_rep_map by blast
  have "set xs = dom (node_at s)" using assms(1) by (simp add: shard_rep_def)
  with n have "i \<in> set xs" by auto
  then obtain as bs where xs: "xs = as @ i # bs" by (auto simp: in_set_conv_decomp)
  have "distinct (map fst (entries s xs))" using shard_rep_keys_distinct [OF assms(1)] .
  with xs n have "k \<notin> fst ` set (entries s as)" "k \<notin> fst ` set (entries s bs)"
    by (auto simp: entry_of_def)
  with xs n that show thesis by blast
qed

lemma filter_neq_absent [simp]: "k \<notin> fst ` set es \<Longrightarrow> filter (\<lambda>e. fst e \<noteq> k) es = es"
  by (auto simp: filter_id_conv)

lemma filter_eq_absent [simp]: "k \<notin> fst ` set es \<Longrightarrow> filter (\<lambda>e. fst e = k) es = []"
  by (auto simp: filter_empty_conv)

lemma shard_rep_lookup:
  assumes "shard_rep s xs"
  shows "map_of (entries s xs) k =
    (case s_map s k of None \<Rightarrow> None
     | Some i \<Rightarrow> map_option (\<lambda>n. (n_value n, n_expires_at n)) (node_at s i))"
proof (cases "s_map s k")
  case None
  have "k \<notin> fst ` set (entries s xs)"
  proof
    assume "k \<in> fst ` set (entries s xs)"
    then obtain i where i: "i \<in> set xs" "n_key (the (node_at s i)) = k"
      by (auto simp: entries_def entry_of_def)
    moreover have "set xs = dom (node_at s)" using assms by (simp add: shard_rep_def)
    ultimately obtain n where "node_at s i = Some n" "n_key n = k" by auto
    with None shard_rep_map [OF assms, of k i] show False by auto
  qed
  then show ?thesis using None by (simp add: map_of_eq_None_iff)
next
  case (Some i)
  from shard_rep_split [OF assms this] obtain as bs n where *: "xs = as @ i # bs"
    "node_at s i = Some n" "n_key n = k" "k \<notin> fst ` set (entries s as)" by metis
  then have "map_of (entries s as) k = None" by (simp add: map_of_eq_None_iff)
  with * show ?thesis using Some by (simp add: map_add_def entry_of_def)
qed

lemma shard_inv_lookup:
  "shard_inv s \<Longrightarrow> map_of (shard_abs s) k =
    (case s_map s k of None \<Rightarrow> None
     | Some i \<Rightarrow> map_option (\<lambda>n. (n_value n, n_expires_at n)) (node_at s i))"
  by (auto simp: shard_inv_iff shard_rep_abs shard_rep_lookup)

lemma shard_inv_node:
  assumes "shard_inv s" and "s_map s k = Some i"
  obtains n where "node_at s i = Some n" "n_key n = k" "size_ok n" "i < length (s_nodes s)"
    "s_nodes s ! i = Some n" "map_of (shard_abs s) k = Some (n_value n, n_expires_at n)"
proof -
  obtain xs where rep: "shard_rep s xs" using assms(1) by (auto simp: shard_inv_iff)
  obtain n where n: "node_at s i = Some n" "n_key n = k" using shard_rep_map [OF rep] assms(2) by blast
  moreover have "size_ok n" using rep n by (simp add: shard_rep_def)
  moreover have "map_of (shard_abs s) k = Some (n_value n, n_expires_at n)"
    using shard_inv_lookup [OF assms(1)] assms(2) n by simp
  ultimately show thesis using that node_at_bound [OF n(1)] node_at_nth by metis
qed

lemma shard_inv_absent: "shard_inv s \<Longrightarrow> s_map s k = None \<longleftrightarrow> k \<notin> fst ` set (shard_abs s)"
  using shard_inv_lookup [of s k] shard_inv_node [of s k]
  by (metis map_of_eq_None_iff option.case(1) option.distinct(1) option.exhaust)

lemma shard_inv_keys_distinct: "shard_inv s \<Longrightarrow> distinct (map fst (shard_abs s))"
  using shard_rep_keys_distinct shard_rep_abs by (auto simp: shard_inv_iff)

lemma touch_refines:
  assumes "shard_inv s" and "s_map s k = Some i"
  shows "\<exists>t. touch s i = Some t \<and> shard_inv t \<and> shard_abs t = move_to_back k (shard_abs s)"
proof -
  obtain xs where rep: "shard_rep s xs" using assms(1) by (auto simp: shard_inv_iff)
  obtain as bs n where xs: "xs = as @ i # bs" "node_at s i = Some n" "n_key n = k"
    "k \<notin> fst ` set (entries s as)" "k \<notin> fst ` set (entries s bs)"
    using shard_rep_split [OF rep assms(2)] by metis
  have "dll s (as @ i # bs)" using rep xs by (simp add: shard_rep_def)
  then obtain t where t: "touch s i = Some t" "dll t (as @ bs @ [i])" "same_data s t"
    using touch_dll by blast
  have rep': "shard_rep t (as @ bs @ [i])"
    using same_data_rep [OF rep t(3,2)] xs by auto
  have dom: "set (as @ i # bs) \<subseteq> dom (node_at s)" using rep xs by (simp add: shard_rep_def)
  have "entries t (as @ bs @ [i]) = move_to_back k (entries s xs)"
    using xs dom by (simp add: same_data_entries [OF t(3)] move_to_back_def entry_of_def del: entries_simps(3))
      (simp add: entry_of_def)
  then show ?thesis
    using t rep' rep by (auto simp: shard_rep_abs intro: shard_rep_inv)
qed

lemma remove_rep:
  assumes "shard_rep s (as @ i # bs)" and "node_at s i = Some n"
  shows "\<exists>t. remove_idx s i = Some (Some (n_size n), t) \<and> shard_rep t (as @ bs) \<and>
    entries t (as @ bs) = entries s (as @ bs) \<and> s_map t = (s_map s)(n_key n := None) \<and>
    (\<forall>j. j \<noteq> i \<longrightarrow> map_option node_data (node_at t j) = map_option node_data (node_at s j))"
proof -
  from assms have "dll s (as @ i # bs)" by (simp add: shard_rep_def)
  then obtain t where t: "lru_remove s i = Some t" "dll t (as @ bs)" "same_data s t"
    using lru_remove_dll by blast
  have dist: "distinct (as @ i # bs)" and dom: "set (as @ i # bs) = dom (node_at s)"
    using assms by (auto simp: shard_rep_def dll_def)
  have facts: "s_map t = s_map s" "s_free t = s_free s" "length (s_nodes t) = length (s_nodes s)"
    "\<And>j. map_option node_data (node_at t j) = map_option node_data (node_at s j)"
    using t(3) by (auto simp: same_data_def)
  have len: "i < length (s_nodes t)" using node_at_bound [OF assms(2)] facts(3) by simp
  define u where "u = t\<lparr>s_nodes := (s_nodes t)[i := None], s_map := (s_map t)(n_key n := None),
             s_free := s_free t @ [i]\<rparr>"
  have run: "remove_idx s i = Some (Some (n_size n), u)"
    using assms(2) node_at_bound [OF assms(2)] t(1) len
    by (simp add: remove_idx_def node_at_nth u_def)
  have u: "node_at u = (node_at t)(i := None)" "s_map u = (s_map s)(n_key n := None)"
    "s_free u = s_free s @ [i]" "s_head u = s_head t" "s_tail u = s_tail t"
    "length (s_nodes u) = length (s_nodes s)"
    using len facts by (simp_all add: u_def)
  have at_u: "node_at u j = node_at t j" if "j \<in> set (as @ bs)" for j
    using dist that by (auto simp: u(1))
  have data_u: "map_option node_data (node_at u j) = map_option node_data (node_at s j)" if "j \<noteq> i" for j
    using facts(4) that by (simp add: u(1))
  have eq: "entries u (as @ bs) = entries s (as @ bs)"
  proof -
    have "entries u (as @ bs) = entries t (as @ bs)"
      unfolding entries_def using at_u by (intro map_cong) auto
    also have "\<dots> = entries s (as @ bs)"
      using dom by (intro same_data_entries [OF t(3)]) auto
    finally show ?thesis .
  qed
  have dll_u: "dll u (as @ bs)"
    using t(2) dseg_frame [of "as @ bs" "node_at u" "node_at t" None None, OF at_u]
    by (simp add: dll_def u(4,5) del: dseg_append)
  have map_i: "s_map s (n_key n) = Some i" using shard_rep_map [OF assms(1)] assms(2) by blast
  have map_u: "s_map u k = Some j \<longleftrightarrow> (\<exists>x. node_at u j = Some x \<and> n_key x = k)" for k j
  proof (cases "j = i")
    case True
    have "s_map s k \<noteq> Some i" if "k \<noteq> n_key n"
      using shard_rep_map [OF assms(1), of k i] assms(2) that by auto
    with True show ?thesis by (simp add: u(1,2))
  next
    case False
    have "k = n_key n \<Longrightarrow> s_map s k \<noteq> Some j" using map_i False by simp
    moreover have "s_map s k = Some j \<longleftrightarrow> (\<exists>x. node_at u j = Some x \<and> n_key x = k)"
      using entry_of_node_data(2) [OF data_u [OF False]] shard_rep_map [OF assms(1), of k j]
      by (cases "node_at s j"; cases "node_at u j") auto
    ultimately show ?thesis by (auto simp: u(2))
  qed
  have sizes: "size_ok x" if "node_at u j = Some x" for j x
  proof -
    have "j \<noteq> i" using that by (auto simp: u(1))
    from entry_of_node_data(3) [OF data_u [OF this]] that assms(1) show ?thesis
      by (cases "node_at s j") (auto simp: shard_rep_def)
  qed
  have none: "node_at u j = None \<longleftrightarrow> j = i \<or> node_at s j = None" for j
    using data_u [of j] by (cases "j = i") (auto simp: u(1) dest: arg_cong [of _ _ "\<lambda>x. x = None"])
  have free: "distinct (s_free u)" "set (s_free u) = {j. j < length (s_nodes u) \<and> node_at u j = None}"
    using assms node_at_bound [OF assms(2)] by (auto simp: shard_rep_def u(3,6) none)
  have dom_u: "set (as @ bs) = dom (node_at u)"
    using dom dist same_data_dom [OF t(3)] by (auto simp: u(1))
  have "shard_rep u (as @ bs)"
    unfolding shard_rep_def using dll_u dom_u free map_u sizes by blast
  then show ?thesis using run eq u(2) data_u by blast
qed

lemma remove_idx_refines:
  assumes "shard_inv s" and "s_map s k = Some i"
  shows "\<exists>n t. node_at s i = Some n \<and> remove_idx s i = Some (Some (n_size n), t) \<and> shard_inv t \<and>
    shard_abs t = drop_key k (shard_abs s) \<and> s_map t = (s_map s)(k := None) \<and>
    (\<forall>j. j \<noteq> i \<longrightarrow> map_option node_data (node_at t j) = map_option node_data (node_at s j)) \<and>
    total_bytes (shard_abs s) = n_size n + total_bytes (shard_abs t)"
proof -
  obtain xs where rep: "shard_rep s xs" using assms(1) by (auto simp: shard_inv_iff)
  obtain as bs n where xs: "xs = as @ i # bs" "node_at s i = Some n" "n_key n = k"
    "k \<notin> fst ` set (entries s as)" "k \<notin> fst ` set (entries s bs)"
    using shard_rep_split [OF rep assms(2)] by metis
  obtain t where t: "remove_idx s i = Some (Some (n_size n), t)" "shard_rep t (as @ bs)"
    "entries t (as @ bs) = entries s (as @ bs)" "s_map t = (s_map s)(k := None)"
    "\<forall>j. j \<noteq> i \<longrightarrow> map_option node_data (node_at t j) = map_option node_data (node_at s j)"
    using remove_rep [of s as i bs n] rep xs by auto
  have "shard_abs s = entries s as @ (k, n_value n, n_expires_at n) # entries s bs"
    using shard_rep_abs [OF rep] xs by (simp add: entry_of_def)
  moreover have "shard_abs t = entries s as @ entries s bs"
    using shard_rep_abs [OF t(2)] t(3) by simp
  moreover have "n_size n = entry_bytes (k, n_value n, n_expires_at n)"
    using rep xs by (auto simp: shard_rep_def size_ok_def entry_of_def)
  ultimately show ?thesis
    using t xs shard_rep_inv [OF t(2)] by (simp add: drop_key_def total_bytes_def)
qed

lemma pop_lru_refines:
  assumes "shard_inv s"
  shows "case shard_abs s of
      [] \<Rightarrow> pop_lru s = Some (None, s)
    | e # es \<Rightarrow> \<exists>t. pop_lru s = Some (Some (entry_bytes e), t) \<and> shard_inv t \<and> shard_abs t = es"
proof -
  obtain xs where rep: "shard_rep s xs" using assms(1) by (auto simp: shard_inv_iff)
  then have head: "s_head s = first_of xs" by (simp add: shard_rep_def dll_def)
  show ?thesis
  proof (cases xs)
    case Nil
    with rep head show ?thesis by (simp add: shard_rep_abs pop_lru_def)
  next
    case (Cons i bs)
    have "set xs = dom (node_at s)" using rep by (simp add: shard_rep_def)
    with Cons obtain n where n: "node_at s i = Some n" by auto
    have sz: "n_size n = entry_bytes (entry_of n)" using rep n by (auto simp: shard_rep_def size_ok_def)
    obtain t where t: "remove_idx s i = Some (Some (n_size n), t)" "shard_rep t bs"
      "entries t bs = entries s bs"
      using remove_rep [of s "[]" i bs n] rep Cons n by auto
    then show ?thesis
      using rep Cons n sz head shard_rep_inv [OF t(2)] by (simp add: shard_rep_abs pop_lru_def)
  qed
qed

lemma alloc_slot_spec:
  assumes "shard_rep s xs" and "alloc_slot s = (idx, t)"
  shows "idx < length (s_nodes t) \<and> node_at t = node_at s \<and> node_at s idx = None \<and>
    s_map t = s_map s \<and> s_head t = s_head s \<and> s_tail t = s_tail s \<and> distinct (s_free t) \<and>
    idx \<notin> set (s_free t) \<and>
    insert idx (set (s_free t)) = {i. i < length (s_nodes t) \<and> node_at t i = None}"
proof -
  have free: "distinct (s_free s)" "set (s_free s) = {i. i < length (s_nodes s) \<and> node_at s i = None}"
    using assms(1) by (auto simp: shard_rep_def)
  show ?thesis
  proof (cases "s_free s = []")
    case True
    with assms(2) have *: "idx = length (s_nodes s)" "t = s\<lparr>s_nodes := s_nodes s @ [None]\<rparr>"
      by (simp_all add: alloc_slot_def)
    have at: "node_at t = node_at s" unfolding * by (auto simp: node_at_def fun_eq_iff nth_append)
    have none: "node_at s (length (s_nodes s)) = None" by (simp add: node_at_def)
    have all: "{i. i < length (s_nodes s) \<and> node_at s i = None} = {}" using True free(2) by simp
    have "{i. i < length (s_nodes t) \<and> node_at s i = None} = {length (s_nodes s)}"
      using all none by (auto simp: * less_Suc_eq)
    with True none at show ?thesis by (simp add: *)
  next
    case False
    define ys y where "ys = butlast (s_free s)" and "y = last (s_free s)"
    with False have y: "s_free s = ys @ [y]" by simp
    from assms(2) False have *: "idx = y" "t = s\<lparr>s_free := ys\<rparr>"
      by (simp_all add: alloc_slot_def ys_def y_def)
    have "y \<in> {i. i < length (s_nodes s) \<and> node_at s i = None}" unfolding free(2) [symmetric] by (simp add: y)
    with free y show ?thesis by (simp add: *)
  qed
qed

lemma insert_new_refines:
  assumes "shard_inv s" and "s_map s k = None"
    and "sz = entry_size (of_nat (length k)) (of_nat (length v))"
  shows "\<exists>i t. insert_new s k v sz = Some (i, t) \<and> shard_inv t \<and>
    shard_abs t = shard_abs s @ [(k, v, None)]"
proof -
  obtain xs where rep: "shard_rep s xs" using assms(1) by (auto simp: shard_inv_iff)
  obtain idx r where r: "alloc_slot s = (idx, r)" by fastforce
  note al = alloc_slot_spec [OF rep r]
  have idx_none: "node_at s idx = None" and at_r: "node_at r = node_at s"
    and free_r: "distinct (s_free r)" "idx \<notin> set (s_free r)"
      "insert idx (set (s_free r)) = {i. i < length (s_nodes r) \<and> node_at s i = None}"
    using al by simp_all
  have set_free: "set (s_free r) = {i. i < length (s_nodes r) \<and> node_at s i = None} - {idx}"
    using free_r(2,3) by (metis Diff_insert_absorb)
  define n :: node where "n = \<lparr>n_key = k, n_value = v, n_expires_at = None, n_size = sz,
    n_prev = None, n_next = None\<rparr>"
  define w where "w = r\<lparr>s_nodes := (s_nodes r)[idx := Some n]\<rparr>"
  have w: "node_at w = (node_at s)(idx \<mapsto> n)" "s_map w = s_map s" "s_head w = s_head s"
    "s_tail w = s_tail s" "s_free w = s_free r" "length (s_nodes w) = length (s_nodes r)"
    using al by (simp_all add: w_def)
  have dom: "set xs = dom (node_at s)" and dll_s: "dll s xs" using rep by (auto simp: shard_rep_def)
  have new: "idx \<notin> set xs" using al dom by (auto simp: dom_def)
  have at_w: "node_at w j = node_at s j" if "j \<in> set xs" for j
    using new that by (auto simp: w(1))
  have dll_w: "dll w xs"
    using dll_s dseg_frame [of xs "node_at w" "node_at s" None None, OF at_w]
    by (simp add: dll_def w(3,4))
  obtain t where t: "lru_push_back w idx = Some t" "dll t (xs @ [idx])" "same_data w t"
    using lru_push_back_dll [OF dll_w new, of n] w(1) by auto
  define u where "u = t\<lparr>s_map := (s_map t)(k \<mapsto> idx)\<rparr>"
  have run: "insert_new s k v sz = Some (idx, u)"
    using al t(1) by (simp add: insert_new_def r u_def w_def n_def)
  have facts: "s_map t = s_map s" "s_free t = s_free r" "length (s_nodes t) = length (s_nodes r)"
    "\<And>j. map_option node_data (node_at t j) = map_option node_data (node_at w j)"
    using t(3) w by (auto simp: same_data_def)
  have u: "node_at u = node_at t" "s_map u = (s_map s)(k \<mapsto> idx)" "s_free u = s_free r"
    "length (s_nodes u) = length (s_nodes r)" "dll u (xs @ [idx])"
    using facts t(2) by (simp_all add: u_def dll_def)
  have none: "node_at u j = None \<longleftrightarrow> node_at w j = None" for j
    using facts(4) [of j] by (metis u(1) option.map_disc_iff)
  have keys: "(\<exists>x. node_at u j = Some x \<and> n_key x = q) \<longleftrightarrow> (\<exists>x. node_at w j = Some x \<and> n_key x = q)" for j q
    using entry_of_node_data(2) [OF facts(4) [of j]] by (cases "node_at w j"; cases "node_at t j") (auto simp: u(1))
  have map_u: "s_map u q = Some j \<longleftrightarrow> (\<exists>x. node_at u j = Some x \<and> n_key x = q)" for q j
    using shard_rep_map [OF rep, of q j] shard_rep_map [OF rep, of q idx] assms(2) idx_none
    by (cases "j = idx"; cases "q = k") (auto simp: keys u(2) w(1) n_def)
  have sizes: "size_ok x" if "node_at u j = Some x" for j x
  proof -
    have "size_ok y" if "node_at w j = Some y" for y
      using that rep assms(3)
      by (auto simp: w(1) n_def size_ok_def entry_bytes_def entry_of_def shard_rep_def split: if_splits)
    with entry_of_node_data(3) [OF facts(4) [of j]] that show ?thesis
      by (cases "node_at w j") (auto simp: u(1))
  qed
  have free: "distinct (s_free u)" "set (s_free u) = {j. j < length (s_nodes u) \<and> node_at u j = None}"
    using free_r(1) set_free by (auto simp: u(3,4) none w(1) split: if_splits)
  have dom_u: "set (xs @ [idx]) = dom (node_at u)"
    using dom none by (auto simp: dom_def w(1))
  have rep_u: "shard_rep u (xs @ [idx])"
    unfolding shard_rep_def using u(5) dom_u free map_u sizes by blast
  have "entries u (xs @ [idx]) = entries s xs @ [(k, v, None)]"
  proof -
    have "entries u (xs @ [idx]) = entries t (xs @ [idx])" by (simp only: entries_def u(1))
    also have "\<dots> = entries w (xs @ [idx])"
      using dom_u none by (intro same_data_entries [OF t(3)]) (auto simp: dom_def)
    also have "\<dots> = entries s xs @ [(k, v, None)]"
      using at_w by (auto simp: entries_def entry_of_def n_def w(1))
    finally show ?thesis .
  qed
  then show ?thesis
    using run rep rep_u by (auto simp: shard_rep_abs intro: shard_rep_inv)
qed

text \<open>
  Rewriting a node's payload in place (the value, size and deadline of an existing key) keeps the
  invariant and replaces the entry at its position.
\<close>

definition put_entry :: "bytes \<Rightarrow> bytes \<times> instant option \<Rightarrow> entry list \<Rightarrow> entry list" where
  "put_entry k d es = map (\<lambda>e. if fst e = k then (k, d) else e) es"

lemma update_node_refines:
  assumes "shard_inv s" and "s_map s k = Some i" and "node_at s i = Some n"
    and "n_key (f n) = n_key n" "n_prev (f n) = n_prev n" "n_next (f n) = n_next n" "size_ok (f n)"
  shows "\<exists>t. with_node s i f = Some t \<and> shard_inv t \<and> s_map t = s_map s \<and> node_at t i = Some (f n) \<and>
    s_tail t = s_tail s \<and>
    shard_abs t = put_entry k (n_value (f n), n_expires_at (f n)) (shard_abs s)"
proof -
  obtain xs where rep: "shard_rep s xs" using assms(1) by (auto simp: shard_inv_iff)
  have key: "n_key n = k" using shard_rep_map [OF rep] assms(2,3) by auto
  define t where "t = s\<lparr>s_nodes := (s_nodes s)[i := Some (f n)]\<rparr>"
  have t: "node_at t = (node_at s)(i \<mapsto> f n)" "s_map t = s_map s" "s_free t = s_free s"
    "s_head t = s_head s" "s_tail t = s_tail s" "length (s_nodes t) = length (s_nodes s)"
    using node_at_bound [OF assms(3)] by (simp_all add: t_def)
  have seg: "dseg (node_at t) p ys q = dseg (node_at s) p ys q" for p ys q
    using assms(3,5,6) by (induction ys arbitrary: p) (auto simp: t(1) split: option.splits)
  have dll_t: "dll t xs" using rep by (simp add: shard_rep_def dll_def seg t(4,5))
  have rep_t: "shard_rep t xs"
    using rep dll_t assms(3,4,7) by (auto simp: shard_rep_def t(1,2,3,6))
  have "entries t xs = put_entry k (n_value (f n), n_expires_at (f n)) (entries s xs)"
  proof -
    have "entry_of (the (node_at t j)) =
        (if n_key (the (node_at s j)) = k then (k, n_value (f n), n_expires_at (f n))
         else entry_of (the (node_at s j)))" if "j \<in> set xs" for j
    proof -
      have "j \<in> dom (node_at s)" using that rep by (simp add: shard_rep_def)
      then obtain m where m: "node_at s j = Some m" by blast
      then have "n_key m = k \<longleftrightarrow> j = i"
        using shard_rep_map [OF rep, of k j] assms(2) assms(3) key by auto
      with m key assms(4) show ?thesis by (simp add: t(1) entry_of_def)
    qed
    then show ?thesis by (simp add: entries_def put_entry_def entry_of_def)
  qed
  then show ?thesis
    using with_node_Some [OF assms(3), of f] rep rep_t t(1,2,5) shard_rep_inv [OF rep_t]
    by (simp add: shard_rep_abs flip: t_def)
qed

end
