(* ===== verification/HKV_Error.thy ===== *)
theory HKV_Error
  imports HKV_Prelude
begin

text \<open>
  The error codes shared by all crates (\<^verbatim>\<open>hkv-common/src/error.rs\<close>): the error enum with its fixed
  numeric codes, its categories, the retry hint, and the decoding of a numeric code. The theorems
  state that the codes are a faithful transport encoding and that the category is determined by
  the decade of the code, as the module's design notes promise.
\<close>

section \<open>Errors and categories\<close>

datatype HkvErrorCategory = CatClient | CatServer | CatTransient | CatProtocol

fun category_is_retryable :: "HkvErrorCategory \<Rightarrow> bool" where
  "category_is_retryable CatTransient = True"
| "category_is_retryable _ = False"

datatype HkvError =
    InvalidInput | NotFound | KeyTooLong | ValueTooLong
  | OutOfMemory | CapacityExceeded | InternalError
  | Busy | Timeout | Interrupted
  | VersionMismatch | ProtocolViolation | UnsupportedCommand

text \<open>\<^verbatim>\<open>HkvResult<T>\<close>: \<open>Inl\<close> is \<^verbatim>\<open>Err\<close>, \<open>Inr\<close> is \<^verbatim>\<open>Ok\<close>.\<close>

type_synonym 'a HkvResult = "HkvError + 'a"

fun error_code :: "HkvError \<Rightarrow> u16" where
  "error_code InvalidInput = 1"
| "error_code NotFound = 2"
| "error_code KeyTooLong = 3"
| "error_code ValueTooLong = 4"
| "error_code OutOfMemory = 10"
| "error_code CapacityExceeded = 11"
| "error_code InternalError = 12"
| "error_code Busy = 20"
| "error_code Timeout = 21"
| "error_code Interrupted = 22"
| "error_code VersionMismatch = 30"
| "error_code ProtocolViolation = 31"
| "error_code UnsupportedCommand = 32"

fun category :: "HkvError \<Rightarrow> HkvErrorCategory" where
  "category InvalidInput = CatClient"
| "category NotFound = CatClient"
| "category KeyTooLong = CatClient"
| "category ValueTooLong = CatClient"
| "category OutOfMemory = CatServer"
| "category CapacityExceeded = CatServer"
| "category InternalError = CatServer"
| "category Busy = CatTransient"
| "category Timeout = CatTransient"
| "category Interrupted = CatTransient"
| "category VersionMismatch = CatProtocol"
| "category ProtocolViolation = CatProtocol"
| "category UnsupportedCommand = CatProtocol"

definition error_is_retryable :: "HkvError \<Rightarrow> bool" where
  "error_is_retryable e = category_is_retryable (category e)"

definition from_code :: "u16 \<Rightarrow> HkvError option" where
  "from_code c =
     (if c = 1 then Some InvalidInput
      else if c = 2 then Some NotFound
      else if c = 3 then Some KeyTooLong
      else if c = 4 then Some ValueTooLong
      else if c = 10 then Some OutOfMemory
      else if c = 11 then Some CapacityExceeded
      else if c = 12 then Some InternalError
      else if c = 20 then Some Busy
      else if c = 21 then Some Timeout
      else if c = 22 then Some Interrupted
      else if c = 30 then Some VersionMismatch
      else if c = 31 then Some ProtocolViolation
      else if c = 32 then Some UnsupportedCommand
      else None)"

text \<open>The label written by \<^verbatim>\<open>impl Display for HkvError\<close>.\<close>

fun error_label :: "HkvError \<Rightarrow> string" where
  "error_label InvalidInput = ''invalid input''"
| "error_label NotFound = ''not found''"
| "error_label KeyTooLong = ''key too long''"
| "error_label ValueTooLong = ''value too long''"
| "error_label OutOfMemory = ''out of memory''"
| "error_label CapacityExceeded = ''capacity exceeded''"
| "error_label InternalError = ''internal error''"
| "error_label Busy = ''busy''"
| "error_label Timeout = ''timeout''"
| "error_label Interrupted = ''interrupted''"
| "error_label VersionMismatch = ''version mismatch''"
| "error_label ProtocolViolation = ''protocol violation''"
| "error_label UnsupportedCommand = ''unsupported command''"

section \<open>Properties\<close>

lemma from_code_error_code: "from_code (error_code e) = Some e"
  by (cases e) (simp_all add: from_code_def)

lemma from_code_SomeD: "from_code c = Some e \<Longrightarrow> c = error_code e"
  by (auto simp: from_code_def split: if_splits)

lemma error_code_inject: "error_code a = error_code b \<longleftrightarrow> a = b"
  by (metis from_code_error_code option.inject)

lemma error_code_nonzero: "error_code e \<noteq> 0"
  by (cases e) simp_all

lemma category_decade:
  "category e =
     (if unat (error_code e) div 10 = 0 then CatClient
      else if unat (error_code e) div 10 = 1 then CatServer
      else if unat (error_code e) div 10 = 2 then CatTransient
      else CatProtocol)"
  by (cases e) simp_all

lemma error_label_inject: "error_label a = error_label b \<longleftrightarrow> a = b"
  by (cases a; cases b) simp_all

end
