(* ===== verification/Memory_Engine.thy ===== *)
theory Memory_Engine
  imports Shard_Refine HKV_Error
begin

text \<open>
  The sharded engine (\<^verbatim>\<open>hkv-engine/src/memory.rs\<close>, \<^verbatim>\<open>MemoryEngine\<close>, and the trait of
  \<^verbatim>\<open>hkv-engine/src/engine.rs\<close>): shard selection, the five operations of the trait, byte-budget
  eviction, the sweep of expired entries and the constructors. Each operation is a function of the
  engine's state and of the instant its call of \<^verbatim>\<open>Instant::now()\<close> returns.

  The body an operation runs under its shard's lock is a definition of its own, a function of the
  shard and of the shared byte counter. The hash of \<^verbatim>\<open>ahash\<close> is the field \<open>e_hash_state\<close>, any
  function of the key; the order in which \<^verbatim>\<open>HashMap::values\<close> visits a map is the argument \<open>vals\<close> of
  the sweep.
\<close>

unbundle bit_operations_syntax

section \<open>State\<close>

datatype TtlStatus = Missing | NoExpiry | ExpiresIn duration

record memory_engine =
  e_shards :: "shard_inner list"
  e_shard_mask :: usize
  e_hash_state :: "bytes \<Rightarrow> u64"
  e_max_bytes :: usize
  e_used_bytes :: usize
  e_eviction_cursor :: usize

definition default_shard_multiplier :: usize where
  "default_shard_multiplier = 4"

section \<open>Constructors\<close>

text \<open>
  \<^verbatim>\<open>usize::next_power_of_two\<close>: the least power of two that is not below the argument, computed in
  64 bits, so that it is 0 when there is none.
\<close>

definition next_power_of_two :: "usize \<Rightarrow> usize" where
  "next_power_of_two w =
     (case find (\<lambda>n. unat w \<le> 2 ^ n) [0..<64] of Some n \<Rightarrow> 2 ^ n | None \<Rightarrow> 0)"

definition normalize_shard_count :: "usize \<Rightarrow> usize" where
  "normalize_shard_count count = next_power_of_two (max count 1)"

text \<open>The engine that the constructor returns once the vector of shards is allocated and filled.\<close>

definition engine_of :: "(bytes \<Rightarrow> u64) \<Rightarrow> usize \<Rightarrow> usize \<Rightarrow> memory_engine" where
  "engine_of hash_state shard_count max_bytes =
     \<lparr>e_shards = replicate (unat shard_count) shard_new,
      e_shard_mask = shard_count - 1,
      e_hash_state = hash_state,
      e_max_bytes = max_bytes,
      e_used_bytes = 0,
      e_eviction_cursor = 0\<rparr>"

text \<open>
  \<open>alloc_shards n\<close> says whether \<^verbatim>\<open>Vec::with_capacity\<close> gives a vector for \<open>n\<close> shards; it panics when the
  vector would have more than \<^verbatim>\<open>isize::MAX\<close> bytes, and a failed allocation ends the process.
\<close>

definition with_shard_count_and_capacity ::
    "(nat \<Rightarrow> bool) \<Rightarrow> (bytes \<Rightarrow> u64) \<Rightarrow> usize \<Rightarrow> usize \<Rightarrow> memory_engine exec" where
  "with_shard_count_and_capacity alloc_shards hash_state shards max_bytes =
     (let shard_count = normalize_shard_count shards in
      if \<not> alloc_shards (unat shard_count) then None
      else Some (engine_of hash_state shard_count max_bytes))"

definition with_shard_count :: "(nat \<Rightarrow> bool) \<Rightarrow> (bytes \<Rightarrow> u64) \<Rightarrow> usize \<Rightarrow> memory_engine exec" where
  "with_shard_count alloc_shards hash_state shards =
     with_shard_count_and_capacity alloc_shards hash_state shards (- 1)"

text \<open>\<open>parallelism\<close> is the answer of \<^verbatim>\<open>available_parallelism\<close>, \<open>None\<close> when it fails.\<close>

definition engine_new :: "(nat \<Rightarrow> bool) \<Rightarrow> (bytes \<Rightarrow> u64) \<Rightarrow> usize option \<Rightarrow> memory_engine exec" where
  "engine_new alloc_shards hash_state parallelism =
     (let threads = (case parallelism of Some count \<Rightarrow> count | None \<Rightarrow> 1);
          shard_count = saturating_mul threads default_shard_multiplier in
      with_shard_count alloc_shards hash_state shard_count)"

section \<open>Shard selection\<close>

definition shard_index :: "memory_engine \<Rightarrow> bytes \<Rightarrow> usize" where
  "shard_index e key = e_hash_state e key AND e_shard_mask e"

definition shard_for :: "memory_engine \<Rightarrow> bytes \<Rightarrow> shard_inner exec" where
  "shard_for e key = index_at (e_shards e) (unat (shard_index e key))"

text \<open>
  A critical section reads and writes one shard and the byte counter. \<open>under_lock\<close> runs it on the
  shard of a key.
\<close>

type_synonym 'r locked = "shard_inner \<Rightarrow> usize \<Rightarrow> ('r \<times> shard_inner \<times> usize) exec"

definition under_lock :: "memory_engine \<Rightarrow> bytes \<Rightarrow> 'r locked \<Rightarrow> ('r \<times> memory_engine) exec" where
  "under_lock e key sec = do {
     inner \<leftarrow> shard_for e key;
     (r, inner, used) \<leftarrow> sec inner (e_used_bytes e);
     Some (r, e\<lparr>e_shards := (e_shards e)[unat (shard_index e key) := inner], e_used_bytes := used\<rparr>)
   }"

text \<open>
  \<^verbatim>\<open>if let Some(size) = inner.remove_idx(idx) { used_bytes.fetch_sub(size) }\<close>; the result tells
  whether a node was removed.
\<close>

definition reclaim :: "nat \<Rightarrow> bool locked" where
  "reclaim idx inner used = do {
     (freed, inner) \<leftarrow> remove_idx inner idx;
     (case freed of
        Some sz \<Rightarrow> Some (True, inner, used - sz)
      | None \<Rightarrow> Some (False, inner, used))
   }"

section \<open>The operations of the trait\<close>

definition get_section :: "instant \<Rightarrow> bytes \<Rightarrow> bytes option HkvResult locked" where
  "get_section now key inner used =
     (case s_map inner key of
        None \<Rightarrow> Some (Inr None, inner, used)
      | Some idx \<Rightarrow> do {
          slot \<leftarrow> index_at (s_nodes inner) idx;
          (case slot of
             None \<Rightarrow> Some (Inr None, inner, used)
           | Some node \<Rightarrow>
               if is_expired node now then do {
                 (_, inner, used) \<leftarrow> reclaim idx inner used;
                 Some (Inr None, inner, used)
               } else do {
                 slot \<leftarrow> index_at (s_nodes inner) idx;
                 let value = map_option n_value slot;
                 inner \<leftarrow> touch inner idx;
                 Some (Inr value, inner, used)
               })
        })"

definition kv_get ::
    "memory_engine \<Rightarrow> instant \<Rightarrow> bytes \<Rightarrow> (bytes option HkvResult \<times> memory_engine) exec" where
  "kv_get e now key = under_lock e key (get_section now key)"

text \<open>The first half of \<^verbatim>\<open>set\<close>: an expired entry under the key is removed.\<close>

definition set_purge :: "instant \<Rightarrow> bytes \<Rightarrow> unit locked" where
  "set_purge now key inner used =
     (case s_map inner key of
        None \<Rightarrow> Some ((), inner, used)
      | Some idx \<Rightarrow> do {
          slot \<leftarrow> index_at (s_nodes inner) idx;
          let remove = map_option (\<lambda>node. is_expired node now) slot;
          (if (case remove of Some b \<Rightarrow> b | None \<Rightarrow> False) then do {
             (_, inner, used) \<leftarrow> reclaim idx inner used;
             Some ((), inner, used)
           } else Some ((), inner, used))
        })"

text \<open>The second half: the node is rewritten and touched, or a new one inserted.\<close>

definition set_write :: "bytes \<Rightarrow> bytes \<Rightarrow> usize \<Rightarrow> unit locked" where
  "set_write key value new_size inner used =
     (case s_map inner key of
        Some idx \<Rightarrow> do {
          slot \<leftarrow> index_at (s_nodes inner) idx;
          (case slot of
             None \<Rightarrow> Some ((), inner, used)
           | Some node \<Rightarrow> do {
               let old_size = n_size node;
               inner \<leftarrow> with_node inner idx
                 (\<lambda>n. n\<lparr>n_value := value, n_size := new_size, n_expires_at := None\<rparr>);
               inner \<leftarrow> touch inner idx;
               Some ((), inner,
                 if new_size > old_size then used + (new_size - old_size)
                 else if old_size > new_size then used - (old_size - new_size)
                 else used)
             })
        }
      | None \<Rightarrow> do {
          (_, inner) \<leftarrow> insert_new inner key value new_size;
          Some ((), inner, used + new_size)
        })"

definition set_section :: "instant \<Rightarrow> bytes \<Rightarrow> bytes \<Rightarrow> unit locked" where
  "set_section now key value inner used = do {
     let new_size = entry_size (of_nat (length key)) (of_nat (length value));
     (_, inner, used) \<leftarrow> set_purge now key inner used;
     set_write key value new_size inner used
   }"

definition delete_section :: "instant \<Rightarrow> bytes \<Rightarrow> bool HkvResult locked" where
  "delete_section now key inner used =
     (case s_map inner key of
        None \<Rightarrow> Some (Inr False, inner, used)
      | Some idx \<Rightarrow> do {
          slot \<leftarrow> index_at (s_nodes inner) idx;
          let expired = (case slot of Some node \<Rightarrow> is_expired node now | None \<Rightarrow> False);
          (_, inner, used) \<leftarrow> reclaim idx inner used;
          Some (Inr (\<not> expired), inner, used)
        })"

definition kv_delete ::
    "memory_engine \<Rightarrow> instant \<Rightarrow> bytes \<Rightarrow> (bool HkvResult \<times> memory_engine) exec" where
  "kv_delete e now key = under_lock e key (delete_section now key)"

definition expire_section :: "instant \<Rightarrow> bytes \<Rightarrow> duration \<Rightarrow> unit HkvResult locked" where
  "expire_section now key d inner used =
     (case s_map inner key of
        None \<Rightarrow> Some (Inl NotFound, inner, used)
      | Some idx \<Rightarrow> do {
          slot \<leftarrow> index_at (s_nodes inner) idx;
          let expired = (case slot of Some node \<Rightarrow> is_expired node now | None \<Rightarrow> False);
          (if expired then do {
             (_, inner, used) \<leftarrow> reclaim idx inner used;
             Some (Inl NotFound, inner, used)
           } else (case slot of
               None \<Rightarrow> Some (Inr (), inner, used)
             | Some _ \<Rightarrow> do {
                 deadline \<leftarrow> instant_add now d;
                 inner \<leftarrow> with_node inner idx (\<lambda>n. n\<lparr>n_expires_at := Some deadline\<rparr>);
                 Some (Inr (), inner, used)
               }))
        })"

definition kv_expire ::
    "memory_engine \<Rightarrow> instant \<Rightarrow> bytes \<Rightarrow> duration \<Rightarrow> (unit HkvResult \<times> memory_engine) exec" where
  "kv_expire e now key d = under_lock e key (expire_section now key d)"

definition ttl_section :: "instant \<Rightarrow> bytes \<Rightarrow> TtlStatus HkvResult locked" where
  "ttl_section now key inner used =
     (case s_map inner key of
        None \<Rightarrow> Some (Inr Missing, inner, used)
      | Some idx \<Rightarrow> do {
          slot \<leftarrow> index_at (s_nodes inner) idx;
          let expired = (case slot of Some node \<Rightarrow> is_expired node now | None \<Rightarrow> False);
          (if expired then do {
             (_, inner, used) \<leftarrow> reclaim idx inner used;
             Some (Inr Missing, inner, used)
           } else (case Option.bind slot n_expires_at of
               None \<Rightarrow> Some (Inr NoExpiry, inner, used)
             | Some deadline \<Rightarrow>
                 if deadline \<le> now then do {
                   (_, inner, used) \<leftarrow> reclaim idx inner used;
                   Some (Inr Missing, inner, used)
                 } else Some (Inr (ExpiresIn (deadline - now)), inner, used)))
        })"

definition kv_ttl ::
    "memory_engine \<Rightarrow> instant \<Rightarrow> bytes \<Rightarrow> (TtlStatus HkvResult \<times> memory_engine) exec" where
  "kv_ttl e now key = under_lock e key (ttl_section now key)"

section \<open>Eviction\<close>

definition evict_one_from_shard :: "memory_engine \<Rightarrow> usize \<Rightarrow> (usize option \<times> memory_engine) exec" where
  "evict_one_from_shard e idx = do {
     inner \<leftarrow> index_at (e_shards e) (unat idx);
     (freed, inner) \<leftarrow> pop_lru inner;
     Some (freed, e\<lparr>e_shards := (e_shards e)[unat idx := inner]\<rparr>)
   }"

text \<open>The inner loop of \<^verbatim>\<open>evict_if_needed\<close>, over the offsets that are left.\<close>

fun evict_scan :: "usize \<Rightarrow> nat list \<Rightarrow> memory_engine \<Rightarrow> (bool \<times> memory_engine) exec" where
  "evict_scan start [] e = Some (False, e)"
| "evict_scan start (offset # offsets) e = do {
     let idx = (start + of_nat offset) AND e_shard_mask e;
     (freed, e) \<leftarrow> evict_one_from_shard e idx;
     (case freed of
        Some sz \<Rightarrow> Some (True, e\<lparr>e_used_bytes := e_used_bytes e - sz\<rparr>)
      | None \<Rightarrow> evict_scan start offsets e)
   }"

text \<open>
  Every eviction decreases the number of occupied slots. Only the slots' occupation matters here, so
  that the loop ends on any engine, whether or not its lists are well formed.
\<close>

definition live_slots :: "shard_inner \<Rightarrow> bool list" where
  "live_slots s = map (\<lambda>slot. slot \<noteq> None) (s_nodes s)"

definition occupied :: "shard_inner \<Rightarrow> nat" where
  "occupied s = length (filter id (live_slots s))"

definition engine_occupied :: "memory_engine \<Rightarrow> nat" where
  "engine_occupied e = sum_list (map occupied (e_shards e))"

lemma live_slots_links [simp]:
  "live_slots (s\<lparr>s_head := h\<rparr>) = live_slots s"
  "live_slots (s\<lparr>s_tail := l\<rparr>) = live_slots s"
  by (simp_all add: live_slots_def)

lemma with_node_live_slots: "with_node s i f = Some t \<Longrightarrow> live_slots t = live_slots s"
  by (auto simp: with_node_def live_slots_def map_update bind_eq_Some_conv list_eq_iff_nth_eq
      nth_list_update split: if_splits dest!: update_at_SomeD)

lemma lru_remove_live_slots: "lru_remove s i = Some t \<Longrightarrow> live_slots t = live_slots s"
  by (auto simp: lru_remove_def bind_eq_Some_conv Let_def split: option.splits
      dest!: with_node_live_slots)

lemma remove_idx_live_slots:
  assumes "remove_idx s i = Some (Some sz, t)"
  shows "i < length (live_slots s) \<and> live_slots s ! i \<and> live_slots t = (live_slots s)[i := False]"
proof -
  from assms obtain n u where i: "i < length (s_nodes s)" "s_nodes s ! i = Some n"
    and u: "lru_remove s i = Some u" "s_nodes t = (s_nodes u)[i := None]"
    by (fastforce simp: remove_idx_def bind_eq_Some_conv split: option.splits
        dest: index_at_SomeD update_at_SomeD)
  then show ?thesis
    using lru_remove_live_slots [OF u(1)] by (simp add: live_slots_def map_update)
qed

lemma length_filter_clear:
  "i < length xs \<Longrightarrow> xs ! i \<Longrightarrow> length (filter id (xs[i := False])) < length (filter id xs)"
proof (induction xs arbitrary: i)
  case (Cons x xs)
  then show ?case by (cases i) auto
qed simp

lemma pop_lru_occupied: "pop_lru s = Some (Some sz, t) \<Longrightarrow> occupied t < occupied s"
  by (auto simp: pop_lru_def occupied_def length_filter_clear split: option.splits
      dest!: remove_idx_live_slots)

lemma pop_lru_None_same: "pop_lru s = Some (None, t) \<Longrightarrow> t = s"
  by (auto simp: pop_lru_def remove_idx_def bind_eq_Some_conv split: option.splits)

lemma sum_list_update_less:
  "i < length xs \<Longrightarrow> y < xs ! i \<Longrightarrow> sum_list (xs[i := y]) < sum_list (xs :: nat list)"
proof (induction xs arbitrary: i)
  case (Cons x xs)
  then show ?case by (cases i) auto
qed simp

lemma evict_one_occupied:
  "evict_one_from_shard e idx = Some (Some sz, e') \<Longrightarrow> engine_occupied e' < engine_occupied e"
  by (auto simp: evict_one_from_shard_def engine_occupied_def bind_eq_Some_conv map_update
      intro!: sum_list_update_less dest!: index_at_SomeD pop_lru_occupied)

lemma evict_one_None_same: "evict_one_from_shard e idx = Some (None, e') \<Longrightarrow> e' = e"
  by (auto simp: evict_one_from_shard_def bind_eq_Some_conv dest!: index_at_SomeD pop_lru_None_same)

lemma evict_scan_occupied:
  "evict_scan start offsets e = Some (True, e') \<Longrightarrow> engine_occupied e' < engine_occupied e"
proof (induction offsets)
  case (Cons offset offsets)
  from Cons.prems obtain freed e1 where e1:
      "evict_one_from_shard e (start + of_nat offset AND e_shard_mask e) = Some (freed, e1)"
    and rest: "(case freed of Some sz \<Rightarrow> Some (True, e1\<lparr>e_used_bytes := e_used_bytes e1 - sz\<rparr>)
      | None \<Rightarrow> evict_scan start offsets e1) = Some (True, e')"
    by (auto simp: bind_eq_Some_conv)
  show ?case
  proof (cases freed)
    case None
    with e1 rest Cons.IH show ?thesis by (auto dest!: evict_one_None_same)
  next
    case (Some sz)
    with e1 rest show ?thesis by (auto simp: engine_occupied_def dest!: evict_one_occupied)
  qed
qed simp

function evict_loop :: "memory_engine \<Rightarrow> memory_engine exec" where
  "evict_loop e =
     (if e_used_bytes e \<le> e_max_bytes e then Some e
      else do {
        let start = e_eviction_cursor e;
        let e = e\<lparr>e_eviction_cursor := e_eviction_cursor e + 1\<rparr>;
        (evicted, e) \<leftarrow> evict_scan start [0..<length (e_shards e)] e;
        (if evicted then evict_loop e else Some e)
      })"
  by pat_completeness auto
termination
  by (relation "measure engine_occupied")
    (auto dest!: evict_scan_occupied simp: engine_occupied_def)

declare evict_loop.simps [simp del]

definition evict_if_needed :: "memory_engine \<Rightarrow> memory_engine exec" where
  "evict_if_needed e = (if e_max_bytes e = - 1 then Some e else evict_loop e)"

definition kv_set ::
    "memory_engine \<Rightarrow> instant \<Rightarrow> bytes \<Rightarrow> bytes \<Rightarrow> (unit HkvResult \<times> memory_engine) exec" where
  "kv_set e now key value = do {
     (_, e) \<leftarrow> under_lock e key (set_section now key value);
     e \<leftarrow> evict_if_needed e;
     Some (Inr (), e)
   }"

section \<open>The sweep of expired entries\<close>

text \<open>\<open>vals m\<close> lists the values of the map \<open>m\<close> in the order \<^verbatim>\<open>HashMap::values\<close> visits them.\<close>

fun collect_expired :: "instant \<Rightarrow> shard_inner \<Rightarrow> nat list \<Rightarrow> nat list exec" where
  "collect_expired now inner [] = Some []"
| "collect_expired now inner (idx # idxs) = do {
     slot \<leftarrow> index_at (s_nodes inner) idx;
     expired \<leftarrow> collect_expired now inner idxs;
     Some (case slot of
         Some node \<Rightarrow> if is_expired node now then idx # expired else expired
       | None \<Rightarrow> expired)
   }"

fun remove_all :: "nat list \<Rightarrow> usize \<Rightarrow> usize locked" where
  "remove_all [] removed inner used = Some (removed, inner, used)"
| "remove_all (idx # idxs) removed inner used = do {
     (hit, inner, used) \<leftarrow> reclaim idx inner used;
     remove_all idxs (if hit then removed + 1 else removed) inner used
   }"

definition purge_section ::
    "((bytes \<rightharpoonup> nat) \<Rightarrow> nat list) \<Rightarrow> instant \<Rightarrow> usize \<Rightarrow> usize locked" where
  "purge_section vals now removed inner used = do {
     expired \<leftarrow> collect_expired now inner (vals (s_map inner));
     remove_all expired removed inner used
   }"

fun purge_shards ::
    "((bytes \<rightharpoonup> nat) \<Rightarrow> nat list) \<Rightarrow> instant \<Rightarrow> usize \<Rightarrow> shard_inner list \<Rightarrow> usize \<Rightarrow>
     (usize \<times> shard_inner list \<times> usize) exec" where
  "purge_shards vals now removed [] used = Some (removed, [], used)"
| "purge_shards vals now removed (inner # shards) used = do {
     (removed, inner, used) \<leftarrow> purge_section vals now removed inner used;
     (removed, shards, used) \<leftarrow> purge_shards vals now removed shards used;
     Some (removed, inner # shards, used)
   }"

definition purge_expired ::
    "((bytes \<rightharpoonup> nat) \<Rightarrow> nat list) \<Rightarrow> memory_engine \<Rightarrow> instant \<Rightarrow> (usize \<times> memory_engine) exec" where
  "purge_expired vals e now = do {
     (removed, shards, used) \<leftarrow> purge_shards vals now 0 (e_shards e) (e_used_bytes e);
     Some (removed, e\<lparr>e_shards := shards, e_used_bytes := used\<rparr>)
   }"

end
