(* ===== verification/Engine_Sections.thy ===== *)
theory Engine_Sections
  imports Memory_Engine
begin

text \<open>
  The critical sections of the engine refine operations on the list of a shard's entries. A section
  that refines an abstract operation panics exactly when the operation does, keeps the shard's
  invariant, and moves the byte counter by the change of the shard's size.
\<close>

section \<open>The abstract operations on a shard\<close>

definition expired_at :: "instant option \<Rightarrow> instant \<Rightarrow> bool" where
  "expired_at d now = (case d of Some deadline \<Rightarrow> deadline \<le> now | None \<Rightarrow> False)"

lemma is_expired_at: "is_expired n now = expired_at (n_expires_at n) now"
  by (simp add: is_expired_def expired_at_def)

lemma expired_at_simps [simp]:
  "expired_at None now = False" "expired_at (Some t) now = (t \<le> now)"
  by (simp_all add: expired_at_def)

lemma expired_at_mono: "expired_at d now \<Longrightarrow> now \<le> later \<Longrightarrow> expired_at d later"
  by (cases d) auto

type_synonym 'r entries_op = "entry list \<Rightarrow> ('r \<times> entry list) exec"

definition abs_get :: "instant \<Rightarrow> bytes \<Rightarrow> bytes option HkvResult entries_op" where
  "abs_get now k es = Some (case map_of es k of
       None \<Rightarrow> (Inr None, es)
     | Some (v, d) \<Rightarrow>
         if expired_at d now then (Inr None, drop_key k es) else (Inr (Some v), move_to_back k es))"

definition abs_set :: "bytes \<Rightarrow> bytes \<Rightarrow> unit entries_op" where
  "abs_set k v es = Some ((), drop_key k es @ [(k, v, None)])"

definition abs_delete :: "instant \<Rightarrow> bytes \<Rightarrow> bool HkvResult entries_op" where
  "abs_delete now k es = Some (case map_of es k of
       None \<Rightarrow> (Inr False, es)
     | Some (v, d) \<Rightarrow> (Inr (\<not> expired_at d now), drop_key k es))"

definition abs_expire :: "instant \<Rightarrow> bytes \<Rightarrow> duration \<Rightarrow> unit HkvResult entries_op" where
  "abs_expire now k dur es = (case map_of es k of
       None \<Rightarrow> Some (Inl NotFound, es)
     | Some (v, d) \<Rightarrow>
         if expired_at d now then Some (Inl NotFound, drop_key k es)
         else map_option (\<lambda>t. (Inr (), put_entry k (v, Some t) es)) (instant_add now dur))"

definition abs_ttl :: "instant \<Rightarrow> bytes \<Rightarrow> TtlStatus HkvResult entries_op" where
  "abs_ttl now k es = Some (case map_of es k of
       None \<Rightarrow> (Inr Missing, es)
     | Some (v, d) \<Rightarrow>
         if expired_at d now then (Inr Missing, drop_key k es)
         else (Inr (case d of None \<Rightarrow> NoExpiry | Some t \<Rightarrow> ExpiresIn (t - now)), es))"

definition abs_purge :: "instant \<Rightarrow> usize \<Rightarrow> usize entries_op" where
  "abs_purge now n es =
     Some (n + of_nat (length (filter (\<lambda>(k, v, d). expired_at d now) es)),
           filter (\<lambda>(k, v, d). \<not> expired_at d now) es)"

section \<open>Refinement of a section\<close>

definition refines_section :: "'r locked \<Rightarrow> 'r entries_op \<Rightarrow> bool" where
  "refines_section sec f \<longleftrightarrow>
     (\<forall>s used. shard_inv s \<longrightarrow>
        (case f (shard_abs s) of
           None \<Rightarrow> sec s used = None
         | Some (r, es) \<Rightarrow> \<exists>t. sec s used = Some (r, t, used + total_bytes es - total_bytes (shard_abs s)) \<and>
             shard_inv t \<and> shard_abs t = es))"

lemma refines_sectionI:
  assumes "\<And>s used. shard_inv s \<Longrightarrow> f (shard_abs s) = None \<Longrightarrow> sec s used = None"
    and "\<And>s used r es. shard_inv s \<Longrightarrow> f (shard_abs s) = Some (r, es) \<Longrightarrow>
      \<exists>t. sec s used = Some (r, t, used + total_bytes es - total_bytes (shard_abs s)) \<and>
        shard_inv t \<and> shard_abs t = es"
  shows "refines_section sec f"
  unfolding refines_section_def using assms by (auto split: option.splits)

lemma refines_sectionD:
  assumes "refines_section sec f" and "shard_inv s" and "f (shard_abs s) = Some (r, es)"
  obtains t where "sec s used = Some (r, t, used + total_bytes es - total_bytes (shard_abs s))"
    "shard_inv t" "shard_abs t = es"
  using assms(1) [unfolded refines_section_def, rule_format, OF assms(2), of used] assms(3) that
  by auto

lemma refines_section_None:
  "refines_section sec f \<Longrightarrow> shard_inv s \<Longrightarrow> f (shard_abs s) = None \<Longrightarrow> sec s used = None"
  unfolding refines_section_def by force

lemma total_bytes_simps [simp]:
  "total_bytes [] = 0"
  "total_bytes (e # es) = entry_bytes e + total_bytes es"
  "total_bytes (es @ fs) = total_bytes es + total_bytes fs"
  by (simp_all add: total_bytes_def)

lemma total_bytes_partition:
  "total_bytes (filter P es) + total_bytes (filter (\<lambda>e. \<not> P e) es) = total_bytes es"
  by (induction es) (simp_all add: algebra_simps)

lemma total_bytes_move_to_back [simp]: "total_bytes (move_to_back k es) = total_bytes es"
  using total_bytes_partition [of "\<lambda>e. fst e \<noteq> k" es] by (simp add: move_to_back_def)

lemma drop_key_absent: "k \<notin> fst ` set es \<Longrightarrow> drop_key k es = es"
  by (simp add: drop_key_def)

lemma drop_key_keys [simp]: "fst ` set (drop_key k es) = fst ` set es - {k}"
  by (auto simp: drop_key_def)

lemma total_bytes_drop_key:
  assumes "distinct (map fst es)" and "map_of es k = Some d"
  shows "total_bytes es = entry_bytes (k, d) + total_bytes (drop_key k es)"
  using assms
proof (induction es)
  case (Cons e es)
  then show ?case
    by (cases e) (auto simp: drop_key_def total_bytes_def algebra_simps split: if_splits)
qed simp

lemma put_entry_absent: "k \<notin> fst ` set es \<Longrightarrow> put_entry k d es = es"
  unfolding put_entry_def by (rule map_idI) force

text \<open>Moving the rewritten entry to the back is dropping the key and appending the entry.\<close>

lemma move_put_entry:
  assumes "distinct (map fst es)" and "k \<in> fst ` set es"
  shows "move_to_back k (put_entry k d es) = drop_key k es @ [(k, d)]"
  using assms
proof (induction es)
  case (Cons e es)
  show ?case
  proof (cases "fst e = k")
    case True
    with Cons.prems have "k \<notin> fst ` set es" by auto
    with True put_entry_absent [OF this, of d] show ?thesis
      by (simp add: move_to_back_def drop_key_def put_entry_def)
  next
    case False
    with Cons show ?thesis by (auto simp: move_to_back_def drop_key_def put_entry_def)
  qed
qed simp

lemma reclaim_refines:
  assumes "shard_inv s" and "s_map s k = Some i"
  shows "\<exists>t. reclaim i s used =
      Some (True, t, used + total_bytes (drop_key k (shard_abs s)) - total_bytes (shard_abs s)) \<and>
    shard_inv t \<and> shard_abs t = drop_key k (shard_abs s) \<and> s_map t = (s_map s)(k := None) \<and>
    (\<forall>j. j \<noteq> i \<longrightarrow> map_option node_data (node_at t j) = map_option node_data (node_at s j))"
proof -
  from remove_idx_refines [OF assms] obtain n :: node and t where
    "remove_idx s i = Some (Some (n_size n), t)" "shard_inv t" "shard_abs t = drop_key k (shard_abs s)"
    "s_map t = (s_map s)(k := None)"
    "\<forall>j. j \<noteq> i \<longrightarrow> map_option node_data (node_at t j) = map_option node_data (node_at s j)"
    "total_bytes (shard_abs s) = n_size n + total_bytes (shard_abs t)"
    by blast
  then show ?thesis by (simp add: reclaim_def)
qed

text \<open>What a section finds under a key: nothing, or a node whose payload is the entry.\<close>

lemma section_cases [consumes 1, case_names absent present]:
  assumes "shard_inv s"
  obtains "s_map s k = None" "map_of (shard_abs s) k = None"
  | i n where "s_map s k = Some i" "node_at s i = Some n" "index_at (s_nodes s) i = Some (Some n)"
      "n_key n = k" "size_ok n" "map_of (shard_abs s) k = Some (n_value n, n_expires_at n)"
proof (cases "s_map s k")
  case None
  with assms that(1) show thesis by (simp add: shard_inv_lookup)
next
  case (Some i)
  from shard_inv_node [OF assms this] obtain n where "node_at s i = Some n" "n_key n = k" "size_ok n"
    "i < length (s_nodes s)" "s_nodes s ! i = Some n"
    "map_of (shard_abs s) k = Some (n_value n, n_expires_at n)" by metis
  with Some that(2) show thesis by simp
qed

section \<open>The sections of the trait's operations\<close>

lemma get_section_refines: "refines_section (get_section now k) (abs_get now k)"
proof (rule refines_sectionI)
  fix s used r es
  assume inv: "shard_inv s" and abs: "abs_get now k (shard_abs s) = Some (r, es)"
  from inv show "\<exists>t. get_section now k s used =
      Some (r, t, used + total_bytes es - total_bytes (shard_abs s)) \<and> shard_inv t \<and> shard_abs t = es"
  proof (cases rule: section_cases [where k = k])
    case absent
    with abs inv show ?thesis by (auto simp: get_section_def abs_get_def)
  next
    case (present i n)
    show ?thesis
    proof (cases "is_expired n now")
      case True
      with abs present reclaim_refines [OF inv present(1), of used] show ?thesis
        by (auto simp: get_section_def abs_get_def is_expired_at)
    next
      case False
      with abs present have *: "r = Inr (Some (n_value n))" "es = move_to_back k (shard_abs s)"
        by (auto simp: abs_get_def is_expired_at)
      from touch_refines [OF inv present(1)] obtain t where
        "touch s i = Some t" "shard_inv t" "shard_abs t = es" using * by blast
      with False present show ?thesis by (simp add: get_section_def *)
    qed
  qed
qed (simp add: abs_get_def)

lemma delete_section_refines: "refines_section (delete_section now k) (abs_delete now k)"
proof (rule refines_sectionI)
  fix s used r es
  assume inv: "shard_inv s" and abs: "abs_delete now k (shard_abs s) = Some (r, es)"
  from inv show "\<exists>t. delete_section now k s used =
      Some (r, t, used + total_bytes es - total_bytes (shard_abs s)) \<and> shard_inv t \<and> shard_abs t = es"
  proof (cases rule: section_cases [where k = k])
    case absent
    with abs inv show ?thesis by (auto simp: delete_section_def abs_delete_def)
  next
    case (present i n)
    with abs inv show ?thesis
      using reclaim_refines [OF inv present(1), of used]
      by (auto simp: delete_section_def abs_delete_def is_expired_at)
  qed
qed (simp add: abs_delete_def)

lemma ttl_section_refines: "refines_section (ttl_section now k) (abs_ttl now k)"
proof (rule refines_sectionI)
  fix s used r es
  assume inv: "shard_inv s" and abs: "abs_ttl now k (shard_abs s) = Some (r, es)"
  from inv show "\<exists>t. ttl_section now k s used =
      Some (r, t, used + total_bytes es - total_bytes (shard_abs s)) \<and> shard_inv t \<and> shard_abs t = es"
  proof (cases rule: section_cases [where k = k])
    case absent
    with abs inv show ?thesis by (auto simp: ttl_section_def abs_ttl_def)
  next
    case (present i n)
    with abs inv show ?thesis
      using reclaim_refines [OF inv present(1), of used]
      by (cases "n_expires_at n") (auto simp: ttl_section_def abs_ttl_def is_expired_at split: if_splits)
  qed
qed (simp add: abs_ttl_def)

lemma total_bytes_put_entry:
  assumes "distinct (map fst es)" and "map_of es k = Some (v, d)"
  shows "total_bytes (put_entry k (v, d') es) = total_bytes es"
  using assms
proof (induction es)
  case (Cons e es)
  then show ?case
    using put_entry_absent [of k es "(v, d')"]
    by (cases e) (auto simp: put_entry_def entry_bytes_def split: if_splits)
qed simp

lemma expire_section_refines: "refines_section (expire_section now k dur) (abs_expire now k dur)"
proof (rule refines_sectionI)
  fix s used
  assume inv: "shard_inv s" and abs: "abs_expire now k dur (shard_abs s) = None"
  from inv show "expire_section now k dur s used = None"
  proof (cases rule: section_cases [where k = k])
    case absent
    with abs show ?thesis by (simp add: abs_expire_def)
  next
    case (present i n)
    with abs show ?thesis by (auto simp: expire_section_def abs_expire_def is_expired_at split: if_splits)
  qed
next
  fix s used r es
  assume inv: "shard_inv s" and abs: "abs_expire now k dur (shard_abs s) = Some (r, es)"
  from inv show "\<exists>t. expire_section now k dur s used =
      Some (r, t, used + total_bytes es - total_bytes (shard_abs s)) \<and> shard_inv t \<and> shard_abs t = es"
  proof (cases rule: section_cases [where k = k])
    case absent
    with abs inv show ?thesis by (auto simp: expire_section_def abs_expire_def)
  next
    case (present i n)
    show ?thesis
    proof (cases "is_expired n now")
      case True
      with present abs reclaim_refines [OF inv present(1), of used] show ?thesis
        by (auto simp: expire_section_def abs_expire_def is_expired_at)
    next
      case False
      with abs present obtain t where t: "instant_add now dur = Some t"
          "r = Inr ()" "es = put_entry k (n_value n, Some t) (shard_abs s)"
        by (auto simp: abs_expire_def is_expired_at)
      have "size_ok (n\<lparr>n_expires_at := Some t\<rparr>)"
        using present(5) by (simp add: size_ok_def entry_bytes_def entry_of_def)
      then obtain u where "with_node s i (\<lambda>n. n\<lparr>n_expires_at := Some t\<rparr>) = Some u" "shard_inv u"
          "shard_abs u = es"
        using update_node_refines [OF inv present(1,2), of "\<lambda>n. n\<lparr>n_expires_at := Some t\<rparr>"] t by auto
      moreover have "total_bytes es = total_bytes (shard_abs s)"
        using total_bytes_put_entry [OF shard_inv_keys_distinct [OF inv] present(6)] t by simp
      ultimately show ?thesis
        using False present t by (simp add: expire_section_def)
    qed
  qed
qed

lemma set_purge_refines:
  assumes "shard_inv s"
  shows "\<exists>t. set_purge now k s used =
      Some ((), t, used + total_bytes (shard_abs t) - total_bytes (shard_abs s)) \<and> shard_inv t \<and>
    (shard_abs t = shard_abs s \<or> shard_abs t = drop_key k (shard_abs s))"
  using assms
proof (cases rule: section_cases [where k = k])
  case absent
  with assms show ?thesis by (simp add: set_purge_def)
next
  case (present i n)
  obtain t where t: "reclaim i s used =
      Some (True, t, used + total_bytes (drop_key k (shard_abs s)) - total_bytes (shard_abs s))"
    "shard_inv t" "shard_abs t = drop_key k (shard_abs s)"
    using reclaim_refines [OF assms present(1), of used] by blast
  show ?thesis
  proof (cases "is_expired n now")
    case True
    with present t show ?thesis by (simp add: set_purge_def)
  next
    case False
    with present assms show ?thesis by (simp add: set_purge_def)
  qed
qed

lemma set_write_refines:
  assumes "shard_inv s" and "sz = entry_size (of_nat (length k)) (of_nat (length v))"
  shows "\<exists>t. set_write k v sz s used =
      Some ((), t, used + total_bytes (shard_abs t) - total_bytes (shard_abs s)) \<and> shard_inv t \<and>
    shard_abs t = drop_key k (shard_abs s) @ [(k, v, None)]"
  using assms(1)
proof (cases rule: section_cases [where k = k])
  case absent
  then have "k \<notin> fst ` set (shard_abs s)" by (simp add: map_of_eq_None_iff)
  then have "drop_key k (shard_abs s) = shard_abs s" by (rule drop_key_absent)
  moreover from insert_new_refines [OF assms(1) absent(1) assms(2)] obtain i t where
    "insert_new s k v sz = Some (i, t)" "shard_inv t" "shard_abs t = shard_abs s @ [(k, v, None)]"
    by blast
  ultimately show ?thesis
    using absent(1) assms(2) by (simp add: set_write_def entry_bytes_def)
next
  case (present i n)
  let ?f = "\<lambda>n. n\<lparr>n_value := v, n_size := sz, n_expires_at := None\<rparr>"
  have "size_ok (?f n)"
    using present(4) assms(2) by (simp add: size_ok_def entry_bytes_def entry_of_def)
  then obtain t where t: "with_node s i ?f = Some t" "shard_inv t" "s_map t = s_map s"
      "shard_abs t = put_entry k (v, None) (shard_abs s)"
    using update_node_refines [OF assms(1) present(1,2), of ?f] by auto
  obtain u where u: "touch t i = Some u" "shard_inv u" "shard_abs u = move_to_back k (shard_abs t)"
    using touch_refines [OF t(2), of k i] t(3) present(1) by auto
  have dist: "distinct (map fst (shard_abs s))" using shard_inv_keys_distinct [OF assms(1)] .
  have "k \<in> fst ` set (shard_abs s)"
    using present(6) by (metis map_of_eq_None_iff option.distinct(1))
  then have abs: "shard_abs u = drop_key k (shard_abs s) @ [(k, v, None)]"
    using move_put_entry [OF dist] u(3) t(4) by simp
  have "n_size n = entry_bytes (k, n_value n, n_expires_at n)"
    using present(4,5) by (simp add: size_ok_def entry_of_def)
  then have "total_bytes (shard_abs u) - total_bytes (shard_abs s) = sz - n_size n"
    using total_bytes_drop_key [OF dist present(6)] abs assms(2) by (simp add: entry_bytes_def)
  then have "used + total_bytes (shard_abs u) - total_bytes (shard_abs s) = used + (sz - n_size n)"
    by (metis add_diff_eq)
  then have "set_write k v sz s used =
      Some ((), u, used + total_bytes (shard_abs u) - total_bytes (shard_abs s))"
    using t(1) u(1) present(1,3) by (simp add: set_write_def Let_def)
  with u(2) abs show ?thesis by blast
qed

lemma set_section_refines: "refines_section (set_section now k v) (abs_set k v)"
proof (rule refines_sectionI)
  fix s used r es
  assume inv: "shard_inv s" and abs: "abs_set k v (shard_abs s) = Some (r, es)"
  obtain t where t: "set_purge now k s used =
      Some ((), t, used + total_bytes (shard_abs t) - total_bytes (shard_abs s))" "shard_inv t"
    "shard_abs t = shard_abs s \<or> shard_abs t = drop_key k (shard_abs s)"
    using set_purge_refines [OF inv] by blast
  let ?used = "used + total_bytes (shard_abs t) - total_bytes (shard_abs s)"
  obtain u where u: "set_write k v (entry_size (of_nat (length k)) (of_nat (length v))) t ?used =
      Some ((), u, ?used + total_bytes (shard_abs u) - total_bytes (shard_abs t))" "shard_inv u"
    "shard_abs u = drop_key k (shard_abs t) @ [(k, v, None)]"
    using set_write_refines [OF t(2) refl, of k v ?used] by blast
  have "drop_key k (shard_abs t) = drop_key k (shard_abs s)"
    using t(3) by (auto simp: drop_key_def)
  then have "es = shard_abs u" using u(3) abs by (simp add: abs_set_def)
  with t(1) u(1,2) show "\<exists>t. set_section now k v s used =
      Some (r, t, used + total_bytes es - total_bytes (shard_abs s)) \<and> shard_inv t \<and> shard_abs t = es"
    by (simp add: set_section_def)
qed (simp add: abs_set_def)

section \<open>The section of the sweep\<close>

text \<open>
  What \<^verbatim>\<open>HashMap::values\<close> documents: the values are visited in some order, once for each key.
\<close>

definition visits_values :: "((bytes \<rightharpoonup> nat) \<Rightarrow> nat list) \<Rightarrow> bool" where
  "visits_values vals \<longleftrightarrow>
     (\<forall>m. finite (dom m) \<longrightarrow>
        (\<exists>ks. distinct ks \<and> set ks = dom m \<and> vals m = map (\<lambda>k. the (m k)) ks))"

lemma shard_inv_dom: "shard_inv s \<Longrightarrow> dom (s_map s) = fst ` set (shard_abs s)"
  using shard_inv_absent by (auto simp: dom_def)

lemma remove_all_refines:
  assumes "shard_inv s" and "distinct ks" and "\<And>k. k \<in> set ks \<Longrightarrow> s_map s k = Some (f k)"
  shows "\<exists>t. remove_all (map f ks) n s used =
      Some (n + of_nat (length ks), t, used + total_bytes (shard_abs t) - total_bytes (shard_abs s)) \<and>
    shard_inv t \<and> shard_abs t = filter (\<lambda>e. fst e \<notin> set ks) (shard_abs s)"
  using assms
proof (induction ks arbitrary: s used n)
  case (Cons k ks)
  obtain t where t: "reclaim (f k) s used =
      Some (True, t, used + total_bytes (shard_abs t) - total_bytes (shard_abs s))" "shard_inv t"
    "shard_abs t = drop_key k (shard_abs s)" "s_map t = (s_map s)(k := None)"
    using reclaim_refines [OF Cons.prems(1) Cons.prems(3), of k used] by force
  have "s_map t q = Some (f q)" if "q \<in> set ks" for q
    using Cons.prems(2,3) that t(4) by auto
  with Cons.IH [OF t(2), of "n + 1" "used + total_bytes (shard_abs t) - total_bytes (shard_abs s)"] Cons.prems(2)
  obtain u where u: "remove_all (map f ks) (n + 1) t (used + total_bytes (shard_abs t) - total_bytes (shard_abs s)) =
      Some (n + 1 + of_nat (length ks), u,
        used + total_bytes (shard_abs t) - total_bytes (shard_abs s) + total_bytes (shard_abs u) - total_bytes (shard_abs t))"
    "shard_inv u" "shard_abs u = filter (\<lambda>e. fst e \<notin> set ks) (shard_abs t)"
    by auto
  have "shard_abs u = filter (\<lambda>e. fst e \<notin> set (k # ks)) (shard_abs s)"
    unfolding u(3) t(3) drop_key_def by (simp add: filter_filter conj_commute)
  with t(1) u(1,2) show ?case by (simp add: algebra_simps)
qed simp

lemma collect_expired_map:
  "(\<And>i. i \<in> set is \<Longrightarrow> node_at s i \<noteq> None) \<Longrightarrow>
    collect_expired now s is = Some (filter (\<lambda>i. is_expired (the (node_at s i)) now) is)"
proof (induction "is")
  case (Cons i "is")
  then obtain n where "node_at s i = Some n" by fastforce
  with Cons node_at_bound [OF this] show ?case by (auto simp: node_at_nth)
qed simp

lemma filter_map_of:
  assumes "distinct (map fst es)"
  shows "filter (\<lambda>e. fst e \<notin> {k. \<exists>d. map_of es k = Some d \<and> P d}) es = filter (\<lambda>e. \<not> P (snd e)) es"
proof (rule filter_cong [OF refl])
  fix e assume "e \<in> set es"
  then have "map_of es (fst e) = Some (snd e)" using assms by simp
  then show "(fst e \<notin> {k. \<exists>d. map_of es k = Some d \<and> P d}) = (\<not> P (snd e))" by simp
qed

lemma length_filter_map_of:
  assumes "distinct (map fst es)" and "distinct ks"
    and "set ks = {k. \<exists>d. map_of es k = Some d \<and> P d}"
  shows "length ks = length (filter (\<lambda>e. P (snd e)) es)"
proof -
  have "set ks = fst ` set (filter (\<lambda>e. P (snd e)) es)"
    using assms(1,3) by (force simp: image_iff)
  moreover have "distinct (map fst (filter (\<lambda>e. P (snd e)) es))"
    using assms(1) by (rule distinct_map_filter)
  ultimately show ?thesis
    using assms(2) by (metis distinct_card length_map set_map)
qed

lemma purge_section_refines:
  assumes "visits_values vals"
  shows "refines_section (purge_section vals now n) (abs_purge now n)"
proof (rule refines_sectionI)
  fix s used r es
  assume inv: "shard_inv s" and abs: "abs_purge now n (shard_abs s) = Some (r, es)"
  let ?P = "\<lambda>d :: bytes \<times> instant option. expired_at (snd d) now" and ?f = "\<lambda>k. the (s_map s k)"
  have dist: "distinct (map fst (shard_abs s))" using shard_inv_keys_distinct [OF inv] .
  have "finite (dom (s_map s))" using shard_inv_dom [OF inv] by simp
  then obtain ks where ks: "distinct ks" "set ks = dom (s_map s)" "vals (s_map s) = map ?f ks"
    using assms unfolding visits_values_def by blast
  define xs where "xs = filter (\<lambda>k. is_expired (the (node_at s (?f k))) now) ks"
  have node: "\<exists>m. s_map s k = Some (?f k) \<and> node_at s (?f k) = Some m \<and>
      map_of (shard_abs s) k = Some (n_value m, n_expires_at m)" if k: "k \<in> set ks" for k
  proof -
    from k ks(2) obtain i where i: "s_map s k = Some i" by blast
    from shard_inv_node [OF inv i] show ?thesis using i by (metis option.sel)
  qed
  then have "collect_expired now s (vals (s_map s)) = Some (map ?f xs)"
    using collect_expired_map [of "map ?f ks" s now] by (fastforce simp: ks(3) xs_def filter_map comp_def)
  moreover have "distinct xs" "\<And>k. k \<in> set xs \<Longrightarrow> s_map s k = Some (?f k)"
    using ks(1) node by (auto simp: xs_def)
  from remove_all_refines [OF inv this, of n used] obtain t where t: "remove_all (map ?f xs) n s used =
      Some (n + of_nat (length xs), t, used + total_bytes (shard_abs t) - total_bytes (shard_abs s))"
    "shard_inv t" "shard_abs t = filter (\<lambda>e. fst e \<notin> set xs) (shard_abs s)" by blast
  have set_xs: "set xs = {k. \<exists>d. map_of (shard_abs s) k = Some d \<and> ?P d}"
  proof -
    have "k \<in> set ks \<longleftrightarrow> map_of (shard_abs s) k \<noteq> None" for k
      by (simp add: ks(2) shard_inv_dom [OF inv] map_of_eq_None_iff)
    with node show ?thesis by (fastforce simp: xs_def is_expired_at)
  qed
  have "shard_abs t = es"
    using abs filter_map_of [OF dist, of ?P]
    by (simp add: t(3) set_xs abs_purge_def split_def)
  moreover have "r = n + of_nat (length xs)"
    using abs length_filter_map_of [OF dist \<open>distinct xs\<close> set_xs]
    by (simp add: abs_purge_def split_def)
  ultimately show "\<exists>t. purge_section vals now n s used =
      Some (r, t, used + total_bytes es - total_bytes (shard_abs s)) \<and> shard_inv t \<and> shard_abs t = es"
    using t by (auto simp: purge_section_def)
qed (simp add: abs_purge_def)

end
