(* ===== verification/Engine_Inv.thy ===== *)
theory Engine_Inv
  imports Engine_Sections "HOL-Library.Sublist"
begin

text \<open>
  The invariant of the engine and the effect of its operations on the map from keys to values that
  it stores. The invariant ties the shard mask to a power-of-two number of shards, puts every key in
  the shard its hash selects, and makes the byte counter the exact sum of the entry sizes (modulo
  the width of \<^verbatim>\<open>usize\<close>).
\<close>

unbundle bit_operations_syntax

section \<open>Invariant and view\<close>

definition abs_shards :: "memory_engine \<Rightarrow> entry list list" where
  "abs_shards e = map shard_abs (e_shards e)"

definition key_slot :: "memory_engine \<Rightarrow> bytes \<Rightarrow> nat" where
  "key_slot e k = unat (shard_index e k)"

definition engine_bytes :: "memory_engine \<Rightarrow> usize" where
  "engine_bytes e = sum_list (map total_bytes (abs_shards e))"

definition engine_inv :: "memory_engine \<Rightarrow> bool" where
  "engine_inv e \<longleftrightarrow>
     (\<exists>n<64. length (e_shards e) = 2 ^ n \<and> e_shard_mask e = mask n) \<and>
     (\<forall>s\<in>set (e_shards e). shard_inv s) \<and>
     (\<forall>i<length (e_shards e). \<forall>k\<in>fst ` set (abs_shards e ! i). key_slot e k = i) \<and>
     e_used_bytes e = engine_bytes e"

type_synonym kv_view = "bytes \<rightharpoonup> bytes \<times> instant option"

definition view :: "memory_engine \<Rightarrow> kv_view" where
  "view e k = map_of (abs_shards e ! key_slot e k) k"

definition same_config :: "memory_engine \<Rightarrow> memory_engine \<Rightarrow> bool" where
  "same_config e e' \<longleftrightarrow>
     e_shard_mask e' = e_shard_mask e \<and> e_hash_state e' = e_hash_state e \<and>
     e_max_bytes e' = e_max_bytes e \<and> length (e_shards e') = length (e_shards e)"

lemma length_abs_shards [simp]: "length (abs_shards e) = length (e_shards e)"
  by (simp add: abs_shards_def)

lemma same_config_trans: "same_config e f \<Longrightarrow> same_config f g \<Longrightarrow> same_config e g"
  by (simp add: same_config_def)

lemma same_config_refl [simp]: "same_config e e"
  by (simp add: same_config_def)

lemma same_config_slot: "same_config e e' \<Longrightarrow> key_slot e' = key_slot e"
  by (simp add: same_config_def key_slot_def shard_index_def fun_eq_iff)

lemma unat_and_mask: "n < 64 \<Longrightarrow> unat (w AND mask n) = unat w mod 2 ^ n" for w :: usize
  unfolding take_bit_eq_mask [symmetric] unsigned_take_bit_eq by (simp add: take_bit_eq_mod)

lemma masked_bound: "engine_inv e \<Longrightarrow> unat (w AND e_shard_mask e) < length (e_shards e)"
  by (auto simp: engine_inv_def unat_and_mask)

lemma key_slot_bound: "engine_inv e \<Longrightarrow> key_slot e k < length (e_shards e)"
  unfolding key_slot_def shard_index_def by (rule masked_bound)

lemma engine_shard_inv: "engine_inv e \<Longrightarrow> i < length (e_shards e) \<Longrightarrow> shard_inv (e_shards e ! i)"
  by (auto simp: engine_inv_def)

lemma abs_shards_nth [simp]: "i < length (e_shards e) \<Longrightarrow> abs_shards e ! i = shard_abs (e_shards e ! i)"
  by (simp add: abs_shards_def)

lemma engine_inv_route:
  "engine_inv e \<Longrightarrow> i < length (e_shards e) \<Longrightarrow> k \<in> fst ` set (abs_shards e ! i) \<Longrightarrow> key_slot e k = i"
  unfolding engine_inv_def by blast

lemma abs_shards_distinct:
  "engine_inv e \<Longrightarrow> i < length (e_shards e) \<Longrightarrow> distinct (map fst (abs_shards e ! i))"
  using shard_inv_keys_distinct engine_shard_inv by simp

text \<open>An engine that differs from an invariant one in one well-formed shard.\<close>

lemma engine_inv_update:
  assumes "engine_inv e" and "i < length (e_shards e)" and "shard_inv t"
    and "\<And>k. k \<in> fst ` set (shard_abs t) \<Longrightarrow> key_slot e k = i"
    and "used = e_used_bytes e + total_bytes (shard_abs t) - total_bytes (abs_shards e ! i)"
  defines "e' \<equiv> e\<lparr>e_shards := (e_shards e)[i := t], e_used_bytes := used\<rparr>"
  shows "engine_inv e' \<and> same_config e e' \<and> abs_shards e' = (abs_shards e)[i := shard_abs t]"
proof -
  have cfg: "same_config e e'" by (simp add: same_config_def e'_def)
  have abs: "abs_shards e' = (abs_shards e)[i := shard_abs t]"
    by (simp add: abs_shards_def e'_def map_update)
  have "engine_bytes e' = engine_bytes e - total_bytes (abs_shards e ! i) + total_bytes (shard_abs t)"
    using assms(2) unfolding engine_bytes_def abs
    by (simp add: map_update sum_list_update_group del: abs_shards_nth)
  then have "e_used_bytes e' = engine_bytes e'"
    using assms(1,5) by (simp add: e'_def engine_inv_def)
  moreover have "\<forall>s\<in>set (e_shards e'). shard_inv s"
    using assms(1,3) set_update_subset_insert [of "e_shards e" i t] by (auto simp: e'_def engine_inv_def)
  moreover have "\<forall>j<length (e_shards e'). \<forall>k\<in>fst ` set (abs_shards e' ! j). key_slot e' k = j"
  proof (intro allI impI ballI)
    fix j k assume "j < length (e_shards e')" "k \<in> fst ` set (abs_shards e' ! j)"
    then have "key_slot e k = j"
      using assms(1,2,4) abs cfg by (cases "j = i") (auto simp: engine_inv_def same_config_def)
    then show "key_slot e' k = j" by (simp add: same_config_slot [OF cfg])
  qed
  moreover have "\<exists>n<64. length (e_shards e') = 2 ^ n \<and> e_shard_mask e' = mask n"
    using assms(1) by (simp add: e'_def engine_inv_def)
  ultimately show ?thesis using cfg abs by (simp add: engine_inv_def)
qed

section \<open>Operations under a lock\<close>

text \<open>An abstract operation that concerns one key only.\<close>

definition local_op :: "bytes \<Rightarrow> 'r entries_op \<Rightarrow> bool" where
  "local_op k f \<longleftrightarrow>
     (\<forall>es r es'. distinct (map fst es) \<longrightarrow> f es = Some (r, es') \<longrightarrow>
        fst ` set es' \<subseteq> insert k (fst ` set es) \<and> (\<forall>q. q \<noteq> k \<longrightarrow> map_of es' q = map_of es q))"

lemma under_lock_refines:
  assumes "engine_inv e" and "refines_section sec f" and "local_op k f"
    and "f (abs_shards e ! key_slot e k) = Some (r, es')"
  shows "\<exists>e'. under_lock e k sec = Some (r, e') \<and> engine_inv e' \<and> same_config e e' \<and>
    abs_shards e' = (abs_shards e)[key_slot e k := es'] \<and> view e' = (view e)(k := map_of es' k)"
proof -
  let ?i = "key_slot e k"
  have i: "?i < length (e_shards e)" using key_slot_bound [OF assms(1)] .
  obtain t where t: "sec (e_shards e ! ?i) (e_used_bytes e) =
      Some (r, t, e_used_bytes e + total_bytes es' - total_bytes (shard_abs (e_shards e ! ?i)))"
    "shard_inv t" "shard_abs t = es'"
    using refines_sectionD [OF assms(2) engine_shard_inv [OF assms(1) i]] assms(4) i by (metis abs_shards_nth)
  define e' where "e' = e\<lparr>e_shards := (e_shards e)[?i := t],
    e_used_bytes := e_used_bytes e + total_bytes es' - total_bytes (shard_abs (e_shards e ! ?i))\<rparr>"
  have run: "under_lock e k sec = Some (r, e')"
    using i t(1) by (simp add: under_lock_def shard_for_def e'_def key_slot_def)
  have loc: "fst ` set es' \<subseteq> insert k (fst ` set (abs_shards e ! ?i))"
    "\<And>q. q \<noteq> k \<Longrightarrow> map_of es' q = map_of (abs_shards e ! ?i) q"
    using assms(3) [unfolded local_op_def] abs_shards_distinct [OF assms(1) i] assms(4) by blast+
  have "\<And>q. q \<in> fst ` set (shard_abs t) \<Longrightarrow> key_slot e q = ?i"
    using loc(1) assms(1) i t(3) unfolding engine_inv_def by blast
  from engine_inv_update [OF assms(1) i t(2) this]
  have inv: "engine_inv e'" and cfg: "same_config e e'" and abs: "abs_shards e' = (abs_shards e)[?i := es']"
    using t(3) i by (simp_all add: e'_def)
  have "view e' q = ((view e)(k := map_of es' k)) q" for q
    using loc(2) [of q] i by (cases "key_slot e q = ?i") (auto simp: view_def abs same_config_slot [OF cfg])
  with run inv cfg abs show ?thesis by blast
qed

lemma under_lock_None:
  assumes "engine_inv e" and "refines_section sec f" and "f (abs_shards e ! key_slot e k) = None"
  shows "under_lock e k sec = None"
  using refines_section_None [OF assms(2) engine_shard_inv [OF assms(1) key_slot_bound [OF assms(1), of k]]]
    assms(3) key_slot_bound [OF assms(1), of k]
  by (simp add: under_lock_def shard_for_def key_slot_def)

lemma map_of_drop_key [simp]: "map_of (drop_key k es) q = (if q = k then None else map_of es q)"
  by (induction es) (auto simp: drop_key_def)

lemma put_entry_simps [simp]:
  "put_entry k d [] = []"
  "put_entry k d (e # es) = (if fst e = k then (k, d) else e) # put_entry k d es"
  by (simp_all add: put_entry_def)

lemma map_of_put_entry:
  "map_of (put_entry k d es) q = (if q = k \<and> k \<in> fst ` set es then Some d else map_of es q)"
proof (induction es)
  case (Cons e es)
  then show ?case by (cases "fst e = k"; cases "q = k"; cases "k \<in> fst ` set es") simp_all
qed simp

lemma keys_put_entry [simp]: "fst ` set (put_entry k d es) = fst ` set es"
  by (induction es) auto

lemma map_of_filter_key: "map_of (filter (\<lambda>e. fst e = k) es) q = (if q = k then map_of es q else None)"
  by (induction es) auto

lemma map_of_move_to_back [simp]: "map_of (move_to_back k es) q = map_of es q"
  using map_of_drop_key [of k es q]
  by (simp add: move_to_back_def drop_key_def map_add_def map_of_filter_key split: option.splits)

lemma keys_move_to_back [simp]: "fst ` set (move_to_back k es) = fst ` set es"
  by (auto simp: move_to_back_def)

lemma local_expire: "local_op k (abs_expire now k dur)"
  unfolding local_op_def
proof (intro allI impI)
  fix es r es'
  assume "abs_expire now k dur es = Some (r, es')"
  then consider "es' = es" | "es' = drop_key k es" | d where "es' = put_entry k d es"
    by (auto simp: abs_expire_def split: option.splits if_splits)
  then show "fst ` set es' \<subseteq> insert k (fst ` set es) \<and> (\<forall>q. q \<noteq> k \<longrightarrow> map_of es' q = map_of es q)"
    by cases (simp_all add: map_of_put_entry subset_insertI, blast)
qed

lemma local_ops [simp, intro]:
  "local_op k (abs_get now k)" "local_op k (abs_set k v)" "local_op k (abs_delete now k)"
  "local_op k (abs_ttl now k)"
  by (auto simp: local_op_def abs_get_def abs_set_def abs_delete_def abs_ttl_def
      map_add_def image_Un split: option.splits if_splits)

end
