(* ===== verification/Engine_Evict.thy ===== *)
theory Engine_Evict
  imports Engine_Inv
begin

text \<open>
  Eviction, the write path, the sweep and the constructors. Eviction always ends, ends within the
  byte budget, and takes from every shard a prefix of its least-recently-used order, so that the
  survivors are the most recently used entries of each shard.
\<close>

unbundle bit_operations_syntax

section \<open>Eviction\<close>

definition trimmed :: "memory_engine \<Rightarrow> memory_engine \<Rightarrow> bool" where
  "trimmed e e' \<longleftrightarrow> engine_inv e' \<and> same_config e e' \<and> list_all2 suffix (abs_shards e') (abs_shards e)"

lemma trimmed_refl: "engine_inv e \<Longrightarrow> trimmed e e"
  by (simp add: trimmed_def list_all2_refl)

lemma trimmed_trans: "trimmed e f \<Longrightarrow> trimmed f g \<Longrightarrow> trimmed e g"
  unfolding trimmed_def
  using list_all2_trans [of suffix suffix suffix, OF suffix_order.trans]
  by (auto intro: same_config_trans)

lemma trimmed_cursor:
  "trimmed (e\<lparr>e_eviction_cursor := c\<rparr>) e' = trimmed e e'"
  "engine_inv (e\<lparr>e_eviction_cursor := c\<rparr>) = engine_inv e"
  by (simp_all add: trimmed_def same_config_def abs_shards_def engine_inv_def engine_bytes_def
      key_slot_def shard_index_def)

lemma suffix_update:
  assumes "i < length xss" and "xss ! i = x # xs"
  shows "list_all2 suffix (xss[i := xs]) xss"
  using assms by (simp add: list_all2_conv_all_nth nth_list_update suffix_ConsI)

text \<open>One eviction: the oldest entry of one shard goes.\<close>

definition drops_oldest :: "memory_engine \<Rightarrow> memory_engine \<Rightarrow> bool" where
  "drops_oldest e e' \<longleftrightarrow> trimmed e e' \<and>
     (\<exists>i<length (e_shards e). \<exists>x es. abs_shards e ! i = x # es \<and> abs_shards e' = (abs_shards e)[i := es])"

definition evict_step :: "memory_engine \<Rightarrow> memory_engine \<Rightarrow> bool" where
  "evict_step e e' \<longleftrightarrow> e_max_bytes e < e_used_bytes e \<and> drops_oldest e e'"

lemma evict_one_refines:
  assumes "engine_inv e" and "unat idx < length (e_shards e)"
  shows "case abs_shards e ! unat idx of
      [] \<Rightarrow> evict_one_from_shard e idx = Some (None, e)
    | x # es \<Rightarrow> \<exists>e'. evict_one_from_shard e idx = Some (Some (entry_bytes x), e') \<and>
        drops_oldest e (e'\<lparr>e_used_bytes := e_used_bytes e' - entry_bytes x\<rparr>)"
proof (cases "abs_shards e ! unat idx")
  case Nil
  with pop_lru_refines [OF engine_shard_inv [OF assms]] assms(2) show ?thesis
    by (simp add: evict_one_from_shard_def)
next
  case (Cons x es)
  let ?i = "unat idx"
  from Cons pop_lru_refines [OF engine_shard_inv [OF assms]] assms(2) obtain t where t:
    "pop_lru (e_shards e ! ?i) = Some (Some (entry_bytes x), t)" "shard_inv t" "shard_abs t = es"
    by auto
  have "\<And>k. k \<in> fst ` set (shard_abs t) \<Longrightarrow> key_slot e k = ?i"
    using engine_inv_route [OF assms] Cons t(3) by simp
  from engine_inv_update [OF assms t(2) this refl] t(3) Cons assms(2)
  have "drops_oldest e (e\<lparr>e_shards := (e_shards e)[?i := t], e_used_bytes := e_used_bytes e - entry_bytes x\<rparr>)"
    unfolding drops_oldest_def using suffix_update [of ?i "abs_shards e" x es]
    by (intro conjI exI [of _ ?i] exI [of _ x] exI [of _ es]) (simp_all add: trimmed_def algebra_simps)
  with t(1) assms(2) Cons show ?thesis by (simp add: evict_one_from_shard_def)
qed

lemma evict_scan_refines:
  assumes "engine_inv e"
  shows "\<exists>b e'. evict_scan start offsets e = Some (b, e') \<and> (b \<longrightarrow> drops_oldest e e') \<and>
    (\<not> b \<longrightarrow> (\<forall>d\<in>set offsets. abs_shards e ! unat ((start + of_nat d) AND e_shard_mask e) = []))"
proof (induction offsets)
  case Nil
  show ?case by (auto intro: exI [of _ False])
next
  case (Cons d offsets)
  let ?idx = "(start + of_nat d) AND e_shard_mask e"
  have "unat ?idx < length (e_shards e)" using masked_bound [OF assms] .
  from evict_one_refines [OF assms this] Cons.IH show ?case
    by (cases "abs_shards e ! unat ?idx") auto
qed

text \<open>The offsets of one scan reach every shard, from any start and across the wrap of \<^verbatim>\<open>usize\<close>.\<close>

lemma unat_add_masked:
  "n < 64 \<Longrightarrow> unat ((start + of_nat d) AND mask n) = (unat start + d) mod 2 ^ n" for start :: usize
proof -
  assume n: "n < 64"
  have "(2 :: nat) ^ n dvd 2 ^ 64" using n by (intro le_imp_power_dvd) simp
  then show ?thesis
    using n by (simp add: unat_and_mask unat_word_ariths unat_of_nat mod_mod_cancel mod_add_right_eq)
qed

lemma scan_covers:
  fixes start :: usize
  assumes "n < 64" and "i < 2 ^ n"
  shows "\<exists>d<2 ^ n. unat ((start + of_nat d) AND mask n) = i"
proof -
  let ?N = "2 ^ n :: nat" and ?s = "unat start"
  let ?d = "(i + (?N - ?s mod ?N)) mod ?N"
  have "(?s + ?d) mod ?N = (?s + (i + (?N - ?s mod ?N))) mod ?N" by (simp add: mod_add_right_eq)
  also have "\<dots> = ((?s mod ?N) + (i + (?N - ?s mod ?N))) mod ?N" by (simp add: mod_add_left_eq)
  also have "(?s mod ?N) + (i + (?N - ?s mod ?N)) = i + ?N"
  proof -
    have "?s mod ?N \<le> ?N" by simp
    then show ?thesis by linarith
  qed
  finally have "(?s + ?d) mod ?N = i" using assms(2) by simp
  with assms(1) show ?thesis by (intro exI [of _ ?d]) (simp add: unat_add_masked)
qed

lemma total_bytes_empty: "\<forall>es\<in>set ess. es = [] \<Longrightarrow> sum_list (map total_bytes ess) = 0"
  by (induction ess) simp_all

lemma evict_scan_progress:
  assumes "engine_inv e" and "e_used_bytes e > e_max_bytes e"
  shows "\<exists>e'. evict_scan start [0..<length (e_shards e)] e = Some (True, e') \<and> drops_oldest e e'"
proof -
  obtain b e' where run: "evict_scan start [0..<length (e_shards e)] e = Some (b, e')" "b \<Longrightarrow> drops_oldest e e'"
    and empty: "\<not> b \<Longrightarrow> \<forall>d<length (e_shards e). abs_shards e ! unat ((start + of_nat d) AND e_shard_mask e) = []"
    using evict_scan_refines [OF assms(1), of start "[0..<length (e_shards e)]"] by auto
  have b
  proof (rule ccontr)
    assume "\<not> b"
    obtain n where n: "n < 64" "length (e_shards e) = 2 ^ n" "e_shard_mask e = mask n"
      using assms(1) by (auto simp: engine_inv_def)
    have "abs_shards e ! i = []" if "i < length (e_shards e)" for i
      using scan_covers [OF n(1), of i start] that empty [OF \<open>\<not> b\<close>] n(2,3) by metis
    then have "\<forall>es\<in>set (abs_shards e). es = []" by (metis in_set_conv_nth length_abs_shards)
    then have "engine_bytes e = 0" unfolding engine_bytes_def by (rule total_bytes_empty)
    with assms show False by (simp add: engine_inv_def)
  qed
  with run show ?thesis by simp
qed

lemma evict_step_cursor: "evict_step (e\<lparr>e_eviction_cursor := c\<rparr>) e' = evict_step e e'"
  by (simp add: evict_step_def drops_oldest_def trimmed_cursor abs_shards_def)

lemma evict_steps_trimmed: "evict_step\<^sup>*\<^sup>* e e' \<Longrightarrow> engine_inv e \<Longrightarrow> trimmed e e'"
proof (induction rule: rtranclp_induct)
  case (step f g)
  then have "trimmed e f" "trimmed f g" by (simp_all add: evict_step_def drops_oldest_def)
  then show ?case by (rule trimmed_trans)
qed (rule trimmed_refl)

lemma evict_loop_refines:
  "engine_inv e \<Longrightarrow> \<exists>e'. evict_loop e = Some e' \<and> evict_step\<^sup>*\<^sup>* e e' \<and> e_used_bytes e' \<le> e_max_bytes e"
proof (induction e rule: evict_loop.induct)
  case (1 e)
  show ?case
  proof (cases "e_used_bytes e \<le> e_max_bytes e")
    case True
    then show ?thesis by (simp add: evict_loop.simps)
  next
    case False
    define f where "f = e\<lparr>e_eviction_cursor := e_eviction_cursor e + 1\<rparr>"
    have f: "engine_inv f" "e_max_bytes f < e_used_bytes f" "e_shards f = e_shards e"
      using 1(2) False by (simp_all add: f_def trimmed_cursor)
    from evict_scan_progress [OF f(1,2)] obtain g where
      g: "evict_scan (e_eviction_cursor e) [0..<length (e_shards f)] f = Some (True, g)" "evict_step f g"
      using f(2) by (auto simp: evict_step_def)
    have eg: "evict_step e g" using g(2) by (simp add: f_def evict_step_cursor)
    then have "engine_inv g" "e_max_bytes g = e_max_bytes e"
      by (auto simp: evict_step_def drops_oldest_def trimmed_def same_config_def)
    with 1(1) [OF False refl f_def g(1) refl TrueI] obtain h where
      h: "evict_loop g = Some h" "evict_step\<^sup>*\<^sup>* g h" "e_used_bytes h \<le> e_max_bytes e"
      using f(3) by auto
    have "evict_loop e = Some h"
      using False g(1) h(1) f(3) by (subst evict_loop.simps) (simp add: f_def)
    with h converse_rtranclp_into_rtranclp [of evict_step, OF eg h(2)] show ?thesis by blast
  qed
qed

lemma evict_if_needed_refines:
  assumes "engine_inv e"
  shows "\<exists>e'. evict_if_needed e = Some e' \<and> evict_step\<^sup>*\<^sup>* e e' \<and> trimmed e e' \<and> e_used_bytes e' \<le> e_max_bytes e' \<and>
    (e_max_bytes e = - 1 \<longrightarrow> e' = e) \<and> (e_used_bytes e \<le> e_max_bytes e \<longrightarrow> e' = e)"
proof (cases "e_max_bytes e = - 1")
  case True
  with assms show ?thesis by (simp add: evict_if_needed_def trimmed_refl)
next
  case False
  from evict_loop_refines [OF assms] obtain e' where
    e': "evict_loop e = Some e'" "evict_step\<^sup>*\<^sup>* e e'" "e_used_bytes e' \<le> e_max_bytes e" by blast
  from evict_steps_trimmed [OF e'(2) assms] have "trimmed e e'" .
  moreover have "e' = e" if "e_used_bytes e \<le> e_max_bytes e"
    using e'(1) that by (simp add: evict_loop.simps [of e])
  ultimately show ?thesis
    using False e' by (simp add: evict_if_needed_def trimmed_def same_config_def)
qed

section \<open>Trimmed engines\<close>

lemma suffix_map_of:
  assumes "suffix es fs" and "distinct (map fst fs)"
  shows "map_of es \<subseteq>\<^sub>m map_of fs"
proof (rule map_leI)
  fix k d assume "map_of es k = Some d"
  then have "(k, d) \<in> set es" by (rule map_of_SomeD)
  then have "(k, d) \<in> set fs" using assms(1) by (auto simp: suffix_def)
  with assms(2) show "map_of fs k = Some d" by simp
qed

lemma trimmed_nth:
  "trimmed e e' \<Longrightarrow> i < length (e_shards e) \<Longrightarrow> suffix (abs_shards e' ! i) (abs_shards e ! i)"
  unfolding trimmed_def same_config_def by (metis length_abs_shards list_all2_nthD2)

lemma trimmed_view:
  assumes "engine_inv e" and "trimmed e e'"
  shows "view e' \<subseteq>\<^sub>m view e"
proof (rule map_leI)
  fix k d assume "view e' k = Some d"
  moreover have "key_slot e' = key_slot e" using assms(2) same_config_slot by (auto simp: trimmed_def)
  moreover have "map_of (abs_shards e' ! key_slot e k) \<subseteq>\<^sub>m map_of (abs_shards e ! key_slot e k)"
    using key_slot_bound [OF assms(1)]
    by (intro suffix_map_of trimmed_nth [OF assms(2)] abs_shards_distinct [OF assms(1)])
  ultimately show "view e k = Some d"
    unfolding view_def map_le_iff by metis
qed

end
