(* ===== verification/Engine_Laws.thy ===== *)
theory Engine_Laws
  imports Engine_Evict
begin

text \<open>
  What each operation of the engine answers and what it leaves behind, in terms of the map \<open>view\<close>
  from keys to values and deadlines. \<open>live_at now\<close> restricts a map to the entries that have not
  expired: an operation may drop expired entries, which no later reader can tell.
\<close>

unbundle bit_operations_syntax

section \<open>The live part of a view\<close>

definition live_at :: "instant \<Rightarrow> kv_view \<Rightarrow> kv_view" where
  "live_at now m k = (case m k of None \<Rightarrow> None
     | Some (v, d) \<Rightarrow> if expired_at d now then None else Some (v, d))"

lemma live_at_None [simp]: "m k = None \<Longrightarrow> live_at now m k = None"
  by (simp add: live_at_def)

lemma live_at_upd:
  "live_at t (m(k := None)) = (live_at t m)(k := None)"
  "live_at t (m(k \<mapsto> (v, d))) = (live_at t m)(k := if expired_at d t then None else Some (v, d))"
  by (auto simp: live_at_def)

lemma live_at_drop_expired:
  assumes "m k = Some (v, d)" and "expired_at d now" and "now \<le> t"
  shows "live_at t (m(k := None)) = live_at t m"
  using expired_at_mono [OF assms(2,3)] assms(1) by (auto simp: live_at_def)

lemma live_at_mono: "m \<subseteq>\<^sub>m n \<Longrightarrow> live_at t m \<subseteq>\<^sub>m live_at t n"
  by (auto simp: map_le_iff live_at_def split: option.splits if_splits)

lemma live_at_idem: "now \<le> t \<Longrightarrow> live_at t (live_at now m) = live_at t m"
  by (auto simp: live_at_def fun_eq_iff dest: expired_at_mono split: option.splits)

text \<open>Two views that no reader can tell apart from \<open>now\<close> on.\<close>

definition live_eq :: "instant \<Rightarrow> kv_view \<Rightarrow> kv_view \<Rightarrow> bool" where
  "live_eq now m n \<longleftrightarrow> (\<forall>t\<ge>now. live_at t m = live_at t n)"

lemma live_eq_refl [simp]: "live_eq now m m"
  by (simp add: live_eq_def)

lemma live_eq_now: "live_eq now m n \<Longrightarrow> live_at now m = live_at now n"
  by (simp add: live_eq_def)

lemma live_eq_trans: "live_eq now m n \<Longrightarrow> live_eq now n p \<Longrightarrow> live_eq now m p"
  by (simp add: live_eq_def)

lemma live_eq_later: "live_eq now m n \<Longrightarrow> now \<le> t \<Longrightarrow> live_eq t m n"
  by (auto simp: live_eq_def)

lemma live_eq_upd: "live_eq now m n \<Longrightarrow> live_eq now (m(k := x)) (n(k := x))"
  by (cases x) (auto simp: live_eq_def live_at_upd)

section \<open>The five operations\<close>

text \<open>What an operation finds under its key: nothing, an expired entry, or a live one.\<close>

lemma key_cases [case_names absent expired live]:
  obtains "view e k = None" "map_of (abs_shards e ! key_slot e k) k = None" "live_at now (view e) k = None"
  | v d where "view e k = Some (v, d)" "map_of (abs_shards e ! key_slot e k) k = Some (v, d)"
      "expired_at d now" "live_at now (view e) k = None"
  | v d where "view e k = Some (v, d)" "map_of (abs_shards e ! key_slot e k) k = Some (v, d)"
      "\<not> expired_at d now" "live_at now (view e) k = Some (v, d)"
proof (cases "view e k")
  case None
  with that(1) show thesis by (simp add: view_def)
next
  case (Some x)
  obtain v d where "x = (v, d)" by (cases x)
  with Some that(2,3) show thesis by (cases "expired_at d now") (auto simp: view_def live_at_def)
qed

lemma live_eq_expired:
  "m k = Some (v, d) \<Longrightarrow> expired_at d now \<Longrightarrow> live_eq now (m(k := None)) m"
  by (simp add: live_eq_def live_at_drop_expired)

lemma live_eq_same: "m k = x \<Longrightarrow> live_eq now (m(k := x)) m"
  by (simp add: fun_upd_idem)

lemma map_le_same: "m k = x \<Longrightarrow> m(k := x) \<subseteq>\<^sub>m m"
  by (simp add: fun_upd_idem)

lemma kv_get_law:
  assumes "engine_inv e"
  shows "\<exists>e'. kv_get e now k = Some (Inr (map_option fst (live_at now (view e) k)), e') \<and>
    engine_inv e' \<and> same_config e e' \<and> live_eq now (view e') (view e) \<and> view e' \<subseteq>\<^sub>m view e"
proof (cases rule: key_cases [of e k now])
  case absent
  then have "abs_get now k (abs_shards e ! key_slot e k) = Some (Inr None, abs_shards e ! key_slot e k)"
    by (simp add: abs_get_def)
  from under_lock_refines [OF assms get_section_refines local_ops(1) this] absent show ?thesis
    by (auto simp: kv_get_def live_eq_same)
next
  case (expired v d)
  then have "abs_get now k (abs_shards e ! key_slot e k) =
      Some (Inr None, drop_key k (abs_shards e ! key_slot e k))"
    by (simp add: abs_get_def)
  from under_lock_refines [OF assms get_section_refines local_ops(1) this] expired show ?thesis
    by (auto simp: kv_get_def live_eq_expired)
next
  case (live v d)
  then have "abs_get now k (abs_shards e ! key_slot e k) =
      Some (Inr (Some v), move_to_back k (abs_shards e ! key_slot e k))"
    by (simp add: abs_get_def)
  from under_lock_refines [OF assms get_section_refines local_ops(1) this] live show ?thesis
    by (auto simp: kv_get_def live_eq_same map_le_same)
qed

lemma drop_key_None: "map_of es k = None \<Longrightarrow> drop_key k es = es"
  by (simp add: drop_key_absent map_of_eq_None_iff)

lemma kv_delete_law:
  assumes "engine_inv e"
  shows "\<exists>e'. kv_delete e now k = Some (Inr (live_at now (view e) k \<noteq> None), e') \<and>
    engine_inv e' \<and> same_config e e' \<and> view e' = (view e)(k := None)"
proof -
  let ?es = "abs_shards e ! key_slot e k"
  have "abs_delete now k ?es = Some (Inr (live_at now (view e) k \<noteq> None), drop_key k ?es)"
    by (cases rule: key_cases [of e k now]) (simp_all add: abs_delete_def drop_key_None)
  from under_lock_refines [OF assms delete_section_refines local_ops(3) this] show ?thesis
    by (auto simp: kv_delete_def)
qed

lemma kv_ttl_law:
  assumes "engine_inv e"
  shows "\<exists>e'. kv_ttl e now k = Some (Inr (case live_at now (view e) k of
        None \<Rightarrow> Missing | Some (v, None) \<Rightarrow> NoExpiry | Some (v, Some t) \<Rightarrow> ExpiresIn (t - now)), e') \<and>
    engine_inv e' \<and> same_config e e' \<and> live_eq now (view e') (view e) \<and> view e' \<subseteq>\<^sub>m view e"
proof (cases rule: key_cases [of e k now])
  case absent
  then have "abs_ttl now k (abs_shards e ! key_slot e k) = Some (Inr Missing, abs_shards e ! key_slot e k)"
    by (simp add: abs_ttl_def)
  from under_lock_refines [OF assms ttl_section_refines local_ops(4) this] absent show ?thesis
    by (auto simp: kv_ttl_def live_eq_same)
next
  case (expired v d)
  then have "abs_ttl now k (abs_shards e ! key_slot e k) =
      Some (Inr Missing, drop_key k (abs_shards e ! key_slot e k))"
    by (simp add: abs_ttl_def)
  from under_lock_refines [OF assms ttl_section_refines local_ops(4) this] expired show ?thesis
    by (auto simp: kv_ttl_def live_eq_expired)
next
  case (live v d)
  then have "abs_ttl now k (abs_shards e ! key_slot e k) =
      Some (Inr (case d of None \<Rightarrow> NoExpiry | Some t \<Rightarrow> ExpiresIn (t - now)), abs_shards e ! key_slot e k)"
    by (simp add: abs_ttl_def)
  from under_lock_refines [OF assms ttl_section_refines local_ops(4) this] live show ?thesis
    by (auto simp: kv_ttl_def live_eq_same map_le_same)
qed

text \<open>
  \<open>expire\<close> answers \<open>NotFound\<close> for a key with no live entry; on a live one it sets the deadline, or
  panics when \<open>now + ttl\<close> is not an instant.
\<close>

lemma kv_expire_missing:
  assumes "engine_inv e" and "live_at now (view e) k = None"
  shows "\<exists>e'. kv_expire e now k dur = Some (Inl NotFound, e') \<and>
    engine_inv e' \<and> same_config e e' \<and> live_eq now (view e') (view e) \<and> view e' \<subseteq>\<^sub>m view e"
proof (cases rule: key_cases [of e k now])
  case absent
  then have "abs_expire now k dur (abs_shards e ! key_slot e k) =
      Some (Inl NotFound, abs_shards e ! key_slot e k)"
    by (simp add: abs_expire_def)
  from under_lock_refines [OF assms(1) expire_section_refines local_expire this] absent show ?thesis
    by (auto simp: kv_expire_def live_eq_same)
next
  case (expired v d)
  then have "abs_expire now k dur (abs_shards e ! key_slot e k) =
      Some (Inl NotFound, drop_key k (abs_shards e ! key_slot e k))"
    by (simp add: abs_expire_def)
  from under_lock_refines [OF assms(1) expire_section_refines local_expire this] expired show ?thesis
    by (auto simp: kv_expire_def live_eq_expired)
next
  case (live v d)
  with assms show ?thesis by simp
qed

lemma kv_expire_live:
  assumes "engine_inv e" and "live_at now (view e) k = Some (v, d)" and "instant_add now dur = Some t"
  shows "\<exists>e'. kv_expire e now k dur = Some (Inr (), e') \<and>
    engine_inv e' \<and> same_config e e' \<and> view e' = (view e)(k \<mapsto> (v, Some t))"
proof (cases rule: key_cases [of e k now])
  case (live v' d')
  with assms(2,3) have "abs_expire now k dur (abs_shards e ! key_slot e k) =
      Some (Inr (), put_entry k (v, Some t) (abs_shards e ! key_slot e k))"
    by (simp add: abs_expire_def)
  from under_lock_refines [OF assms(1) expire_section_refines local_expire this] live show ?thesis
    by (auto simp: kv_expire_def map_of_put_entry dest: map_of_SomeD)
      (metis domI dom_map_of_conv_image_fst)
qed (use assms in simp_all)

lemma kv_expire_panic:
  assumes "engine_inv e" and "live_at now (view e) k = Some (v, d)" and "instant_add now dur = None"
  shows "kv_expire e now k dur = None"
proof (cases rule: key_cases [of e k now])
  case (live v' d')
  with assms(2,3) have "abs_expire now k dur (abs_shards e ! key_slot e k) = None"
    by (simp add: abs_expire_def)
  from under_lock_None [OF assms(1) expire_section_refines this] show ?thesis
    by (simp add: kv_expire_def)
qed (use assms in simp_all)

text \<open>
  \<open>set\<close> stores the pair without a deadline and then evicts: every entry that is left is the new one
  or an old one, the budget is met, and the new entry goes only after everything else in its shard.
\<close>

lemma set_stored:
  assumes "engine_inv e"
  shows "\<exists>e'. under_lock e k (set_section now k v) = Some ((), e') \<and> engine_inv e' \<and> same_config e e' \<and>
    abs_shards e' = (abs_shards e)[key_slot e k := drop_key k (abs_shards e ! key_slot e k) @ [(k, v, None)]] \<and>
    view e' = (view e)(k \<mapsto> (v, None))"
proof -
  have "abs_set k v (abs_shards e ! key_slot e k) =
      Some ((), drop_key k (abs_shards e ! key_slot e k) @ [(k, v, None)])"
    by (simp add: abs_set_def)
  from under_lock_refines [OF assms set_section_refines local_ops(2) this] show ?thesis
    by (auto simp: map_add_def)
qed

lemma suffix_snoc: "suffix es (fs @ [x]) \<Longrightarrow> es = [] \<or> (\<exists>gs. es = gs @ [x])"
  by (cases es rule: rev_cases) (auto simp: suffix_def)

lemma kv_set_law:
  assumes "engine_inv e"
  shows "\<exists>e'. kv_set e now k v = Some (Inr (), e') \<and> engine_inv e' \<and> same_config e e' \<and>
    view e' \<subseteq>\<^sub>m (view e)(k \<mapsto> (v, None)) \<and> e_used_bytes e' \<le> e_max_bytes e \<and>
    (view e' k = Some (v, None) \<or> abs_shards e' ! key_slot e k = []) \<and>
    (e_max_bytes e = - 1 \<longrightarrow> view e' = (view e)(k \<mapsto> (v, None)))"
proof -
  obtain f where f: "under_lock e k (set_section now k v) = Some ((), f)" "engine_inv f" "same_config e f"
    "abs_shards f = (abs_shards e)[key_slot e k := drop_key k (abs_shards e ! key_slot e k) @ [(k, v, None)]]"
    "view f = (view e)(k \<mapsto> (v, None))"
    using set_stored [OF assms] by blast
  obtain e' where e': "evict_if_needed f = Some e'" "trimmed f e'" "e_used_bytes e' \<le> e_max_bytes e'"
    "e_max_bytes f = - 1 \<longrightarrow> e' = f"
    using evict_if_needed_refines [OF f(2)] by blast
  have inv': "engine_inv e'" and cfg: "same_config e e'" using e'(2) same_config_trans [OF f(3)] by (auto simp: trimmed_def)
  have slot: "key_slot e' = key_slot e" using same_config_slot [OF cfg] .
  have i: "key_slot e k < length (e_shards e)" "key_slot e k < length (e_shards f)"
    using key_slot_bound [OF assms] f(3) by (auto simp: same_config_def)
  have "suffix (abs_shards e' ! key_slot e k) (drop_key k (abs_shards e ! key_slot e k) @ [(k, v, None)])"
    using trimmed_nth [OF e'(2) i(2)] i(1) by (simp add: f(4))
  from suffix_snoc [OF this] have keep: "view e' k = Some (v, None) \<or> abs_shards e' ! key_slot e k = []"
  proof
    assume "\<exists>gs. abs_shards e' ! key_slot e k = gs @ [(k, v, None)]"
    moreover have "distinct (map fst (abs_shards e' ! key_slot e k))"
      using abs_shards_distinct [OF inv'] i(1) cfg by (simp add: same_config_def)
    ultimately show ?thesis by (auto simp: view_def slot map_add_def map_of_eq_None_iff split: option.splits)
  qed simp
  moreover have "view e' \<subseteq>\<^sub>m (view e)(k \<mapsto> (v, None))"
    using trimmed_view [OF f(2) e'(2)] f(5) by simp
  moreover have "e_max_bytes e = - 1 \<longrightarrow> view e' = (view e)(k \<mapsto> (v, None))"
    using e'(4) f(3,5) by (simp add: same_config_def)
  ultimately show ?thesis
    using f(1) e'(1,3) inv' cfg by (auto simp: kv_set_def same_config_def)
qed

section \<open>The sweep\<close>

definition live_entries :: "instant \<Rightarrow> entry list \<Rightarrow> entry list" where
  "live_entries now es = filter (\<lambda>(k, v, d). \<not> expired_at d now) es"

definition expired_count :: "instant \<Rightarrow> memory_engine \<Rightarrow> nat" where
  "expired_count now e = length (filter (\<lambda>(k, v, d). expired_at d now) (concat (abs_shards e)))"

definition shards_bytes :: "shard_inner list \<Rightarrow> usize" where
  "shards_bytes ss = sum_list (map total_bytes (map shard_abs ss))"

lemma shards_bytes_simps [simp]:
  "shards_bytes [] = 0" "shards_bytes (s # ss) = total_bytes (shard_abs s) + shards_bytes ss"
  by (simp_all add: shards_bytes_def)

lemma engine_shards_bytes: "engine_bytes e = shards_bytes (e_shards e)"
  by (simp add: engine_bytes_def shards_bytes_def abs_shards_def)

lemma purge_shards_refines:
  assumes "visits_values vals" and "\<forall>s\<in>set ss. shard_inv s"
  shows "\<exists>ts. purge_shards vals now n ss used =
      Some (n + of_nat (length (filter (\<lambda>(k, v, d). expired_at d now) (concat (map shard_abs ss)))), ts,
        used + shards_bytes ts - shards_bytes ss) \<and>
    (\<forall>s\<in>set ts. shard_inv s) \<and> map shard_abs ts = map (live_entries now) (map shard_abs ss)"
  using assms(2)
proof (induction ss arbitrary: n used)
  case (Cons s ss)
  let ?c = "length (filter (\<lambda>(k, v, d). expired_at d now) (shard_abs s))"
  have "abs_purge now n (shard_abs s) = Some (n + of_nat ?c, live_entries now (shard_abs s))"
    by (simp add: abs_purge_def live_entries_def)
  from refines_sectionD [OF purge_section_refines [OF assms(1)] _ this, of used] Cons.prems
  obtain t where t: "purge_section vals now n s used =
      Some (n + of_nat ?c, t, used + total_bytes (shard_abs t) - total_bytes (shard_abs s))"
    "shard_inv t" "shard_abs t = live_entries now (shard_abs s)"
    by auto
  from Cons.IH [of "n + of_nat ?c" "used + total_bytes (shard_abs t) - total_bytes (shard_abs s)"] Cons.prems
  obtain ts where "purge_shards vals now (n + of_nat ?c) ss (used + total_bytes (shard_abs t) - total_bytes (shard_abs s)) =
      Some (n + of_nat ?c + of_nat (length (filter (\<lambda>(k, v, d). expired_at d now) (concat (map shard_abs ss)))), ts,
        used + total_bytes (shard_abs t) - total_bytes (shard_abs s) + shards_bytes ts - shards_bytes ss)"
    "\<forall>s\<in>set ts. shard_inv s" "map shard_abs ts = map (live_entries now) (map shard_abs ss)"
    by (auto simp del: map_map)
  with t show ?case
    by (intro exI [of _ "t # ts"]) (simp add: algebra_simps)
qed simp

lemma map_of_live_entries:
  assumes "distinct (map fst es)"
  shows "map_of (live_entries now es) k =
    (case map_of es k of None \<Rightarrow> None | Some (v, d) \<Rightarrow> if expired_at d now then None else Some (v, d))"
  using assms
proof (induction es)
  case (Cons e es)
  then show ?case by (cases e) (auto simp: live_entries_def map_of_eq_None_iff split: option.splits)
qed (simp add: live_entries_def)

lemma purge_expired_law:
  assumes "visits_values vals" and "engine_inv e"
  shows "\<exists>e'. purge_expired vals e now = Some (of_nat (expired_count now e), e') \<and>
    engine_inv e' \<and> same_config e e' \<and> abs_shards e' = map (live_entries now) (abs_shards e) \<and>
    view e' = live_at now (view e)"
proof -
  have "\<forall>s\<in>set (e_shards e). shard_inv s" using assms(2) by (simp add: engine_inv_def)
  from purge_shards_refines [OF assms(1) this, of now 0 "e_used_bytes e"] obtain ts where ts:
    "purge_shards vals now 0 (e_shards e) (e_used_bytes e) = Some (of_nat (expired_count now e), ts,
        e_used_bytes e + shards_bytes ts - engine_bytes e)"
    "\<forall>s\<in>set ts. shard_inv s" "map shard_abs ts = map (live_entries now) (abs_shards e)"
    by (auto simp: engine_shards_bytes expired_count_def abs_shards_def simp del: map_map)
  define e' where "e' = e\<lparr>e_shards := ts, e_used_bytes := shards_bytes ts\<rparr>"
  have run: "purge_expired vals e now = Some (of_nat (expired_count now e), e')"
    using ts(1) assms(2) by (simp add: purge_expired_def e'_def engine_inv_def)
  have abs: "abs_shards e' = map (live_entries now) (abs_shards e)" using ts(3) by (simp add: abs_shards_def e'_def)
  have len: "length ts = length (e_shards e)" using arg_cong [OF ts(3), of length] by simp
  have cfg: "same_config e e'" using len by (simp add: same_config_def e'_def)
  have "\<forall>i<length (e_shards e'). \<forall>k\<in>fst ` set (abs_shards e' ! i). key_slot e' k = i"
    unfolding abs same_config_slot [OF cfg] using engine_inv_route [OF assms(2)] cfg
    by (fastforce simp: live_entries_def same_config_def)
  then have inv: "engine_inv e'"
    using assms(2) ts(2) len by (simp add: engine_inv_def e'_def engine_shards_bytes)
  have "view e' k = live_at now (view e) k" for k
    using abs_shards_distinct [OF assms(2) key_slot_bound [OF assms(2), of k]] key_slot_bound [OF assms(2), of k]
    by (simp add: view_def same_config_slot [OF cfg] abs map_of_live_entries live_at_def)
  with run inv cfg abs show ?thesis by blast
qed

section \<open>Fresh engines\<close>

lemma normalize_shard_count_power:
  assumes "unat count \<le> 2 ^ 63"
  shows "\<exists>n<64. normalize_shard_count count = 2 ^ n \<and> unat count \<le> 2 ^ n \<and> (\<forall>m<n. 2 ^ m < max 1 (unat count))"
proof -
  let ?w = "max count 1"
  have w: "unat ?w = max 1 (unat count)"
    by (cases "count = 0") (auto simp: max_def word_le_nat_alt unat_eq_zero)
  define P where "P n \<longleftrightarrow> unat ?w \<le> 2 ^ n" for n :: nat
  have P63: "P 63" using assms by (simp add: P_def w)
  then obtain n where n: "P n" "\<And>m. m < n \<Longrightarrow> \<not> P m" using exists_least_iff [of P] by blast
  have "n \<le> 63" using n(2) P63 by (metis not_le)
  then have "find P [0..<64] = Some n"
    using n by (auto simp: find_Some_iff intro!: exI [of _ n])
  then have "normalize_shard_count count = 2 ^ n"
    by (simp add: normalize_shard_count_def next_power_of_two_def P_def [abs_def])
  moreover have "2 ^ m < max 1 (unat count)" if "m < n" for m
    using n(2) [OF that] w by (simp add: P_def)
  ultimately show ?thesis using n(1) \<open>n \<le> 63\<close> w by (intro exI [of _ n]) (simp add: P_def)
qed

lemma engine_of_fresh:
  assumes n: "n < 64"
  shows "engine_inv (engine_of h (2 ^ n) cap) \<and> view (engine_of h (2 ^ n) cap) = Map.empty"
proof -
  let ?e = "engine_of h (2 ^ n) cap"
  have un: "unat ((2 :: usize) ^ n) = 2 ^ n"
  proof -
    have "(2 :: usize) ^ n = of_nat (2 ^ n)" by simp
    moreover have "(2 :: nat) ^ n < 2 ^ 64" using n by (intro power_strict_increasing) auto
    ultimately show ?thesis by (simp only: unat_of_nat) simp
  qed
  have e: "e_shards ?e = replicate (2 ^ n) shard_new" "e_shard_mask ?e = mask n" "e_used_bytes ?e = 0"
    using un by (simp_all add: engine_of_def mask_eq_exp_minus_1)
  have abs: "abs_shards ?e = replicate (2 ^ n) []" by (simp add: abs_shards_def e)
  have "engine_bytes ?e = 0"
    unfolding engine_bytes_def abs by (rule total_bytes_empty) simp
  then have inv: "engine_inv ?e"
    using n by (auto simp: engine_inv_def e abs intro!: exI [of _ n])
  show ?thesis
    using inv key_slot_bound [OF inv] by (auto simp: view_def abs e)
qed

text \<open>
  A constructor that returns has built an engine in order; the machine's threads, times four, must have
  a power of two above them, which holds up to two to the 61 threads.
\<close>

lemma engine_fresh:
  assumes "unat shards \<le> 2 ^ 63" and "with_shard_count_and_capacity alloc h shards cap = Some e"
  shows "engine_inv e \<and> view e = Map.empty \<and> e_max_bytes e = cap"
proof -
  obtain n where n: "n < 64" "normalize_shard_count shards = 2 ^ n"
    using normalize_shard_count_power [OF assms(1)] by blast
  with assms(2) have "e = engine_of h (2 ^ n) cap"
    by (simp add: with_shard_count_and_capacity_def Let_def split: if_splits)
  with engine_of_fresh [OF n(1), of h cap] show ?thesis by (simp add: engine_of_def)
qed

lemma engine_new_fresh:
  assumes "unat (saturating_mul (case parallelism of Some c \<Rightarrow> c | None \<Rightarrow> 1) default_shard_multiplier) \<le> 2 ^ 63"
    and "engine_new alloc h parallelism = Some e"
  shows "engine_inv e \<and> view e = Map.empty \<and> e_max_bytes e = - 1"
  using engine_fresh [OF assms(1), of alloc h "- 1" e] assms(2)
  by (simp add: engine_new_def with_shard_count_def Let_def)

end
