(* ===== verification/Decimal.thy ===== *)
theory Decimal
  imports HKV_Prelude
begin

text \<open>
  Decimal numbers on the wire. The sources print lengths and counters in three ways (the standard
  library's \<^verbatim>\<open>to_string\<close>, \<^verbatim>\<open>push_usize\<close> in \<^verbatim>\<open>hkv-client/src/resp.rs\<close>, \<^verbatim>\<open>encode_u64\<close> in
  \<^verbatim>\<open>hkv-client/src/client.rs\<close>) and read them back with digit loops that saturate instead of
  overflowing. This theory holds the reference printer, the digit loop both hand-written printers
  share, the reading loop all parsers share, and the laws that relate them.
\<close>

section \<open>Reference printer and value\<close>

definition is_digit :: "byte \<Rightarrow> bool" where
  "is_digit b \<longleftrightarrow> \<not> (b < 48 \<or> b > 57)"

text \<open>\<^verbatim>\<open>usize::to_string\<close> and \<^verbatim>\<open>u64::to_string\<close>.\<close>

fun dec_digits :: "nat \<Rightarrow> bytes" where
  "dec_digits n =
     (if n < 10 then [48 + of_nat n] else dec_digits (n div 10) @ [48 + of_nat (n mod 10)])"

declare dec_digits.simps [simp del]

text \<open>\<^verbatim>\<open>i64::to_string\<close>.\<close>

definition dec_int :: "int \<Rightarrow> bytes" where
  "dec_int i = (if i < 0 then 45 # dec_digits (nat (- i)) else dec_digits (nat i))"

definition dec_value :: "bytes \<Rightarrow> nat" where
  "dec_value bs = foldl (\<lambda>a b. 10 * a + unat (b - 48)) 0 bs"

lemma unat_digit: "k < 10 \<Longrightarrow> unat (48 + of_nat k :: byte) = 48 + k"
  by (simp add: unat_word_ariths unat_of_nat take_bit_eq_mod)

lemma is_digit_of_nat [simp]: "k < 10 \<Longrightarrow> is_digit (48 + of_nat k)"
  by (simp add: is_digit_def word_less_nat_alt unat_digit)

lemma dec_digits_nonempty [simp]: "dec_digits n \<noteq> []"
  by (subst dec_digits.simps) simp

lemma dec_digits_all_digits [simp]: "list_all is_digit (dec_digits n)"
proof (induction n rule: dec_digits.induct)
  case (1 n)
  then show ?case by (subst dec_digits.simps) simp
qed

lemma dec_value_snoc [simp]: "dec_value (bs @ [b]) = 10 * dec_value bs + unat (b - 48)"
  by (simp add: dec_value_def)

lemma dec_value_digits [simp]: "dec_value (dec_digits n) = n"
proof (induction n rule: dec_digits.induct)
  case (1 n)
  have small: "dec_value [48 + of_nat k] = k" if "k < 10" for k
    using that by (simp add: dec_value_def unat_of_nat take_bit_eq_mod)
  show ?case
  proof (cases "n < 10")
    case True
    then show ?thesis by (subst dec_digits.simps) (simp add: small)
  next
    case False
    have "unat (of_nat (n mod 10) :: byte) = n mod 10"
      by (simp add: unat_of_nat take_bit_eq_mod)
    with False 1 show ?thesis
      by (subst dec_digits.simps) (simp del: of_nat_mod)
  qed
qed

lemma dec_digits_inject: "dec_digits m = dec_digits n \<longleftrightarrow> m = n"
  by (metis dec_value_digits)

lemma length_dec_digits: "n < 10 ^ Suc k \<Longrightarrow> length (dec_digits n) \<le> Suc k"
proof (induction k arbitrary: n)
  case 0
  then show ?case by (subst dec_digits.simps) simp
next
  case (Suc k)
  show ?case
  proof (cases "n < 10")
    case True
    then show ?thesis by (subst dec_digits.simps) simp
  next
    case False
    have "n div 10 < 10 ^ Suc k" using Suc.prems by (simp add: less_mult_imp_div_less mult.commute)
    then have "length (dec_digits (n div 10)) \<le> Suc k" by (rule Suc.IH)
    with False show ?thesis by (subst dec_digits.simps) simp
  qed
qed

lemma length_dec_digits_u64: "n \<le> u64_max \<Longrightarrow> length (dec_digits n) \<le> 20"
  using length_dec_digits [of n 19] by simp

lemma digit_neq:
  "is_digit b \<Longrightarrow> b \<noteq> 13" "is_digit b \<Longrightarrow> b \<noteq> 10" "is_digit b \<Longrightarrow> b \<noteq> 45"
  by (auto simp: is_digit_def)

lemma dec_digits_no_crlf: "13 \<notin> set (dec_digits n)" "10 \<notin> set (dec_digits n)" "45 \<notin> set (dec_digits n)"
  using dec_digits_all_digits [of n] digit_neq by (auto simp: list_all_iff)

lemma dec_int_no_crlf: "13 \<notin> set (dec_int i)" "10 \<notin> set (dec_int i)"
  by (simp_all add: dec_int_def dec_digits_no_crlf)

lemma word_pos_unat: "0 < (v :: 'a::len word) \<longleftrightarrow> 0 < unat v"
  by (simp add: word_less_nat_alt)

lemma unat_le_u64_max: "unat (v :: u64) \<le> u64_max"
proof -
  have "unat v < 2 ^ LENGTH(64)" by (rule unsigned_less)
  then show ?thesis by simp
qed

section \<open>The digit-writing loop\<close>

text \<open>
  \<^verbatim>\<open>while value > 0 { buf[len] = b'0' + (value % 10) as u8; value /= 10; len += 1; }\<close> on a stack
  buffer: least significant digit first, with the bounds check of \<^verbatim>\<open>buf[len]\<close>.
\<close>

function write_digits :: "u64 \<Rightarrow> bytes \<Rightarrow> nat \<Rightarrow> (bytes \<times> nat) exec" where
  "write_digits v buf len =
     (if v > 0 then
        do {
          buf' \<leftarrow> update_at buf len (\<lambda>_. 48 + ucast (v mod 10));
          write_digits (v div 10) buf' (len + 1)
        }
      else Some (buf, len))"
  by pat_completeness auto
termination
  by (relation "measure (\<lambda>(v, _, _). unat v)")
    (auto simp: unat_div word_less_nat_alt div_less_dividend)

declare write_digits.simps [simp del]

definition digits_or_none :: "nat \<Rightarrow> bytes" where
  "digits_or_none n = (if n = 0 then [] else dec_digits n)"

lemma digits_or_none_step:
  "0 < n \<Longrightarrow> digits_or_none n = digits_or_none (n div 10) @ [48 + of_nat (n mod 10)]"
  by (auto simp: digits_or_none_def dec_digits.simps [of n] simp del: of_nat_mod)

lemma ucast_mod10: "(48 + ucast (v mod 10 :: u64) :: byte) = 48 + of_nat (unat v mod 10)"
proof -
  have "(ucast (v mod 10 :: u64) :: byte) = of_nat (unat (v mod 10))"
    by (rule of_nat_unat [symmetric])
  then show ?thesis by (simp add: unat_mod del: of_nat_mod)
qed

lemma write_digits_spec:
  "unat v < 10 ^ k \<Longrightarrow> len + k \<le> length buf \<Longrightarrow>
   \<exists>buf'. write_digits v buf len = Some (buf', len + length (digits_or_none (unat v))) \<and>
     length buf' = length buf \<and>
     len + length (digits_or_none (unat v)) \<le> length buf \<and>
     take (len + length (digits_or_none (unat v))) buf' =
       take len buf @ rev (digits_or_none (unat v))"
proof (induction k arbitrary: v buf len)
  case 0
  then show ?case by (subst write_digits.simps) (simp add: digits_or_none_def unat_eq_zero)
next
  case (Suc k)
  show ?case
  proof (cases "v > 0")
    case False
    with Suc.prems show ?thesis
      by (subst write_digits.simps) (simp add: digits_or_none_def word_pos_unat)
  next
    case True
    define b :: bytes where "b = buf[len := 48 + of_nat (unat v mod 10)]"
    have len: "len < length buf" using Suc.prems by simp
    have small: "unat (v div 10) < 10 ^ k"
      using Suc.prems(1) by (simp add: unat_div less_mult_imp_div_less mult.commute)
    have "len + 1 + k \<le> length b" using Suc.prems(2) by (simp add: b_def)
    from Suc.IH [OF small this] obtain b' where b':
      "write_digits (v div 10) b (len + 1) =
         Some (b', len + 1 + length (digits_or_none (unat (v div 10))))"
      "length b' = length b"
      "len + 1 + length (digits_or_none (unat (v div 10))) \<le> length b"
      "take (len + 1 + length (digits_or_none (unat (v div 10)))) b' =
         take (len + 1) b @ rev (digits_or_none (unat (v div 10)))"
      by blast
    have step: "digits_or_none (unat v) =
        digits_or_none (unat (v div 10)) @ [48 + of_nat (unat v mod 10)]"
      using True digits_or_none_step [of "unat v"] by (simp add: unat_div word_pos_unat)
    have eq: "write_digits v buf len = write_digits (v div 10) b (len + 1)"
      using True len by (subst write_digits.simps) (simp add: b_def ucast_mod10 del: of_nat_mod)
    have "take (len + 1) b = take len buf @ [48 + of_nat (unat v mod 10)]"
      using len by (simp add: b_def take_Suc_conv_app_nth del: of_nat_mod)
    with b' eq step show ?thesis by (simp add: b_def)
  qed
qed

lemma write_digits_u64:
  assumes "v > 0"
  shows "\<exists>buf'. write_digits v (replicate 20 0) 0 = Some (buf', length (dec_digits (unat v))) \<and>
     length buf' = 20 \<and> length (dec_digits (unat v)) \<le> 20 \<and>
     take (length (dec_digits (unat v))) buf' = rev (dec_digits (unat v))"
proof -
  have "unat v < 10 ^ 20" using unat_le_u64_max [of v] by (rule le_less_trans) simp
  from write_digits_spec [OF this, of 0 "replicate 20 0"] assms show ?thesis
    by (simp add: digits_or_none_def word_pos_unat)
qed

section \<open>The saturating digit-reading loop\<close>

text \<open>
  \<^verbatim>\<open>for &b in data { if b < b'0' || b > b'9' { return Err(..) } value =
  value.saturating_mul(10).saturating_add((b - b'0') as usize); }\<close>, with \<open>None\<close> for the error.
\<close>

fun read_digits :: "u64 \<Rightarrow> bytes \<Rightarrow> u64 option" where
  "read_digits value [] = Some value"
| "read_digits value (b # bs) =
     (if b < 48 \<or> b > 57 then None
      else read_digits (saturating_add (saturating_mul value 10) (ucast (b - 48))) bs)"

lemma unat_ucast_byte: "unat (ucast (b :: byte) :: u64) = unat b"
  by (simp add: unsigned_ucast_eq take_bit_nat_eq_self unsigned_less [THEN less_le_trans])

lemma read_digits_spec:
  "read_digits v bs =
     (if list_all is_digit bs
      then Some (of_nat (min (foldl (\<lambda>a b. 10 * a + unat (b - 48)) (unat v) bs) u64_max))
      else None)"
proof (induction bs arbitrary: v)
  case Nil
  show ?case using unat_le_u64_max [of v] by (simp add: min_absorb1)
next
  case (Cons b bs)
  let ?w = "saturating_add (saturating_mul v 10) (ucast (b - 48))"
  have w: "unat ?w = min (10 * unat v + unat (b - 48)) u64_max"
    by (simp add: unat_saturating_add unat_saturating_mul unat_ucast_byte min_def)
  have fold_sat: "min (foldl (\<lambda>a b. 10 * a + unat (b - 48)) (min x u64_max) cs) u64_max =
      min (foldl (\<lambda>a b. 10 * a + unat (b - 48)) x cs) u64_max" for x and cs :: bytes
  proof (induction cs arbitrary: x)
    case (Cons c cs)
    have *: "min (10 * min x u64_max + unat (c - 48)) u64_max = min (10 * x + unat (c - 48)) u64_max"
      by (simp add: min_def)
    show ?case
      using Cons.IH [of "10 * min x u64_max + unat (c - 48)"] Cons.IH [of "10 * x + unat (c - 48)"]
      by (simp only: foldl_Cons * [symmetric])
  qed simp
  show ?case
    by (simp add: Cons.IH [of ?w] w fold_sat [simplified] is_digit_def)
qed

lemma read_digits_value:
  "read_digits 0 bs = (if list_all is_digit bs then Some (of_nat (min (dec_value bs) u64_max)) else None)"
  by (simp add: read_digits_spec dec_value_def)

lemma read_digits_dec_digits [simp]:
  "n \<le> u64_max \<Longrightarrow> read_digits 0 (dec_digits n) = Some (of_nat n)"
  by (simp add: read_digits_value min_absorb1)

end
