(* ===== verification/Resp_Parser.thy ===== *)
theory Resp_Parser
  imports Decimal
begin

text \<open>
  The streaming request parser of the server (\<^verbatim>\<open>hkv-server/src/protocol.rs\<close>). The parser is a record
  with the state of the Rust struct; \<open>parse\<close> consumes from a buffer and returns the result, the new
  parser and what is left of the buffer. A panic of the buffer operations is \<open>None\<close>.

  The lemmas: the line scanner finds the first CRLF; \<open>parse\<close> always ends; feeding a request in
  pieces gives what feeding it at once gives; every well-formed request is accepted with its
  arguments, and whatever is accepted is a well-formed request.
\<close>

section \<open>Lines and numbers\<close>

datatype RespError = RespProtocol

text \<open>The scan of \<^verbatim>\<open>read_line\<close>: the index of the CR of the first CRLF.\<close>

function line_end :: "bytes \<Rightarrow> nat \<Rightarrow> nat option" where
  "line_end buf idx =
     (if idx < length buf then
        if buf ! idx = 10 \<and> buf ! (idx - 1) = 13 then Some (idx - 1)
        else line_end buf (idx + 1)
      else None)"
  by pat_completeness auto
termination by (relation "measure (\<lambda>(buf, idx). length buf - idx)") auto

declare line_end.simps [simp del]

definition resp_read_line :: "bytes \<Rightarrow> (bytes \<times> bytes) option" where
  "resp_read_line buf = (case line_end buf 1 of
     Some i \<Rightarrow> Some (take i buf, drop 2 (drop i buf))
   | None \<Rightarrow> None)"

definition parse_usize :: "bytes \<Rightarrow> RespError + usize" where
  "parse_usize data =
     (if data = [] then Inl RespProtocol
      else case read_digits 0 data of None \<Rightarrow> Inl RespProtocol | Some v \<Rightarrow> Inr v)"

text \<open>The scanner as structural recursion on the buffer.\<close>

fun split_crlf :: "bytes \<Rightarrow> (bytes \<times> bytes) option" where
  "split_crlf (a # b # bs) =
     (if a = 13 \<and> b = 10 then Some ([], bs)
      else map_option (\<lambda>(l, r). (a # l, r)) (split_crlf (b # bs)))"
| "split_crlf _ = None"

lemma line_end_shift: "line_end (a # buf) (Suc (Suc i)) = map_option Suc (line_end buf (Suc i))"
proof (induction buf "Suc i" arbitrary: i rule: line_end.induct)
  case (1 buf)
  then show ?case
    by (subst line_end.simps, subst (2) line_end.simps) simp
qed

lemma line_end_first:
  "line_end (a # b # bs) 1 =
    (if a = 13 \<and> b = 10 then Some 0 else map_option Suc (line_end (b # bs) 1))"
  using line_end_shift [of a "b # bs" 0] by (subst line_end.simps) auto

lemma read_line_split: "resp_read_line buf = split_crlf buf"
proof (induction buf rule: split_crlf.induct)
  case (1 a b bs)
  show ?case
  proof (cases "a = 13 \<and> b = 10")
    case True
    then show ?thesis by (simp add: resp_read_line_def line_end_first del: One_nat_def)
  next
    case False
    have "resp_read_line (a # b # bs) = map_option (\<lambda>(l, r). (a # l, r)) (resp_read_line (b # bs))"
      using False by (cases "line_end (b # bs) 1")
        (simp_all add: resp_read_line_def line_end_first del: One_nat_def)
    with 1 [OF False] False show ?thesis by simp
  qed
qed (simp_all add: resp_read_line_def line_end.simps)

lemma split_crlf_append:
  "split_crlf buf = Some (l, r) \<Longrightarrow> split_crlf (buf @ suf) = Some (l, r @ suf)"
  by (induction buf arbitrary: l rule: split_crlf.induct) (auto split: if_splits)

lemma split_crlf_decomp: "split_crlf buf = Some (l, r) \<Longrightarrow> buf = l @ 13 # 10 # r"
  by (induction buf arbitrary: l rule: split_crlf.induct) (auto split: if_splits)

lemma split_crlf_line: "13 \<notin> set l \<Longrightarrow> split_crlf (l @ 13 # 10 # r) = Some (l, r)"
proof (induction l)
  case (Cons a l)
  then show ?case by (cases "l @ 13 # 10 # r" rule: split_crlf.cases) (auto simp: Cons_eq_append_conv)
qed simp

section \<open>The parser\<close>

datatype ParseState = ArrayLen | BulkLen | BulkData

record resp_parser =
  p_state :: ParseState
  p_args :: "bytes list"
  p_remaining :: usize
  p_bulk_len :: usize

definition resp_parser_new :: resp_parser where
  "resp_parser_new = \<lparr>p_state = ArrayLen, p_args = [], p_remaining = 0, p_bulk_len = 0\<rparr>"

text \<open>
  The length line of a state: the byte the line starts with, then the number. \<open>None\<close> when the line
  is not there yet.
\<close>

definition length_line :: "byte \<Rightarrow> bytes \<Rightarrow> ((RespError + usize) \<times> bytes) option" where
  "length_line mark buf = (case resp_read_line buf of
     None \<Rightarrow> None
   | Some (line, buf) \<Rightarrow>
       Some (if line = [] \<or> hd line \<noteq> mark then Inl RespProtocol else parse_usize (tl line), buf))"

text \<open>
  \<^verbatim>\<open>buf.split_to(n)\<close> and \<^verbatim>\<open>buf.get_u8()\<close>, which panic when the buffer is too short.
\<close>

definition split_to :: "nat \<Rightarrow> bytes \<Rightarrow> (bytes \<times> bytes) exec" where
  "split_to n buf = (if n \<le> length buf then Some (take n buf, drop n buf) else None)"

fun get_u8 :: "bytes \<Rightarrow> (byte \<times> bytes) exec" where
  "get_u8 [] = None"
| "get_u8 (b # buf) = Some (b, buf)"

text \<open>\<^verbatim>\<open>buf.get_u8() != b'\r' || buf.get_u8() != b'\n'\<close>: the second byte is read only after a CR.\<close>

definition bad_crlf :: "bytes \<Rightarrow> (bool \<times> bytes) exec" where
  "bad_crlf buf = do {
     (b, buf) \<leftarrow> get_u8 buf;
     (if b \<noteq> 13 then Some (True, buf)
      else do {
        (b, buf) \<leftarrow> get_u8 buf;
        Some (b \<noteq> 10, buf)
      })
   }"

type_synonym parse_result = "((RespError + bytes list option) \<times> resp_parser \<times> bytes) exec"

lemma length_line_shorter: "length_line mark buf = Some (r, buf') \<Longrightarrow> length buf' + 2 \<le> length buf"
  by (auto simp: length_line_def read_line_split split: option.splits dest!: split_crlf_decomp)

lemma bad_crlf_shorter: "bad_crlf buf = Some (b, buf') \<Longrightarrow> length buf' < length buf"
  by (cases buf rule: split_crlf.cases) (auto simp: bad_crlf_def split: if_splits)

lemma split_to_length: "split_to n buf = Some (d, buf') \<Longrightarrow> length buf' \<le> length buf"
  by (auto simp: split_to_def split: if_splits)

function parse :: "resp_parser \<Rightarrow> bytes \<Rightarrow> parse_result" where
  "parse p buf = (case p_state p of
     ArrayLen \<Rightarrow>
       (case length_line 42 buf of
          None \<Rightarrow> Some (Inr None, p, buf)
        | Some (Inl err, buf) \<Rightarrow> Some (Inl err, p, buf)
        | Some (Inr count, buf) \<Rightarrow>
            let p = p\<lparr>p_args := [], p_remaining := count\<rparr> in
            if p_remaining p = 0 then Some (Inr (Some []), p\<lparr>p_state := ArrayLen\<rparr>, buf)
            else parse (p\<lparr>p_state := BulkLen\<rparr>) buf)
   | BulkLen \<Rightarrow>
       (case length_line 36 buf of
          None \<Rightarrow> Some (Inr None, p, buf)
        | Some (Inl err, buf) \<Rightarrow> Some (Inl err, p, buf)
        | Some (Inr len, buf) \<Rightarrow> parse (p\<lparr>p_bulk_len := len, p_state := BulkData\<rparr>) buf)
   | BulkData \<Rightarrow>
       if length buf < unat (p_bulk_len p + 2) then Some (Inr None, p, buf)
       else do {
         (data, buf) \<leftarrow> split_to (unat (p_bulk_len p)) buf;
         (bad, buf) \<leftarrow> bad_crlf buf;
         (if bad then Some (Inl RespProtocol, p, buf)
          else let p = p\<lparr>p_args := p_args p @ [data], p_remaining := p_remaining p - 1\<rparr> in
            if p_remaining p = 0 then
              Some (Inr (Some (p_args p)), p\<lparr>p_state := ArrayLen, p_args := []\<rparr>, buf)
            else parse (p\<lparr>p_state := BulkLen\<rparr>) buf)
       })"
  by pat_completeness auto
termination
  by (relation "measure (\<lambda>(p, buf). length buf)")
    (auto dest!: length_line_shorter bad_crlf_shorter split_to_length)

declare parse.simps [simp del]

section \<open>Feeding a request in pieces\<close>

lemma length_line_append:
  "length_line mark buf = Some (r, buf') \<Longrightarrow> length_line mark (buf @ suf) = Some (r, buf' @ suf)"
  by (auto simp: length_line_def read_line_split split_crlf_append split: option.splits)

lemma split_to_append:
  "split_to n buf = Some (d, buf') \<Longrightarrow> split_to n (buf @ suf) = Some (d, buf' @ suf)"
  by (auto simp: split_to_def split: if_splits)

lemma bad_crlf_append:
  "bad_crlf buf = Some (b, buf') \<Longrightarrow> bad_crlf (buf @ suf) = Some (b, buf' @ suf)"
  by (cases buf rule: split_crlf.cases) (auto simp: bad_crlf_def split: if_splits)

lemma parse_append:
  "parse p buf = Some (r, p', buf') \<Longrightarrow>
    parse p (buf @ suf) =
      (if r = Inr None then parse p' (buf' @ suf) else Some (r, p', buf' @ suf))"
proof (induction p buf rule: parse.induct)
  case (1 p buf)
  show ?case
  proof (cases "p_state p")
    case ArrayLen
    show ?thesis
    proof (cases "length_line 42 buf")
      case None
      with ArrayLen 1(4) show ?thesis by (auto simp: parse.simps [of p buf])
    next
      case (Some rb)
      obtain x b where rb: "rb = (x, b)" by (cases rb)
      note ll = Some [unfolded rb]
      show ?thesis
        using 1(1) [OF ArrayLen ll] 1(4) ArrayLen ll length_line_append [OF ll, of suf]
        unfolding parse.simps [of p buf] parse.simps [of p "buf @ suf"]
        by (cases x) (auto simp: Let_def split: if_splits)
    qed
  next
    case BulkLen
    show ?thesis
    proof (cases "length_line 36 buf")
      case None
      with BulkLen 1(4) show ?thesis by (auto simp: parse.simps [of p buf])
    next
      case (Some rb)
      obtain x b where rb: "rb = (x, b)" by (cases rb)
      note ll = Some [unfolded rb]
      show ?thesis
        using 1(2) [OF BulkLen ll] 1(4) BulkLen ll length_line_append [OF ll, of suf]
        unfolding parse.simps [of p buf] parse.simps [of p "buf @ suf"]
        by (cases x) (auto simp: Let_def split: if_splits)
    qed
  next
    case BulkData
    show ?thesis
    proof (cases "length buf < unat (p_bulk_len p + 2)")
      case True
      with BulkData 1(4) show ?thesis by (auto simp: parse.simps [of p buf])
    next
      case False
      with BulkData 1(4) obtain d b1 bad b2 where st: "split_to (unat (p_bulk_len p)) buf = Some (d, b1)"
        "bad_crlf b1 = Some (bad, b2)"
        by (subst (asm) parse.simps) (auto simp: bind_eq_Some_conv)
      note app = split_to_append [OF st(1), of suf] bad_crlf_append [OF st(2), of suf]
      show ?thesis
        using 1(3) [OF BulkData False st(1) refl st(2) refl] 1(4) BulkData False st app
        unfolding parse.simps [of p buf] parse.simps [of p "buf @ suf"]
        by (auto simp: Let_def split: if_splits)
    qed
  qed
qed

section \<open>The requests that are accepted\<close>

text \<open>
  \<open>number_text n ds\<close>: the decimal digits \<open>ds\<close> (leading zeros allowed) are read as \<open>n\<close>, saturating at
  the largest \<^verbatim>\<open>usize\<close>. \<open>bulk_text d bs\<close> and \<open>request_text args bs\<close>: \<open>bs\<close> is the wire form of a bulk
  string and of a request.
\<close>

definition number_text :: "usize \<Rightarrow> bytes \<Rightarrow> bool" where
  "number_text n ds \<longleftrightarrow> ds \<noteq> [] \<and> list_all is_digit ds \<and> n = of_nat (min (dec_value ds) u64_max)"

definition bulk_text :: "bytes \<Rightarrow> bytes \<Rightarrow> bool" where
  "bulk_text d bs \<longleftrightarrow>
     (\<exists>n ds. number_text n ds \<and> length d = unat n \<and> bs = 36 # ds @ 13 # 10 # d @ [13, 10])"

definition request_text :: "bytes list \<Rightarrow> bytes \<Rightarrow> bool" where
  "request_text args bs \<longleftrightarrow>
     (\<exists>n ds bss. number_text n ds \<and> length args = unat n \<and> list_all2 bulk_text args bss \<and>
        bs = 42 # ds @ 13 # 10 # concat bss)"

lemma bulk_text_length: "bulk_text d bs \<Longrightarrow> length d \<le> length bs"
  by (auto simp: bulk_text_def)

lemma request_text_length:
  assumes "request_text args bs" and "d \<in> set args"
  shows "length d \<le> length bs"
proof -
  from assms(1) obtain n ds bss where req: "list_all2 bulk_text args bss" "bs = 42 # ds @ 13 # 10 # concat bss"
    by (auto simp: request_text_def)
  from assms(2) obtain i where i: "i < length args" "args ! i = d" by (auto simp: in_set_conv_nth)
  with req(1) have "bulk_text d (bss ! i)" "i < length bss" by (auto simp: list_all2_conv_all_nth)
  then have "length d \<le> length (bss ! i)" "bss ! i \<in> set bss" by (simp_all add: bulk_text_length)
  then obtain xs ys where "bss = xs @ bss ! i # ys" by (auto dest: split_list)
  then have "concat bss = concat xs @ bss ! i @ concat ys" by (metis concat.simps(2) concat_append)
  with \<open>length d \<le> length (bss ! i)\<close> req(2) show ?thesis by simp
qed

lemma parse_usize_iff: "parse_usize ds = Inr n \<longleftrightarrow> number_text n ds"
  by (auto simp: parse_usize_def number_text_def read_digits_value split: option.splits)

lemma digits_no_cr: "list_all is_digit ds \<Longrightarrow> 13 \<notin> set ds"
  using digit_neq(1) by (auto simp: list_all_iff)

lemma length_line_iff:
  assumes "mark \<noteq> 13"
  shows "length_line mark buf = Some (Inr n, rest) \<longleftrightarrow>
    (\<exists>ds. number_text n ds \<and> buf = mark # ds @ 13 # 10 # rest)"
proof
  assume "length_line mark buf = Some (Inr n, rest)"
  then obtain line where "split_crlf buf = Some (line, rest)" "line \<noteq> []" "hd line = mark"
    "parse_usize (tl line) = Inr n"
    by (auto simp: length_line_def read_line_split split: option.splits if_splits)
  then show "\<exists>ds. number_text n ds \<and> buf = mark # ds @ 13 # 10 # rest"
    by (intro exI [of _ "tl line"]) (auto simp: parse_usize_iff neq_Nil_conv dest: split_crlf_decomp)
next
  assume "\<exists>ds. number_text n ds \<and> buf = mark # ds @ 13 # 10 # rest"
  then obtain ds where ds: "number_text n ds" "buf = mark # ds @ 13 # 10 # rest" by blast
  have "13 \<notin> set (mark # ds)" using assms ds(1) digits_no_cr by (auto simp: number_text_def)
  from split_crlf_line [OF this, of rest] ds show "length_line mark buf = Some (Inr n, rest)"
    by (simp add: length_line_def read_line_split parse_usize_iff)
qed

lemma bad_crlf_False: "bad_crlf buf = Some (False, rest) \<longleftrightarrow> buf = 13 # 10 # rest"
  by (cases buf rule: split_crlf.cases) (auto simp: bad_crlf_def)

lemma split_to_iff: "split_to n buf = Some (d, rest) \<longleftrightarrow> length d = n \<and> buf = d @ rest"
  by (auto simp: split_to_def)

text \<open>What a successful call has read, from each state of the parser.\<close>

definition accepted :: "resp_parser \<Rightarrow> bytes \<Rightarrow> bytes list \<Rightarrow> bytes \<Rightarrow> bool" where
  "accepted p buf args rest = (case p_state p of
     ArrayLen \<Rightarrow> \<exists>bs. request_text args bs \<and> buf = bs @ rest
   | BulkLen \<Rightarrow> \<exists>new bss. args = p_args p @ new \<and> length new = unat (p_remaining p) \<and>
       list_all2 bulk_text new bss \<and> buf = concat bss @ rest
   | BulkData \<Rightarrow> \<exists>d new bss. args = p_args p @ d # new \<and> Suc (length new) = unat (p_remaining p) \<and>
       length d = unat (p_bulk_len p) \<and> list_all2 bulk_text new bss \<and>
       buf = d @ 13 # 10 # concat bss @ rest)"

lemma unat_minus_1: "n \<noteq> 0 \<Longrightarrow> unat n = Suc (unat (n - 1))" for n :: usize
proof -
  assume "n \<noteq> 0"
  then have pos: "0 < unat n" by (metis neq0_conv unat_eq_zero)
  then have "1 \<le> n" by (simp add: word_le_nat_alt)
  from unat_sub [OF this] pos show ?thesis by simp
qed

lemma parse_sound:
  "parse p buf = Some (Inr (Some args), p', rest) \<Longrightarrow> p_state p \<noteq> ArrayLen \<longrightarrow> p_remaining p \<noteq> 0 \<Longrightarrow>
    accepted p buf args rest \<and> p_state p' = ArrayLen \<and> p_args p' = []"
proof (induction p buf rule: parse.induct)
  case (1 p buf)
  show ?case
  proof (cases "p_state p")
    case ArrayLen
    with 1(4) obtain n b where ll: "length_line 42 buf = Some (Inr n, b)"
      by (subst (asm) parse.simps) (auto split: option.splits sum.splits)
    then obtain ds where ds: "number_text n ds" "buf = 42 # ds @ 13 # 10 # b"
      by (auto simp: length_line_iff)
    show ?thesis
    proof (cases "n = 0")
      case True
      with 1(4) ArrayLen ll ds show ?thesis
        by (subst (asm) parse.simps) (auto simp: accepted_def request_text_def intro!: exI [of _ ds])
    next
      case False
      with 1(1) [OF ArrayLen ll refl refl refl] 1(4) ArrayLen ll obtain new bss where
        "args = new" "length new = unat n" "list_all2 bulk_text new bss" "b = concat bss @ rest"
        "p_state p' = ArrayLen" "p_args p' = []"
        by (subst (asm) (2) parse.simps) (auto simp: accepted_def)
      with ArrayLen ds show ?thesis by (auto simp: accepted_def request_text_def)
    qed
  next
    case BulkLen
    with 1(4) obtain n b where ll: "length_line 36 buf = Some (Inr n, b)"
      by (subst (asm) parse.simps) (auto split: option.splits sum.splits)
    then obtain ds where ds: "number_text n ds" "buf = 36 # ds @ 13 # 10 # b"
      by (auto simp: length_line_iff)
    from 1(2) [OF BulkLen ll refl] 1(4,5) BulkLen ll obtain d new bss where
      *: "args = p_args p @ d # new" "Suc (length new) = unat (p_remaining p)" "length d = unat n"
        "list_all2 bulk_text new bss" "b = d @ 13 # 10 # concat bss @ rest"
        "p_state p' = ArrayLen" "p_args p' = []"
      by (subst (asm) (2) parse.simps) (auto simp: accepted_def)
    have "bulk_text d (36 # ds @ 13 # 10 # d @ [13, 10])" using ds(1) *(3) by (auto simp: bulk_text_def)
    with * ds(2) BulkLen show ?thesis
      by (auto simp: accepted_def intro!: exI [of _ "d # new"]
          exI [of _ "(36 # ds @ 13 # 10 # d @ [13, 10]) # bss"])
  next
    case BulkData
    with 1(4) obtain d b1 b2 where len: "\<not> length buf < unat (p_bulk_len p + 2)"
      and st: "split_to (unat (p_bulk_len p)) buf = Some (d, b1)" "bad_crlf b1 = Some (False, b2)"
      by (subst (asm) parse.simps) (auto simp: bind_eq_Some_conv split: if_splits)
    have buf: "buf = d @ 13 # 10 # b2" "length d = unat (p_bulk_len p)"
      using st by (auto simp: split_to_iff bad_crlf_False)
    have rem: "unat (p_remaining p) = Suc (unat (p_remaining p - 1))"
      using 1(5) BulkData by (intro unat_minus_1) simp
    show ?thesis
    proof (cases "p_remaining p - 1 = 0")
      case True
      with 1(4) BulkData len st buf rem show ?thesis
        by (subst (asm) parse.simps) (auto simp: accepted_def)
    next
      case False
      with 1(3) [OF BulkData len st(1) refl st(2) refl _ refl] 1(4) BulkData len st obtain new bss where
        "args = p_args p @ d # new" "length new = unat (p_remaining p - 1)"
        "list_all2 bulk_text new bss" "b2 = concat bss @ rest" "p_state p' = ArrayLen" "p_args p' = []"
        by (subst (asm) (2) parse.simps) (auto simp: accepted_def)
      with BulkData buf rem show ?thesis by (auto simp: accepted_def)
    qed
  qed
qed

text \<open>
  A bulk length below \<open>2 ^ 64 - 2\<close> leaves \<open>bulk_len + 2\<close> in range. Every buffer is far shorter than
  that, since an allocation has at most \<^verbatim>\<open>isize::MAX\<close> bytes.
\<close>

lemma bulk_len_plus_2: "unat n < 2 ^ 64 - 2 \<Longrightarrow> unat (n + 2) = unat n + 2" for n :: usize
  by (simp add: unat_word_ariths)

lemma parse_bulk:
  assumes "p_state p = BulkLen" and "bulk_text d bs" and "length d < 2 ^ 64 - 2" and "p_remaining p \<noteq> 0"
  shows "\<exists>n. parse p (bs @ rest) =
    (let q = p\<lparr>p_bulk_len := n, p_args := p_args p @ [d], p_remaining := p_remaining p - 1, p_state := BulkLen\<rparr> in
     if p_remaining q = 0 then Some (Inr (Some (p_args q)), q\<lparr>p_state := ArrayLen, p_args := []\<rparr>, rest)
     else parse q rest)"
proof -
  obtain n ds where n: "number_text n ds" "length d = unat n" "bs = 36 # ds @ 13 # 10 # d @ [13, 10]"
    using assms(2) by (auto simp: bulk_text_def)
  have ll: "length_line 36 (bs @ rest) = Some (Inr n, d @ 13 # 10 # rest)"
    using n by (auto simp: length_line_iff)
  define q where "q = p\<lparr>p_bulk_len := n, p_state := BulkData\<rparr>"
  have q: "p_state q = BulkData" "p_bulk_len q = n" by (simp_all add: q_def)
  have "parse p (bs @ rest) = parse q (d @ 13 # 10 # rest)"
    using assms(1) ll by (subst parse.simps) (simp add: q_def)
  moreover have "split_to (unat n) (d @ 13 # 10 # rest) = Some (d, 13 # 10 # rest)"
    "bad_crlf (13 # 10 # rest) = Some (False, rest)" "unat (n + 2) = unat n + 2"
    using n(2) assms(3) by (auto simp: split_to_iff bad_crlf_False bulk_len_plus_2)
  ultimately show ?thesis
    using n(2) q parse.simps [of q "d @ 13 # 10 # rest"]
    by (intro exI [of _ n]) (simp add: q_def Let_def)
qed

lemma parse_bulks:
  "list_all2 bulk_text new bss \<Longrightarrow> \<forall>d\<in>set new. length d < 2 ^ 64 - 2 \<Longrightarrow> p_state p = BulkLen \<Longrightarrow>
    new \<noteq> [] \<Longrightarrow> length new = unat (p_remaining p) \<Longrightarrow>
    \<exists>p'. parse p (concat bss @ rest) = Some (Inr (Some (p_args p @ new)), p', rest)"
proof (induction new arbitrary: bss p)
  case (Cons d new)
  then obtain bs bss' where bss: "bss = bs # bss'" "bulk_text d bs" "list_all2 bulk_text new bss'"
    by (auto simp: list_all2_Cons1)
  have "p_remaining p \<noteq> 0" using Cons.prems(5) by auto
  then have rem: "length new = unat (p_remaining p - 1)" using unat_minus_1 [of "p_remaining p"] Cons.prems(5) by simp
  from parse_bulk [OF Cons.prems(3) bss(2) _ \<open>p_remaining p \<noteq> 0\<close>, of "concat bss' @ rest"] Cons.prems(2)
  obtain n where step: "parse p (bs @ concat bss' @ rest) =
    (let q = p\<lparr>p_bulk_len := n, p_args := p_args p @ [d], p_remaining := p_remaining p - 1, p_state := BulkLen\<rparr> in
     if p_remaining q = 0 then Some (Inr (Some (p_args q)), q\<lparr>p_state := ArrayLen, p_args := []\<rparr>, concat bss' @ rest)
     else parse q (concat bss' @ rest))" by auto
  show ?case
  proof (cases "new = []")
    case True
    with rem have "p_remaining p - 1 = 0" by (metis list.size(3) unat_eq_zero)
    with True bss step show ?thesis by (simp add: Let_def)
  next
    case False
    with rem have "p_remaining p - 1 \<noteq> 0" by auto
    with step bss(1) Cons.IH [OF bss(3) _ _ False, of
        "p\<lparr>p_bulk_len := n, p_args := p_args p @ [d], p_remaining := p_remaining p - 1, p_state := BulkLen\<rparr>"] Cons.prems(2,3) rem
    show ?thesis by (simp add: Let_def)
  qed
qed simp

lemma parse_complete:
  assumes "p_state p = ArrayLen" and "request_text args bs" and "\<forall>d\<in>set args. length d < 2 ^ 64 - 2"
  shows "\<exists>p'. parse p (bs @ rest) = Some (Inr (Some args), p', rest)"
proof -
  obtain n ds bss where n: "number_text n ds" "length args = unat n" "list_all2 bulk_text args bss"
    "bs = 42 # ds @ 13 # 10 # concat bss"
    using assms(2) by (auto simp: request_text_def)
  have ll: "length_line 42 (bs @ rest) = Some (Inr n, concat bss @ rest)"
    using n by (auto simp: length_line_iff)
  show ?thesis
  proof (cases "args = []")
    case True
    with n have "n = 0" "bss = []" by (metis list.size(3) unat_eq_zero) (use True n(3) in simp)
    with assms(1) ll True show ?thesis by (subst parse.simps) simp
  next
    case False
    with n(2) have "n \<noteq> 0" by auto
    with parse_bulks [OF n(3) assms(3) _ False, of "p\<lparr>p_args := [], p_remaining := n, p_state := BulkLen\<rparr>" rest]
      n(2) assms(1) ll show ?thesis by (subst parse.simps) simp
  qed
qed

section \<open>Progress, and the only panic\<close>

lemma parse_length:
  "parse p buf = Some (r, p', buf') \<Longrightarrow>
    length buf' \<le> length buf \<and> (r \<noteq> Inr None \<longrightarrow> length buf' < length buf)"
proof (induction p buf rule: parse.induct)
  case (1 p buf)
  show ?case
  proof (cases "p_state p")
    case ArrayLen
    show ?thesis
    proof (cases "length_line 42 buf")
      case (Some rb)
      obtain x b where rb: "rb = (x, b)" by (cases rb)
      note ll = Some [unfolded rb]
      show ?thesis
      proof (cases x)
        case (Inr n)
        from 1(1) [OF ArrayLen ll refl Inr refl] 1(4) ArrayLen ll Inr length_line_shorter [OF ll]
        show ?thesis unfolding parse.simps [of p buf] by (auto simp: Let_def split: if_splits)
      qed (use 1(4) ArrayLen ll length_line_shorter [OF ll] in \<open>auto simp: parse.simps [of p buf]\<close>)
    qed (use 1(4) ArrayLen in \<open>auto simp: parse.simps [of p buf]\<close>)
  next
    case BulkLen
    show ?thesis
    proof (cases "length_line 36 buf")
      case (Some rb)
      obtain x b where rb: "rb = (x, b)" by (cases rb)
      note ll = Some [unfolded rb]
      show ?thesis
        using 1(2) [OF BulkLen ll] 1(4) BulkLen ll length_line_shorter [OF ll]
        unfolding parse.simps [of p buf] by (cases x) auto
    qed (use 1(4) BulkLen in \<open>auto simp: parse.simps [of p buf]\<close>)
  next
    case BulkData
    show ?thesis
    proof (cases "length buf < unat (p_bulk_len p + 2)")
      case False
      with BulkData 1(4) obtain d b1 bad b2 where st: "split_to (unat (p_bulk_len p)) buf = Some (d, b1)"
        "bad_crlf b1 = Some (bad, b2)"
        by (subst (asm) parse.simps) (auto simp: bind_eq_Some_conv)
      show ?thesis
        using 1(3) [OF BulkData False st(1) refl st(2) refl] 1(4) BulkData False st
          split_to_length [OF st(1)] bad_crlf_shorter [OF st(2)]
        unfolding parse.simps [of p buf] by (auto simp: Let_def split: if_splits)
    qed (use 1(4) BulkData in \<open>auto simp: parse.simps [of p buf]\<close>)
  qed
qed

text \<open>
  \<open>huge_bulk buf\<close>: the buffer announces a bulk string of at least \<open>2 ^ 64 - 2\<close> bytes. There
  \<open>bulk_len + 2\<close> wraps around, and the split that follows is out of range; nothing else panics.
\<close>

definition huge_bulk :: "bytes \<Rightarrow> bool" where
  "huge_bulk buf \<longleftrightarrow>
     (\<exists>pre n ds rest. buf = pre @ 36 # ds @ 13 # 10 # rest \<and> number_text n ds \<and> 2 ^ 64 - 2 \<le> unat n)"

lemma huge_bulk_append: "huge_bulk buf \<Longrightarrow> huge_bulk (pre @ buf)"
  unfolding huge_bulk_def by (metis append_assoc)

lemma split_bad_total:
  assumes "unat n + 2 \<le> length buf"
  shows "\<exists>d b1 bad b2. split_to (unat n) buf = Some (d, b1) \<and> bad_crlf b1 = Some (bad, b2) \<and>
    (\<not> bad \<longrightarrow> buf = d @ 13 # 10 # b2)"
proof -
  have st: "split_to (unat n) buf = Some (take (unat n) buf, drop (unat n) buf)"
    using assms by (simp add: split_to_def)
  have "2 \<le> length (drop (unat n) buf)" using assms by simp
  then obtain a b bs where "drop (unat n) buf = a # b # bs"
    by (cases "drop (unat n) buf" rule: split_crlf.cases) auto
  then obtain bad b2 where bad: "bad_crlf (drop (unat n) buf) = Some (bad, b2)"
    by (cases "a = 13") (auto simp: bad_crlf_def)
  have "buf = take (unat n) buf @ 13 # 10 # b2" if "\<not> bad"
    using bad bad_crlf_False [of "drop (unat n) buf" b2] append_take_drop_id [of "unat n" buf] that by metis
  with st bad show ?thesis by blast
qed

lemma parse_panics:
  "parse p buf = None \<Longrightarrow> huge_bulk buf \<or> p_state p = BulkData \<and> 2 ^ 64 - 2 \<le> unat (p_bulk_len p)"
proof (induction p buf rule: parse.induct)
  case (1 p buf)
  show ?case
  proof (cases "p_state p")
    case ArrayLen
    with 1(4) obtain n b where ll: "length_line 42 buf = Some (Inr n, b)"
      by (subst (asm) parse.simps) (auto split: option.splits sum.splits)
    with 1(1) [OF ArrayLen ll refl refl refl] 1(4) ArrayLen have "huge_bulk b"
      by (subst (asm) (2) parse.simps) (auto simp: Let_def split: if_splits)
    moreover obtain ds where "buf = (42 # ds @ [13, 10]) @ b" using ll by (auto simp: length_line_iff)
    ultimately show ?thesis using huge_bulk_append by blast
  next
    case BulkLen
    with 1(4) obtain n b where ll: "length_line 36 buf = Some (Inr n, b)"
      by (subst (asm) parse.simps) (auto split: option.splits sum.splits)
    with 1(2) [OF BulkLen ll refl] 1(4) BulkLen have "huge_bulk b \<or> 2 ^ 64 - 2 \<le> unat n"
      by (subst (asm) (2) parse.simps) auto
    moreover obtain ds where ds: "number_text n ds" "buf = 36 # ds @ 13 # 10 # b"
      using ll by (auto simp: length_line_iff)
    ultimately show ?thesis
      using huge_bulk_append [of b "36 # ds @ [13, 10]"] unfolding huge_bulk_def
      by (metis (no_types, lifting) append_Cons append_Nil append_assoc)
  next
    case BulkData
    show ?thesis
    proof (cases "2 ^ 64 - 2 \<le> unat (p_bulk_len p)")
      case True
      with BulkData show ?thesis by simp
    next
      case False
      then have sum: "unat (p_bulk_len p + 2) = unat (p_bulk_len p) + 2" by (simp add: bulk_len_plus_2)
      have len: "\<not> length buf < unat (p_bulk_len p + 2)"
        using 1(4) BulkData by (subst (asm) parse.simps) (auto split: if_splits)
      then obtain d b1 bad b2 where st: "split_to (unat (p_bulk_len p)) buf = Some (d, b1)"
        "bad_crlf b1 = Some (bad, b2)" and buf: "\<not> bad \<Longrightarrow> buf = d @ 13 # 10 # b2"
        using split_bad_total [of "p_bulk_len p" buf] sum by auto
      from 1(4) BulkData len st have "\<not> bad" by (subst (asm) parse.simps) (auto split: if_splits)
      with 1(3) [OF BulkData len st(1) refl st(2) refl _ refl] 1(4) BulkData len st have "huge_bulk b2"
        by (subst (asm) (2) parse.simps) (auto simp: Let_def split: if_splits)
      with buf [OF \<open>\<not> bad\<close>] huge_bulk_append [of b2 "d @ [13, 10]"] show ?thesis by simp
    qed
  qed
qed

text \<open>A panic does not depend on what follows in a buffer of realistic size.\<close>

lemma parse_panic_append:
  "parse p buf = None \<Longrightarrow> length (buf @ suf) < 2 ^ 64 - 2 \<Longrightarrow> parse p (buf @ suf) = None"
proof (induction p buf rule: parse.induct)
  case (1 p buf)
  show ?case
  proof (cases "p_state p")
    case ArrayLen
    with 1(4) obtain n b where ll: "length_line 42 buf = Some (Inr n, b)"
      by (subst (asm) parse.simps) (auto split: option.splits sum.splits)
    with 1(1) [OF ArrayLen ll refl refl refl] 1(4,5) ArrayLen length_line_append [OF ll, of suf]
      length_line_shorter [OF ll]
    show ?thesis unfolding parse.simps [of p buf] parse.simps [of p "buf @ suf"]
      by (auto simp: Let_def split: if_splits)
  next
    case BulkLen
    with 1(4) obtain n b where ll: "length_line 36 buf = Some (Inr n, b)"
      by (subst (asm) parse.simps) (auto split: option.splits sum.splits)
    with 1(2) [OF BulkLen ll refl] 1(4,5) BulkLen length_line_append [OF ll, of suf] length_line_shorter [OF ll]
    show ?thesis unfolding parse.simps [of p buf] parse.simps [of p "buf @ suf"] by auto
  next
    case BulkData
    have len: "\<not> length buf < unat (p_bulk_len p + 2)"
      using 1(4) BulkData by (subst (asm) parse.simps) (auto split: if_splits)
    show ?thesis
    proof (cases "2 ^ 64 - 2 \<le> unat (p_bulk_len p)")
      case True
      with 1(5) have "split_to (unat (p_bulk_len p)) (buf @ suf) = None" by (simp add: split_to_def)
      with len BulkData show ?thesis by (subst parse.simps) simp
    next
      case False
      then have "unat (p_bulk_len p + 2) = unat (p_bulk_len p) + 2" by (simp add: bulk_len_plus_2)
      with len obtain d b1 bad b2 where st: "split_to (unat (p_bulk_len p)) buf = Some (d, b1)"
        "bad_crlf b1 = Some (bad, b2)"
        using split_bad_total [of "p_bulk_len p" buf] by auto
      from 1(4) BulkData len st have "\<not> bad" by (subst (asm) parse.simps) (auto split: if_splits)
      with 1(3) [OF BulkData len st(1) refl st(2) refl _ refl] 1(4,5) BulkData len st
        split_to_append [OF st(1), of suf] bad_crlf_append [OF st(2), of suf]
        split_to_length [OF st(1)] bad_crlf_shorter [OF st(2)]
      show ?thesis unfolding parse.simps [of p buf] parse.simps [of p "buf @ suf"]
        by (auto simp: Let_def split: if_splits)
    qed
  qed
qed

end
