(* ===== verification/Float64.thy ===== *)
theory Float64
  imports HKV_Prelude Decimal
begin

text \<open>
  The \<^verbatim>\<open>f64\<close> arithmetic the sources use, on the non-negative numbers that occur in them (counters,
  durations, percentages). A value is its exact rational; every operation rounds its exact result
  to 53 significant bits, ties to even. The numbers stay between \<open>2 ^ -64\<close> and \<open>2 ^ 128\<close>, so that
  neither subnormal numbers nor infinities arise; a quotient whose divisor may be 0 is a value of
  \<open>f64_quotient\<close>. \<open>fmt_fixed\<close> is the format \<^verbatim>\<open>{:.k}\<close> of the standard library, which rounds the exact value to \<open>k\<close>
  decimals, ties to even.
\<close>

section \<open>Rounding\<close>

definition round_half_even :: "rat \<Rightarrow> int" where
  "round_half_even x =
     (let f = \<lfloor>x\<rfloor>; d = x - of_int f in
      if d < 1 / 2 then f else if 1 / 2 < d then f + 1 else if even f then f else f + 1)"

fun bit_length :: "nat \<Rightarrow> nat" where
  "bit_length n = (if n = 0 then 0 else Suc (bit_length (n div 2)))"

declare bit_length.simps [simp del]

definition pow2 :: "int \<Rightarrow> rat" where
  "pow2 e = (if 0 \<le> e then 2 ^ nat e else 1 / 2 ^ nat (- e))"

text \<open>The exponent \<open>e\<close> with \<open>2 ^ e \<le> x < 2 ^ (e + 1)\<close>.\<close>

definition f64_exponent :: "rat \<Rightarrow> int" where
  "f64_exponent x =
     (let (a, b) = quotient_of x;
          e = int (bit_length (nat a)) - int (bit_length (nat b)) in
      if pow2 e \<le> x then e else e - 1)"

definition f64_round :: "rat \<Rightarrow> rat" where
  "f64_round x =
     (if x = 0 then 0
      else let e = f64_exponent x - 52 in of_int (round_half_even (x / pow2 e)) * pow2 e)"

definition f64_of_u64 :: "u64 \<Rightarrow> rat" where
  "f64_of_u64 w = f64_round (of_nat (unat w))"

definition f64_mul :: "rat \<Rightarrow> rat \<Rightarrow> rat" where
  "f64_mul x y = f64_round (x * y)"

definition f64_div :: "rat \<Rightarrow> rat \<Rightarrow> rat" where
  "f64_div x y = f64_round (x / y)"

definition f64_add :: "rat \<Rightarrow> rat \<Rightarrow> rat" where
  "f64_add x y = f64_round (x + y)"

text \<open>\<^verbatim>\<open>x.ceil() as u64\<close>, saturating.\<close>

definition f64_ceil_u64 :: "rat \<Rightarrow> u64" where
  "f64_ceil_u64 x = of_nat (min (nat \<lceil>x\<rceil>) u64_max)"

definition f64_epsilon :: rat where
  "f64_epsilon = 1 / 2 ^ 52"

text \<open>The last \<open>k\<close> decimal digits of a number, and \<^verbatim>\<open>{:.k}\<close>.\<close>

fun low_digits :: "nat \<Rightarrow> nat \<Rightarrow> bytes" where
  "low_digits 0 m = []"
| "low_digits (Suc k) m = low_digits k (m div 10) @ [48 + of_nat (m mod 10)]"

definition fmt_fixed :: "nat \<Rightarrow> rat \<Rightarrow> bytes" where
  "fmt_fixed k x = (let m = nat (round_half_even (x * 10 ^ k)) in
     dec_digits (m div 10 ^ k) @ (if k = 0 then [] else 46 # low_digits k m))"

definition fmt3 :: "rat \<Rightarrow> bytes" where
  "fmt3 = fmt_fixed 3"

text \<open>A quotient whose divisor may be 0, and its text.\<close>

datatype f64_quotient = Finite rat | Infinite | Not_A_Number

definition f64_quot :: "rat \<Rightarrow> rat \<Rightarrow> f64_quotient" where
  "f64_quot x y = (if y = 0 then (if x = 0 then Not_A_Number else Infinite) else Finite (f64_div x y))"

fun fmt_quotient :: "nat \<Rightarrow> f64_quotient \<Rightarrow> bytes" where
  "fmt_quotient k (Finite x) = fmt_fixed k x"
| "fmt_quotient k Infinite = ascii ''inf''"
| "fmt_quotient k Not_A_Number = ascii ''NaN''"

section \<open>Exact values\<close>

lemma pow2_pos [simp]: "0 < pow2 e"
  by (simp add: pow2_def)

lemma pow2_nonneg [simp]: "0 \<le> pow2 e"
  using pow2_pos [of e] by (rule less_imp_le)

lemma pow2_neq [simp]: "pow2 e \<noteq> 0"
  using pow2_pos [of e] by linarith

lemma pow2_add: "pow2 (a + b) = pow2 a * pow2 b"
proof -
  have "pow2 e = 2 powi e" for e
    by (simp add: pow2_def power_int_def inverse_eq_divide power_one_over)
  then show ?thesis by (simp add: power_int_add)
qed

lemma pow2_nat [simp]: "pow2 (int n) = 2 ^ n"
  by (simp add: pow2_def)

lemma pow2_mono: "a \<le> b \<Longrightarrow> pow2 a \<le> pow2 b"
proof -
  assume "a \<le> b"
  have "pow2 b = pow2 a * pow2 (b - a)" using pow2_add [of a "b - a"] by simp
  moreover have "1 \<le> pow2 (b - a)" using \<open>a \<le> b\<close> by (simp add: pow2_def)
  from mult_left_mono [OF this, of "pow2 a"] have "pow2 a \<le> pow2 a * pow2 (b - a)"
    using pow2_pos [of a] by simp
  ultimately show ?thesis by simp
qed

lemma round_half_even_int [simp]: "round_half_even (of_int i) = i"
  by (simp add: round_half_even_def)

lemma bit_length_bounds: "0 < n \<Longrightarrow> 2 ^ (bit_length n - 1) \<le> n \<and> n < 2 ^ bit_length n \<and> 0 < bit_length n"
proof (induction n rule: bit_length.induct)
  case (1 n)
  show ?case
  proof (cases "n = 1")
    case True
    then show ?thesis by (simp add: bit_length.simps)
  next
    case False
    with 1 have IH: "2 ^ (bit_length (n div 2) - 1) \<le> n div 2" "n div 2 < 2 ^ bit_length (n div 2)"
      "0 < bit_length (n div 2)" by auto
    have bl: "bit_length n = Suc (bit_length (n div 2))" using 1(2) by (simp add: bit_length.simps [of n])
    have "2 * 2 ^ (bit_length (n div 2) - 1) \<le> n" using IH(1) by linarith
    moreover have "2 * 2 ^ (bit_length (n div 2) - 1) = (2 :: nat) ^ bit_length (n div 2)"
      using IH(3) by (simp flip: power_Suc)
    moreover have "n < 2 * 2 ^ bit_length (n div 2)" using IH(2) by linarith
    ultimately show ?thesis using bl by simp
  qed
qed

lemma f64_exponent_bounds:
  assumes "0 < x"
  shows "pow2 (f64_exponent x) \<le> x \<and> x < pow2 (f64_exponent x + 1)"
proof -
  obtain a b where ab: "quotient_of x = (a, b)" by (cases "quotient_of x")
  have b: "0 < b" using quotient_of_denom_pos [OF ab] .
  have x: "x = of_int a / of_int b" using quotient_of_div [OF ab] .
  have a: "0 < a" using assms b by (simp add: x zero_less_divide_iff)
  define p q where "p = bit_length (nat a)" and "q = bit_length (nat b)"
  have pa: "2 ^ (p - 1) \<le> nat a" "nat a < 2 ^ p" "0 < p" and qb: "2 ^ (q - 1) \<le> nat b" "nat b < 2 ^ q" "0 < q"
    using bit_length_bounds [of "nat a"] bit_length_bounds [of "nat b"] a b by (auto simp: p_def q_def)
  have of_a: "(of_int a :: rat) = of_nat (nat a)" and of_b: "(of_int b :: rat) = of_nat (nat b)"
    using a b by simp_all
  have "(of_nat (nat a) :: rat) < of_nat (2 ^ p)" using pa(2) by (rule of_nat_less_iff [THEN iffD2])
  then have upa: "(of_int a :: rat) < pow2 (int p)" by (simp add: of_a)
  have "(of_nat (2 ^ (p - 1)) :: rat) \<le> of_nat (nat a)" using pa(1) by (rule of_nat_mono)
  then have lpa: "pow2 (int (p - 1)) \<le> of_int a" by (simp add: of_a)
  have "(of_nat (nat b) :: rat) < of_nat (2 ^ q)" using qb(2) by (rule of_nat_less_iff [THEN iffD2])
  then have uqb: "(of_int b :: rat) < pow2 (int q)" by (simp add: of_b)
  have "(of_nat (2 ^ (q - 1)) :: rat) \<le> of_nat (nat b)" using qb(1) by (rule of_nat_mono)
  then have lqb: "pow2 (int (q - 1)) \<le> of_int b" by (simp add: of_b)
  let ?e = "int p - int q"
  have up: "x < pow2 (?e + 1)"
  proof -
    have "pow2 (?e + 1) * pow2 (int (q - 1)) = pow2 (int p)"
      using qb(3) by (simp flip: pow2_add add: of_nat_diff del: pow2_nat)
    moreover have "pow2 (?e + 1) * pow2 (int (q - 1)) \<le> pow2 (?e + 1) * of_int b"
      using lqb by (intro mult_left_mono) simp_all
    ultimately have "of_int a < pow2 (?e + 1) * of_int b" using upa by linarith
    then show ?thesis using b by (simp add: x pos_divide_less_eq)
  qed
  have low: "pow2 (?e - 1) \<le> x"
  proof -
    have "pow2 (?e - 1) * pow2 (int q) = pow2 (int (p - 1))"
      using pa(3) by (simp flip: pow2_add add: of_nat_diff del: pow2_nat)
    moreover have "pow2 (?e - 1) * of_int b \<le> pow2 (?e - 1) * pow2 (int q)"
      using uqb by (intro mult_left_mono) simp_all
    ultimately have "pow2 (?e - 1) * of_int b \<le> of_int a" using lpa by linarith
    then show ?thesis using b by (simp add: x pos_le_divide_eq)
  qed
  show ?thesis
    using up low by (auto simp: f64_exponent_def ab p_def q_def Let_def)
qed

text \<open>A number whose significand is an integer of at most 53 bits is not rounded.\<close>

lemma f64_round_exact:
  assumes "x = of_int i * pow2 d" and "0 \<le> i" and "i < 2 ^ 53"
  shows "f64_round x = x"
proof (cases "i = 0")
  case True
  with assms show ?thesis by (simp add: f64_round_def)
next
  case False
  with assms have pos: "0 < x" by simp
  define e where "e = f64_exponent x"
  have e: "pow2 e \<le> x" "x < pow2 (e + 1)" using f64_exponent_bounds [OF pos] by (auto simp: e_def)
  have "(of_int i :: rat) < of_int (2 ^ 53)" using assms(3) by (rule of_int_less_iff [THEN iffD2])
  then have "of_int i < pow2 53" by (simp add: pow2_def)
  then have "x < pow2 (53 + d)" using assms(1) by (simp add: pow2_add)
  with e(1) have "pow2 e < pow2 (53 + d)" by simp
  then have "e < 53 + d" using pow2_mono [of "53 + d" e] by linarith
  then have "pow2 d = of_int (2 ^ nat (d - (e - 52))) * pow2 (e - 52)"
    using pow2_add [of "d - (e - 52)" "e - 52"] by (simp add: pow2_def)
  then have "x / pow2 (e - 52) = of_int (i * 2 ^ nat (d - (e - 52)))" using assms(1) by simp
  then show ?thesis
    using pos by (simp add: f64_round_def e_def [symmetric] Let_def del: of_int_mult)
      (metis nonzero_eq_divide_eq pow2_neq)
qed

lemma f64_round_nat: "n < 2 ^ 53 \<Longrightarrow> f64_round (of_nat n) = of_nat n"
  by (rule f64_round_exact [of _ "int n" 0]) (simp_all add: pow2_def)

lemma f64_of_u64_exact: "unat w < 2 ^ 53 \<Longrightarrow> f64_of_u64 w = of_nat (unat w)"
  unfolding f64_of_u64_def by (rule f64_round_nat)

text \<open>Rounding a number of a known binade: the way concrete values are computed.\<close>

lemma f64_exponent_eq:
  assumes "pow2 e \<le> x" and "x < pow2 (e + 1)"
  shows "f64_exponent x = e"
proof -
  have "0 < x" using pow2_pos [of e] assms(1) by linarith
  note b = f64_exponent_bounds [OF this]
  have "pow2 e < pow2 (f64_exponent x + 1)" "pow2 (f64_exponent x) < pow2 (e + 1)"
    using b assms by linarith+
  then have "e < f64_exponent x + 1" "f64_exponent x < e + 1"
    using pow2_mono [of "f64_exponent x + 1" e] pow2_mono [of "e + 1" "f64_exponent x"] by linarith+
  then show ?thesis by simp
qed

lemma f64_round_eq:
  assumes "pow2 e \<le> x" and "x < pow2 (e + 1)" and "\<bar>x / pow2 (e - 52) - of_int m\<bar> < 1 / 2"
  shows "f64_round x = of_int m * pow2 (e - 52)"
proof -
  have "0 < x" using pow2_pos [of e] assms(1) by linarith
  moreover have "round_half_even y = m" if "\<bar>y - of_int m\<bar> < 1 / 2" for y
  proof (cases "of_int m \<le> y")
    case True
    with that have "\<lfloor>y\<rfloor> = m" by (intro floor_unique) linarith+
    with that True show ?thesis by (simp add: round_half_even_def)
  next
    case False
    with that have "\<lfloor>y\<rfloor> = m - 1" by (intro floor_unique) (unfold of_int_diff of_int_1, linarith+)
    with that False show ?thesis by (simp add: round_half_even_def)
  qed
  ultimately show ?thesis
    using assms(3) f64_exponent_eq [OF assms(1,2)] by (simp add: f64_round_def Let_def)
qed

end
