(* ===== verification/Metrics.thy ===== *)
theory Metrics
  imports Float64 Shard_LRU
begin

text \<open>
  The server's counters and latency histogram (\<^verbatim>\<open>hkv-server/src/metrics.rs\<close>). Counters are \<^verbatim>\<open>u64\<close> and
  wrap around; a record or a snapshot is one step.

  The lemmas describe a histogram by the list of latencies it has recorded: the buckets partition
  the samples, and a percentile query returns the least bucket bound that enough samples meet.
\<close>

section \<open>The histogram\<close>

record latency_histogram =
  h_bounds_us :: "u64 list"
  h_buckets :: "u64 list"
  h_sum_us :: u64
  h_samples :: u64
  h_max_us :: u64

definition histogram_new :: "u64 list \<Rightarrow> latency_histogram" where
  "histogram_new bounds_us =
     \<lparr>h_bounds_us = bounds_us, h_buckets = replicate (length bounds_us + 1) 0,
      h_sum_us = 0, h_samples = 0, h_max_us = 0\<rparr>"

text \<open>
  \<^verbatim>\<open>update_max\<close>: with no other writer the first compare-and-exchange succeeds.
\<close>

definition update_max :: "u64 \<Rightarrow> u64 \<Rightarrow> u64" where
  "update_max current value = (if value > current then value else current)"

definition as_micros :: "duration \<Rightarrow> u64" where
  "as_micros d = of_nat (d div 1000)"

fun bucket_index :: "u64 list \<Rightarrow> u64 \<Rightarrow> nat" where
  "bucket_index [] micros = 0"
| "bucket_index (bound # bounds) micros =
     (if micros \<le> bound then 0 else Suc (bucket_index bounds micros))"

definition histogram_record :: "latency_histogram \<Rightarrow> duration \<Rightarrow> latency_histogram exec" where
  "histogram_record h latency = do {
     let micros = as_micros latency;
     let h = h\<lparr>h_samples := h_samples h + 1, h_sum_us := h_sum_us h + micros,
               h_max_us := update_max (h_max_us h) micros\<rparr>;
     buckets \<leftarrow> update_at (h_buckets h) (bucket_index (h_bounds_us h) micros) (\<lambda>c. c + 1);
     Some (h\<lparr>h_buckets := buckets\<rparr>)
   }"

section \<open>Snapshots\<close>

record latency_snapshot =
  l_bounds_us :: "u64 list"
  l_buckets :: "u64 list"
  l_samples :: u64
  l_sum_us :: u64
  l_max_us :: u64

definition histogram_snapshot :: "latency_histogram \<Rightarrow> latency_snapshot" where
  "histogram_snapshot h =
     \<lparr>l_bounds_us = h_bounds_us h, l_buckets = h_buckets h, l_samples = h_samples h,
      l_sum_us = h_sum_us h, l_max_us = h_max_us h\<rparr>"

definition average_us :: "latency_snapshot \<Rightarrow> rat option" where
  "average_us l =
     (if l_samples l = 0 then None else Some (f64_div (f64_of_u64 (l_sum_us l)) (f64_of_u64 (l_samples l))))"

fun percentile_scan :: "u64 list \<Rightarrow> u64 \<Rightarrow> u64 \<Rightarrow> u64 \<Rightarrow> u64 list \<Rightarrow> nat \<Rightarrow> u64" where
  "percentile_scan bounds mx target cumulative [] idx = mx"
| "percentile_scan bounds mx target cumulative (count # counts) idx =
     (let cumulative = saturating_add cumulative count in
      if cumulative < target then percentile_scan bounds mx target cumulative counts (idx + 1)
      else if idx < length bounds then bounds ! idx else mx)"

definition percentile_rank :: "u64 \<Rightarrow> rat \<Rightarrow> u64" where
  "percentile_rank samples percentile =
     f64_ceil_u64 (f64_mul (f64_of_u64 samples) (f64_div percentile 100))"

definition percentile_us :: "latency_snapshot \<Rightarrow> rat \<Rightarrow> u64 option" where
  "percentile_us l percentile =
     (if l_samples l = 0 \<or> \<not> (0 \<le> percentile \<and> percentile \<le> 100) \<or> percentile = 0 then None
      else let target = max (percentile_rank (l_samples l) percentile) 1 in
        Some (percentile_scan (l_bounds_us l) (l_max_us l) target 0 (l_buckets l) 0))"

section \<open>The counters\<close>

definition default_latency_buckets_us :: "u64 list" where
  "default_latency_buckets_us = [1, 2, 5, 10, 20, 50, 100, 200, 500, 1000, 2000, 5000]"

record metrics =
  m_requests_total :: u64
  m_errors_total :: u64
  m_inflight :: u64
  m_latency :: latency_histogram
  m_started_at :: instant

definition with_latency_buckets :: "instant \<Rightarrow> u64 list \<Rightarrow> metrics" where
  "with_latency_buckets now bounds_us =
     \<lparr>m_requests_total = 0, m_errors_total = 0, m_inflight = 0,
      m_latency = histogram_new bounds_us, m_started_at = now\<rparr>"

definition metrics_new :: "instant \<Rightarrow> metrics" where
  "metrics_new now = with_latency_buckets now default_latency_buckets_us"

definition record_request_start :: "metrics \<Rightarrow> metrics" where
  "record_request_start m =
     m\<lparr>m_requests_total := m_requests_total m + 1, m_inflight := m_inflight m + 1\<rparr>"

definition record_request_end :: "metrics \<Rightarrow> duration \<Rightarrow> metrics exec" where
  "record_request_end m latency = do {
     h \<leftarrow> histogram_record (m_latency m) latency;
     Some (m\<lparr>m_inflight := m_inflight m - 1, m_latency := h\<rparr>)
   }"

definition record_error :: "metrics \<Rightarrow> metrics" where
  "record_error m = m\<lparr>m_errors_total := m_errors_total m + 1\<rparr>"

record metrics_snapshot =
  ms_requests_total :: u64
  ms_errors_total :: u64
  ms_inflight :: u64
  ms_uptime :: duration
  ms_latency :: latency_snapshot

text \<open>\<^verbatim>\<open>Instant::elapsed\<close> saturates at zero.\<close>

definition elapsed :: "instant \<Rightarrow> instant \<Rightarrow> duration" where
  "elapsed since now = now - since"

definition metrics_snapshot_at :: "metrics \<Rightarrow> instant \<Rightarrow> metrics_snapshot" where
  "metrics_snapshot_at m now =
     \<lparr>ms_requests_total = m_requests_total m, ms_errors_total = m_errors_total m,
      ms_inflight = m_inflight m, ms_uptime = elapsed (m_started_at m) now,
      ms_latency = histogram_snapshot (m_latency m)\<rparr>"

text \<open>\<^verbatim>\<open>Duration::as_secs_f64\<close>: whole seconds plus the nanoseconds over \<open>10 ^ 9\<close>.\<close>

definition as_secs_f64 :: "duration \<Rightarrow> rat" where
  "as_secs_f64 d = f64_add (f64_of_u64 (of_nat (d div nanos_per_sec)))
     (f64_div (f64_of_u64 (of_nat (d mod nanos_per_sec))) (of_nat nanos_per_sec))"

definition qps :: "metrics_snapshot \<Rightarrow> rat" where
  "qps s = (let uptime_secs = as_secs_f64 (ms_uptime s) in
     if uptime_secs \<le> f64_epsilon then f64_of_u64 (ms_requests_total s)
     else f64_div (f64_of_u64 (ms_requests_total s)) uptime_secs)"

definition error_rate :: "metrics_snapshot \<Rightarrow> rat" where
  "error_rate s =
     (if ms_requests_total s = 0 then 0
      else f64_div (f64_of_u64 (ms_errors_total s)) (f64_of_u64 (ms_requests_total s)))"

section \<open>What a histogram has recorded\<close>

text \<open>How many samples fall into the bucket \<open>i\<close>.\<close>

definition bucket_count :: "u64 list \<Rightarrow> u64 list \<Rightarrow> nat \<Rightarrow> nat" where
  "bucket_count bounds xs i = length (filter (\<lambda>x. bucket_index bounds x = i) xs)"

text \<open>\<open>hist_of h xs\<close>: the histogram holds the samples \<open>xs\<close>, in microseconds.\<close>

definition hist_of :: "latency_histogram \<Rightarrow> u64 list \<Rightarrow> bool" where
  "hist_of h xs \<longleftrightarrow>
     h_buckets h = map (\<lambda>i. of_nat (bucket_count (h_bounds_us h) xs i)) [0..<length (h_bounds_us h) + 1] \<and>
     h_samples h = of_nat (length xs) \<and> h_sum_us h = sum_list xs \<and> h_max_us h = fold max xs 0"

lemma bucket_index_le: "bucket_index bounds x \<le> length bounds"
  by (induction bounds) auto

text \<open>
  What a bucket is for, said without the search: bucket \<open>i\<close> takes the samples above all bounds before the
  \<open>i\<close>-th and not above the \<open>i\<close>-th; the last bucket takes those above every bound.
\<close>

definition in_bucket :: "u64 list \<Rightarrow> nat \<Rightarrow> u64 \<Rightarrow> bool" where
  "in_bucket bounds i x \<longleftrightarrow> (\<forall>b\<in>set (take i bounds). b < x) \<and> (i < length bounds \<longrightarrow> x \<le> bounds ! i)"

lemma bucket_index_in_bucket: "i \<le> length bounds \<Longrightarrow> bucket_index bounds x = i \<longleftrightarrow> in_bucket bounds i x"
proof (induction bounds arbitrary: i)
  case (Cons b bounds)
  then show ?case by (cases i) (auto simp: in_bucket_def)
qed (simp add: in_bucket_def)

lemma hist_of_buckets:
  assumes "hist_of h xs"
  shows "h_buckets h = map (\<lambda>i. of_nat (length (filter (in_bucket (h_bounds_us h) i) xs))) [0..<length (h_bounds_us h) + 1]"
proof -
  have "bucket_count (h_bounds_us h) xs i = length (filter (in_bucket (h_bounds_us h) i) xs)"
    if "i < length (h_bounds_us h) + 1" for i
    using that by (simp add: bucket_count_def bucket_index_in_bucket)
  with assms show ?thesis by (simp add: hist_of_def del: upt_Suc)
qed

lemma hist_of_new: "hist_of (histogram_new bounds) []"
  by (simp add: hist_of_def histogram_new_def bucket_count_def map_replicate_const)

lemma update_max_max: "update_max a b = max b a"
  by (auto simp: update_max_def max_def)

lemma hist_of_record:
  assumes "hist_of h xs"
  shows "\<exists>h'. histogram_record h d = Some h' \<and> hist_of h' (xs @ [as_micros d]) \<and>
    h_bounds_us h' = h_bounds_us h"
proof -
  let ?x = "as_micros d" and ?b = "h_bounds_us h"
  let ?i = "bucket_index ?b ?x"
  have len: "?i < length (h_buckets h)"
    using assms bucket_index_le [of ?b ?x] by (simp add: hist_of_def)
  have "(h_buckets h)[?i := h_buckets h ! ?i + 1] =
      map (\<lambda>i. of_nat (bucket_count ?b (xs @ [?x]) i)) [0..<length ?b + 1]"
  proof (rule nth_equalityI)
    fix j assume "j < length ((h_buckets h)[?i := h_buckets h ! ?i + 1])"
    then have "j < length ?b + 1" using assms by (simp add: hist_of_def)
    then show "(h_buckets h)[?i := h_buckets h ! ?i + 1] ! j =
        map (\<lambda>i. of_nat (bucket_count ?b (xs @ [?x]) i)) [0..<length ?b + 1] ! j"
      using assms by (auto simp: hist_of_def nth_list_update bucket_count_def nth_append simp del: upt_Suc)
  qed (use assms in \<open>simp add: hist_of_def\<close>)
  with assms len show ?thesis
    by (simp add: histogram_record_def hist_of_def update_max_max Let_def del: upt_Suc)
qed

section \<open>Percentiles\<close>

definition count_le :: "u64 list \<Rightarrow> u64 \<Rightarrow> nat" where
  "count_le xs b = length (filter (\<lambda>x. x \<le> b) xs)"

text \<open>The least bound that at least \<open>target\<close> samples meet, the maximum when no bound does.\<close>

definition percentile_spec :: "u64 list \<Rightarrow> u64 list \<Rightarrow> nat \<Rightarrow> u64" where
  "percentile_spec bounds xs target =
     (case find (\<lambda>b. target \<le> count_le xs b) bounds of Some b \<Rightarrow> b | None \<Rightarrow> fold max xs 0)"

lemma bucket_index_le_iff:
  "sorted bounds \<Longrightarrow> i < length bounds \<Longrightarrow> bucket_index bounds x \<le> i \<longleftrightarrow> x \<le> bounds ! i"
proof (induction bounds arbitrary: i)
  case (Cons b bounds)
  show ?case
  proof (cases i)
    case 0
    then show ?thesis by simp
  next
    case (Suc j)
    with Cons.prems have "b \<le> bounds ! j" by simp
    with Suc Cons show ?thesis by (auto dest: order.trans)
  qed
qed simp

lemma bucket_count_step:
  "length (filter (\<lambda>x. bucket_index bounds x < i) xs) + bucket_count bounds xs i =
    length (filter (\<lambda>x. bucket_index bounds x \<le> i) xs)"
  by (induction xs) (auto simp: bucket_count_def)

lemma saturating_add_of_nat:
  "a + b \<le> u64_max \<Longrightarrow> saturating_add (of_nat a) (of_nat b :: u64) = of_nat (a + b)"
  by (simp add: saturating_add_def unat_of_nat take_bit_eq_mod)

lemma percentile_scan_spec:
  assumes "sorted bounds" and "length xs \<le> u64_max" and "idx \<le> length bounds"
  shows "percentile_scan bounds mx target (of_nat (length (filter (\<lambda>x. bucket_index bounds x < idx) xs)))
      (map (\<lambda>i. of_nat (bucket_count bounds xs i)) [idx..<length bounds + 1]) idx =
    (case find (\<lambda>b. unat target \<le> count_le xs b) (drop idx bounds) of Some b \<Rightarrow> b | None \<Rightarrow> mx)"
  using assms(3)
proof (induction "length bounds - idx" arbitrary: idx)
  case 0
  then show ?case by (simp add: Let_def)
next
  case (Suc k)
  then have idx: "idx < length bounds" by simp
  let ?lt = "length (filter (\<lambda>x. bucket_index bounds x < idx) xs)"
  let ?le = "length (filter (\<lambda>x. bucket_index bounds x \<le> idx) xs)"
  have le_eq: "?le = count_le xs (bounds ! idx)"
    using bucket_index_le_iff [OF assms(1) idx] by (simp add: count_le_def)
  have bound: "?le \<le> u64_max" using assms(2) length_filter_le le_trans by blast
  have cum: "saturating_add (of_nat ?lt) (of_nat (bucket_count bounds xs idx)) = (of_nat ?le :: u64)"
    using saturating_add_of_nat [of ?lt "bucket_count bounds xs idx"] bucket_count_step [of bounds idx xs] bound
    by simp
  have un: "unat (of_nat ?le :: u64) = ?le" using bound by (simp add: unat_of_nat take_bit_eq_mod)
  have lt_Suc: "(\<lambda>x. bucket_index bounds x < Suc idx) = (\<lambda>x. bucket_index bounds x \<le> idx)"
    by (auto simp: fun_eq_iff)
  have ups: "[idx..<length bounds + 1] = idx # [Suc idx..<length bounds + 1]"
    using idx by (simp add: upt_rec)
  have drop: "drop idx bounds = bounds ! idx # drop (Suc idx) bounds" using idx by (simp add: Cons_nth_drop_Suc)
  have IH: "percentile_scan bounds mx target (of_nat ?le)
      (map (\<lambda>i. of_nat (bucket_count bounds xs i)) [Suc idx..<length bounds + 1]) (Suc idx) =
    (case find (\<lambda>b. unat target \<le> count_le xs b) (drop (Suc idx) bounds) of Some b \<Rightarrow> b | None \<Rightarrow> mx)"
    using Suc.hyps(1) [of "Suc idx"] Suc.hyps(2) Suc.prems idx by (simp add: lt_Suc)
  have "(of_nat ?le < target) \<longleftrightarrow> \<not> unat target \<le> count_le xs (bounds ! idx)"
    by (simp add: word_less_nat_alt un le_eq [symmetric] not_le)
  then show ?case
    using IH idx unfolding ups drop
    by (simp add: cum Let_def del: upt_Suc)
qed

lemma percentile_us_spec:
  assumes "hist_of h xs" and "sorted (h_bounds_us h)" and "length xs \<le> u64_max" and "xs \<noteq> []"
    and "0 < p" and "p \<le> 100"
  shows "percentile_us (histogram_snapshot h) p =
    Some (percentile_spec (h_bounds_us h) xs (max 1 (unat (percentile_rank (of_nat (length xs)) p))))"
proof -
  have "unat (of_nat (length xs) :: u64) = length xs"
    using assms(3) by (simp add: unat_of_nat take_bit_eq_mod)
  then have "(of_nat (length xs) :: u64) \<noteq> 0" using assms(4) by (metis length_0_conv unat_0)
  moreover have "unat (max w 1) = max 1 (unat w)" for w :: u64
    by (cases "w = 0") (auto simp: max_def word_le_nat_alt unat_eq_zero)
  ultimately show ?thesis
    using percentile_scan_spec [OF assms(2,3), of 0 "fold max xs 0"
        "max (percentile_rank (of_nat (length xs)) p) 1"] assms(1,5,6)
    by (simp add: percentile_us_def histogram_snapshot_def hist_of_def percentile_spec_def Let_def del: upt_Suc)
qed

text \<open>Recording a sequence of latencies.\<close>

fun record_all :: "latency_histogram \<Rightarrow> duration list \<Rightarrow> latency_histogram exec" where
  "record_all h [] = Some h"
| "record_all h (d # ds) = do { h \<leftarrow> histogram_record h d; record_all h ds }"

lemma record_all_hist:
  "hist_of h xs \<Longrightarrow> \<exists>h'. record_all h ds = Some h' \<and> hist_of h' (xs @ map as_micros ds) \<and>
    h_bounds_us h' = h_bounds_us h"
proof (induction ds arbitrary: h xs)
  case (Cons d ds)
  from hist_of_record [OF Cons.prems, of d] obtain h1 where
    h1: "histogram_record h d = Some h1" "hist_of h1 (xs @ [as_micros d])" "h_bounds_us h1 = h_bounds_us h" by blast
  from Cons.IH [OF h1(2)] h1 show ?case by auto
qed simp

text \<open>
  The rank of the 99.9th percentile among 1000 samples: the nearest double to 99.9, divided by 100,
  is just above 0.999, so the product with 1000 is rounded up to 1000.
\<close>

lemma f64_99_9: "f64_round (999 / 10) = 7029837543348634 / 2 ^ 46"
  using f64_round_eq [of 6 "999 / 10" 7029837543348634] by (simp add: pow2_def)

lemma f64_0_999: "f64_div (7029837543348634 / 2 ^ 46) 100 = 8998192055486252 / 2 ^ 53"
  using f64_round_eq [of "- 1" "7029837543348634 / 2 ^ 46 / 100" 8998192055486252]
  by (simp add: pow2_def f64_div_def)

lemma f64_product_999: "f64_mul 1000 (8998192055486252 / 2 ^ 53) = 8787296929185793 / 2 ^ 43"
  using f64_round_eq [of 9 "1000 * (8998192055486252 / 2 ^ 53)" 8787296929185793]
  by (simp add: pow2_def f64_mul_def)

lemma rank_999: "percentile_rank 1000 (f64_round (999 / 10)) = 1000"
proof -
  have "f64_of_u64 1000 = 1000" using f64_of_u64_exact [of 1000] by simp
  moreover have "\<lceil>8787296929185793 / 2 ^ 43 :: rat\<rceil> = 1000" by (simp add: ceiling_eq_iff)
  ultimately show ?thesis
    unfolding percentile_rank_def f64_99_9 by (simp only: f64_0_999 f64_product_999 f64_ceil_u64_def) simp
qed

end
