(* ===== verification/Server.thy ===== *)
theory Server
  imports Engine_Laws Resp_Parser Metrics
begin

text \<open>
  The TCP server (\<^verbatim>\<open>hkv-server/src/server.rs\<close>): the reply encoders, one definition per command handler,
  the dispatcher and the loop that serves a connection.

  The outside of a connection is an argument: the results of the reads, whether each write
  succeeds, and for each request the instants its handler reads from the clock. A connection runs
  alone here; the operations of other connections on the shared engine happen between requests.
\<close>

section \<open>Reply encoders\<close>

definition resp_simple :: "bytes \<Rightarrow> bytes" where
  "resp_simple message = [43] @ message @ [13, 10]"

definition resp_error :: "bytes \<Rightarrow> bytes" where
  "resp_error message = ascii ''-ERR '' @ message @ [13, 10]"

definition resp_integer :: "int \<Rightarrow> bytes" where
  "resp_integer value = [58] @ dec_int value @ [13, 10]"

definition resp_bulk :: "bytes \<Rightarrow> bytes" where
  "resp_bulk data = [36] @ dec_digits (length data) @ [13, 10] @ data @ [13, 10]"

definition resp_null :: bytes where
  "resp_null = [36, 45, 49, 13, 10]"

definition is_error_response :: "bytes \<Rightarrow> bool" where
  "is_error_response response = (response \<noteq> [] \<and> hd response = 45)"

definition to_ascii_lowercase :: "byte \<Rightarrow> byte" where
  "to_ascii_lowercase b = (if 65 \<le> b \<and> b \<le> 90 then b + 32 else b)"

definition eq_ignore_ascii_case :: "bytes \<Rightarrow> bytes \<Rightarrow> bool" where
  "eq_ignore_ascii_case a b \<longleftrightarrow>
     length a = length b \<and>
     list_all (\<lambda>(x, y). to_ascii_lowercase x = to_ascii_lowercase y) (zip a b)"

definition parse_u64 :: "bytes \<Rightarrow> bytes + u64" where
  "parse_u64 arg =
     (if arg = [] then Inl (resp_error (ascii ''invalid integer''))
      else case read_digits 0 arg of
        None \<Rightarrow> Inl (resp_error (ascii ''invalid integer''))
      | Some value \<Rightarrow> Inr value)"

section \<open>Command handlers\<close>

text \<open>\<open>clk i\<close> is the instant of the \<open>i\<close>-th engine call of the handler.\<close>

type_synonym handler_result = "(bytes \<times> memory_engine) exec"

definition handle_ping :: "bytes list \<Rightarrow> bytes" where
  "handle_ping args =
     (if length args = 1 then resp_simple (ascii ''PONG'')
      else if length args = 2 then resp_bulk (args ! 1)
      else resp_error (ascii ''wrong number of arguments for PING''))"

definition handle_get :: "bytes list \<Rightarrow> (nat \<Rightarrow> instant) \<Rightarrow> memory_engine \<Rightarrow> handler_result" where
  "handle_get args clk e =
     (if length args \<noteq> 2 then Some (resp_error (ascii ''wrong number of arguments for GET''), e)
      else do {
        (r, e) \<leftarrow> kv_get e (clk 0) (args ! 1);
        Some (case r of
            Inr (Some value) \<Rightarrow> resp_bulk value
          | Inr None \<Rightarrow> resp_null
          | Inl _ \<Rightarrow> resp_error (ascii ''engine error''), e)
      })"

definition handle_set :: "bytes list \<Rightarrow> (nat \<Rightarrow> instant) \<Rightarrow> memory_engine \<Rightarrow> handler_result" where
  "handle_set args clk e =
     (if length args < 3 then Some (resp_error (ascii ''wrong number of arguments for SET''), e)
      else let key = args ! 1; value = args ! 2 in
        if length args = 3 then do {
          (r, e) \<leftarrow> kv_set e (clk 0) key value;
          Some (case r of
              Inr _ \<Rightarrow> resp_simple (ascii ''OK'')
            | Inl _ \<Rightarrow> resp_error (ascii ''engine error''), e)
        }
        else if length args = 5 \<and> eq_ignore_ascii_case (args ! 3) (ascii ''EX'') then
          (case parse_u64 (args ! 4) of
             Inl resp \<Rightarrow> Some (resp, e)
           | Inr seconds \<Rightarrow> do {
               (r, e) \<leftarrow> kv_set e (clk 0) key value;
               (case r of
                  Inl _ \<Rightarrow> Some (resp_error (ascii ''engine error''), e)
                | Inr _ \<Rightarrow> do {
                    (r, e) \<leftarrow> kv_expire e (clk 1) (args ! 1) (from_secs seconds);
                    Some (case r of
                        Inl _ \<Rightarrow> resp_error (ascii ''engine error'')
                      | Inr _ \<Rightarrow> resp_simple (ascii ''OK''), e)
                  })
             })
        else Some (resp_error (ascii ''unsupported SET options''), e))"

text \<open>The loop of \<^verbatim>\<open>DEL\<close> over the keys; \<open>Inl\<close> is the early return.\<close>

fun del_keys :: "bytes list \<Rightarrow> (nat \<Rightarrow> instant) \<Rightarrow> int \<Rightarrow> memory_engine \<Rightarrow>
    ((bytes + int) \<times> memory_engine) exec" where
  "del_keys [] clk removed e = Some (Inr removed, e)"
| "del_keys (key # keys) clk removed e = do {
     (r, e) \<leftarrow> kv_delete e (clk 0) key;
     (case r of
        Inr True \<Rightarrow> del_keys keys (\<lambda>i. clk (Suc i)) (removed + 1) e
      | Inr False \<Rightarrow> del_keys keys (\<lambda>i. clk (Suc i)) removed e
      | Inl _ \<Rightarrow> Some (Inl (resp_error (ascii ''engine error'')), e))
   }"

definition handle_del :: "bytes list \<Rightarrow> (nat \<Rightarrow> instant) \<Rightarrow> memory_engine \<Rightarrow> handler_result" where
  "handle_del args clk e =
     (if length args < 2 then Some (resp_error (ascii ''wrong number of arguments for DEL''), e)
      else do {
        (r, e) \<leftarrow> del_keys (tl args) clk 0 e;
        Some (case r of Inl resp \<Rightarrow> resp | Inr removed \<Rightarrow> resp_integer removed, e)
      })"

definition handle_expire :: "bytes list \<Rightarrow> (nat \<Rightarrow> instant) \<Rightarrow> memory_engine \<Rightarrow> handler_result" where
  "handle_expire args clk e =
     (if length args \<noteq> 3 then Some (resp_error (ascii ''wrong number of arguments for EXPIRE''), e)
      else case parse_u64 (args ! 2) of
        Inl resp \<Rightarrow> Some (resp, e)
      | Inr seconds \<Rightarrow> do {
          (r, e) \<leftarrow> kv_expire e (clk 0) (args ! 1) (from_secs seconds);
          Some (case r of
              Inr _ \<Rightarrow> resp_integer 1
            | Inl err \<Rightarrow> if err = NotFound then resp_integer 0 else resp_error (ascii ''engine error''), e)
        })"

text \<open>\<^verbatim>\<open>remaining.as_secs() as i64\<close>: a two's-complement reading of the 64 bits.\<close>

definition handle_ttl :: "bytes list \<Rightarrow> (nat \<Rightarrow> instant) \<Rightarrow> memory_engine \<Rightarrow> handler_result" where
  "handle_ttl args clk e =
     (if length args \<noteq> 2 then Some (resp_error (ascii ''wrong number of arguments for TTL''), e)
      else do {
        (r, e) \<leftarrow> kv_ttl e (clk 0) (args ! 1);
        Some (case r of
            Inr Missing \<Rightarrow> resp_integer (- 2)
          | Inr NoExpiry \<Rightarrow> resp_integer (- 1)
          | Inr (ExpiresIn remaining) \<Rightarrow> resp_integer (sint (as_secs remaining))
          | Inl _ \<Rightarrow> resp_error (ascii ''engine error''), e)
      })"

definition info_line :: "string \<Rightarrow> bytes \<Rightarrow> bytes" where
  "info_line name value = ascii name @ value @ [13, 10]"

definition handle_info :: "metrics \<Rightarrow> instant \<Rightarrow> bytes" where
  "handle_info m now =
     (let snapshot = metrics_snapshot_at m now;
          l = ms_latency snapshot;
          average_us = (case average_us l of Some a \<Rightarrow> a | None \<Rightarrow> 0);
          pct = (\<lambda>p. case percentile_us l p of Some v \<Rightarrow> v | None \<Rightarrow> 0);
          num = (\<lambda>w :: u64. dec_digits (unat w)) in
      resp_bulk (
        info_line ''role:master'' [] @
        info_line ''engine:hybridkv'' [] @
        info_line ''requests_total:'' (num (ms_requests_total snapshot)) @
        info_line ''errors_total:'' (num (ms_errors_total snapshot)) @
        info_line ''inflight:'' (num (ms_inflight snapshot)) @
        info_line ''uptime_sec:'' (fmt3 (as_secs_f64 (ms_uptime snapshot))) @
        info_line ''qps_avg:'' (fmt3 (qps snapshot)) @
        info_line ''error_rate:'' (fmt3 (error_rate snapshot)) @
        info_line ''latency_samples:'' (num (l_samples l)) @
        info_line ''latency_avg_us:'' (fmt3 average_us) @
        info_line ''latency_max_us:'' (num (l_max_us l)) @
        info_line ''latency_p50_us:'' (num (pct 50)) @
        info_line ''latency_p90_us:'' (num (pct 90)) @
        info_line ''latency_p99_us:'' (num (pct 99)) @
        info_line ''latency_p999_us:'' (num (pct (f64_round (999 / 10))))))"

definition dispatch_command ::
    "bytes list \<Rightarrow> (nat \<Rightarrow> instant) \<Rightarrow> memory_engine \<Rightarrow> metrics \<Rightarrow> handler_result" where
  "dispatch_command args clk e m =
     (if args = [] then Some (resp_error (ascii ''empty command''), e)
      else let cmd = args ! 0 in
        if eq_ignore_ascii_case cmd (ascii ''PING'') then Some (handle_ping args, e)
        else if eq_ignore_ascii_case cmd (ascii ''GET'') then handle_get args clk e
        else if eq_ignore_ascii_case cmd (ascii ''SET'') then handle_set args clk e
        else if eq_ignore_ascii_case cmd (ascii ''DEL'') then handle_del args clk e
        else if eq_ignore_ascii_case cmd (ascii ''EXPIRE'') then handle_expire args clk e
        else if eq_ignore_ascii_case cmd (ascii ''TTL'') then handle_ttl args clk e
        else if eq_ignore_ascii_case cmd (ascii ''INFO'') then Some (handle_info m (clk 0), e)
        else Some (resp_error (ascii ''unknown command''), e))"

section \<open>Serving a connection\<close>

datatype net_read = Chunk bytes | ReadFailed

record request_clock =
  rq_start :: instant
  rq_calls :: "nat \<Rightarrow> instant"
  rq_end :: instant

text \<open>\<open>env_write k\<close> and \<open>env_clock k\<close> belong to the \<open>k\<close>-th request of the connection.\<close>

record conn_env =
  env_write :: "nat \<Rightarrow> bool"
  env_clock :: "nat \<Rightarrow> request_clock"

text \<open>
  The part of the state that requests act on: the shared engine and counters, and the replies
  written so far. The parser and the buffer are local variables of the loop.
\<close>

record server_conn =
  sc_engine :: memory_engine
  sc_metrics :: metrics
  sc_replies :: "bytes list"

text \<open>How far a connection got: it waits for data, it was closed, or a read or a write failed.\<close>

datatype conn_status = Waiting | Closed | ReadError | WriteError

text \<open>
  \<^verbatim>\<open>stream.write_all(&response).await?; metrics.record_request_end(started_at.elapsed());\<close>
\<close>

definition write_reply :: "conn_env \<Rightarrow> bytes \<Rightarrow> server_conn \<Rightarrow> (bool \<times> server_conn) exec" where
  "write_reply env response c =
     (let k = length (sc_replies c); clock = env_clock env k in
      if env_write env k then do {
        m \<leftarrow> record_request_end (sc_metrics c) (elapsed (rq_start clock) (rq_end clock));
        Some (True, c\<lparr>sc_replies := sc_replies c @ [response], sc_metrics := m\<rparr>)
      } else Some (False, c))"

definition serve_request :: "conn_env \<Rightarrow> bytes list \<Rightarrow> server_conn \<Rightarrow> (bool \<times> server_conn) exec" where
  "serve_request env args c = do {
     let m = record_request_start (sc_metrics c);
     (response, e) \<leftarrow>
       dispatch_command args (rq_calls (env_clock env (length (sc_replies c)))) (sc_engine c) m;
     let m = (if is_error_response response then record_error m else m);
     write_reply env response (c\<lparr>sc_engine := e, sc_metrics := m\<rparr>)
   }"

definition serve_protocol_error :: "conn_env \<Rightarrow> server_conn \<Rightarrow> (bool \<times> server_conn) exec" where
  "serve_protocol_error env c =
     write_reply env (resp_error (ascii ''protocol error''))
       (c\<lparr>sc_metrics := record_error (record_request_start (sc_metrics c))\<rparr>)"

text \<open>
  The inner loop of \<^verbatim>\<open>handle_connection_with_metrics\<close>, which ends because every request uses up
  input.
\<close>

type_synonym conn_result = "(conn_status \<times> resp_parser \<times> bytes \<times> server_conn) exec"

function serve_buffer :: "conn_env \<Rightarrow> resp_parser \<Rightarrow> bytes \<Rightarrow> server_conn \<Rightarrow> conn_result" where
  "serve_buffer env parser buffer c = do {
     (r, parser', buffer') \<leftarrow> parse parser buffer;
     (case r of
        Inr (Some args) \<Rightarrow> do {
          (ok, c) \<leftarrow> serve_request env args c;
          (if ok then serve_buffer env parser' buffer' c else Some (WriteError, parser', buffer', c))
        }
      | Inr None \<Rightarrow> Some (Waiting, parser', buffer', c)
      | Inl _ \<Rightarrow> do {
          (ok, c) \<leftarrow> serve_protocol_error env c;
          Some (if ok then Closed else WriteError, parser', buffer', c)
        })
   }"
  by pat_completeness auto
termination
  by (relation "measure (\<lambda>(env, parser, buffer, c). length buffer)") (auto dest!: parse_length)

declare serve_buffer.simps [simp del]

fun handle_connection ::
    "conn_env \<Rightarrow> net_read list \<Rightarrow> resp_parser \<Rightarrow> bytes \<Rightarrow> server_conn \<Rightarrow> conn_result" where
  "handle_connection env [] parser buffer c = Some (Closed, parser, buffer, c)"
| "handle_connection env (ReadFailed # reads) parser buffer c = Some (ReadError, parser, buffer, c)"
| "handle_connection env (Chunk bs # reads) parser buffer c =
     (if bs = [] then Some (Closed, parser, buffer, c)
      else do {
        (status, parser, buffer, c) \<leftarrow> serve_buffer env parser (buffer @ bs) c;
        (if status = Waiting then handle_connection env reads parser buffer c
         else Some (status, parser, buffer, c))
      })"

definition handle_connection_with_metrics ::
    "conn_env \<Rightarrow> net_read list \<Rightarrow> memory_engine \<Rightarrow> metrics \<Rightarrow> conn_result" where
  "handle_connection_with_metrics env reads e m =
     handle_connection env reads resp_parser_new []
       \<lparr>sc_engine = e, sc_metrics = m, sc_replies = []\<rparr>"

text \<open>A connection with counters of its own.\<close>

definition handle_connection_alone :: "conn_env \<Rightarrow> net_read list \<Rightarrow> memory_engine \<Rightarrow> instant \<Rightarrow> conn_result" where
  "handle_connection_alone env reads e now = handle_connection_with_metrics env reads e (metrics_new now)"

end
