(* ===== verification/Client_Resp.thy ===== *)
theory Client_Resp
  imports Decimal
begin

text \<open>
  The client's side of the wire (\<^verbatim>\<open>hkv-client/src/resp.rs\<close>): the request encoder and the reply
  decoder.

  A reader holds the bytes the connection will still deliver and how it ends: at a clean end of
  file, or with an error of the operating system. Two resources of the process appear as
  arguments: \<open>alloc_bytes\<close> and \<open>alloc_items\<close> say which buffer sizes can be allocated (a failed
  allocation ends the process, an impossible capacity panics; both are \<open>None\<close>), and \<open>depth\<close> is the
  number of nested calls of \<^verbatim>\<open>read_response\<close> the stack has room for (\<open>None\<close> beyond it).
\<close>

section \<open>Encoding requests\<close>

text \<open>\<^verbatim>\<open>for idx in (0..len).rev() { out.push(buf[idx]); }\<close>.\<close>

fun push_rev :: "bytes \<Rightarrow> bytes \<Rightarrow> nat \<Rightarrow> bytes exec" where
  "push_rev out buf 0 = Some out"
| "push_rev out buf (Suc idx) = do {
     b \<leftarrow> index_at buf idx;
     push_rev (out @ [b]) buf idx
   }"

definition push_usize :: "bytes \<Rightarrow> usize \<Rightarrow> bytes exec" where
  "push_usize out value = do {
     let buf = replicate 20 0;
     (buf, len) \<leftarrow> (if value = 0 then do {
          buf \<leftarrow> update_at buf 0 (\<lambda>_. 48);
          Some (buf, 1)
        } else write_digits value buf 0);
     push_rev out buf len
   }"

fun encode_args :: "bytes list \<Rightarrow> bytes \<Rightarrow> bytes exec" where
  "encode_args [] out = Some out"
| "encode_args (arg # args) out = do {
     out \<leftarrow> push_usize (out @ [36]) (of_nat (length arg));
     encode_args args (out @ [13, 10] @ arg @ [13, 10])
   }"

definition encode_command :: "bytes list \<Rightarrow> bytes \<Rightarrow> bytes exec" where
  "encode_command args out = do {
     out \<leftarrow> push_usize (out @ [42]) (of_nat (length args));
     encode_args args (out @ [13, 10])
   }"

lemma push_rev_take: "n \<le> length buf \<Longrightarrow> push_rev out buf n = Some (out @ rev (take n buf))"
  by (induction n arbitrary: out) (simp_all add: take_Suc_conv_app_nth)

lemma push_usize_digits [simp]: "push_usize out value = Some (out @ dec_digits (unat value))"
proof (cases "value = 0")
  case True
  then show ?thesis by (simp add: push_usize_def push_rev_take dec_digits.simps)
next
  case False
  then have "value > 0" by (simp add: word_neq_0_conv)
  from write_digits_u64 [OF this] obtain buf where
    "write_digits value (replicate 20 0) 0 = Some (buf, length (dec_digits (unat value)))"
    "length buf = 20" "length (dec_digits (unat value)) \<le> 20"
    "take (length (dec_digits (unat value))) buf = rev (dec_digits (unat value))" by blast
  with False show ?thesis by (simp add: push_usize_def push_rev_take)
qed

text \<open>The wire form of a bulk string and of a request.\<close>

definition bulk_frame :: "bytes \<Rightarrow> bytes" where
  "bulk_frame d = [36] @ dec_digits (length d) @ [13, 10] @ d @ [13, 10]"

definition request_frame :: "bytes list \<Rightarrow> bytes" where
  "request_frame args = [42] @ dec_digits (length args) @ [13, 10] @ concat (map bulk_frame args)"

definition sizes_ok :: "bytes list \<Rightarrow> bool" where
  "sizes_ok args \<longleftrightarrow> length args < 2 ^ 63 \<and> (\<forall>d\<in>set args. length d < 2 ^ 63)"

lemma unat_of_nat_usize: "n < 2 ^ 63 \<Longrightarrow> unat (of_nat n :: usize) = n"
  by (simp add: unat_of_nat take_bit_eq_mod)

lemma encode_args_frames:
  "\<forall>d\<in>set args. length d < 2 ^ 63 \<Longrightarrow> encode_args args out = Some (out @ concat (map bulk_frame args))"
proof (induction args arbitrary: out)
  case (Cons a args)
  then have "unat (of_nat (length a) :: usize) = length a" using unat_of_nat_usize by simp
  with Cons show ?case by (simp add: bulk_frame_def)
qed simp

lemma encode_command_frame: "sizes_ok args \<Longrightarrow> encode_command args out = Some (out @ request_frame args)"
  using unat_of_nat_usize [of "length args"]
  by (simp add: encode_command_def request_frame_def encode_args_frames sizes_ok_def)

section \<open>Readers and errors\<close>

datatype io_error = UnexpectedEof | IoFailed

datatype ClientError =
  CIo io_error | CProtocol | CServer bytes | UnexpectedResponse | PoolExhausted | InvalidAddress

type_synonym 'a ClientResult = "ClientError + 'a"

record reader =
  r_bytes :: bytes
  r_error :: "io_error option"

record client_env =
  alloc_bytes :: "nat \<Rightarrow> bool"
  alloc_items :: "nat \<Rightarrow> bool"

text \<open>
  \<^verbatim>\<open>BufRead::read_until(b'\n', buf)\<close> on an empty \<open>buf\<close>: up to and including the first LF, or all
  that is left at the end of file.
\<close>

definition read_until_lf :: "reader \<Rightarrow> (io_error + bytes) \<times> reader" where
  "read_until_lf r =
     (let pre = takeWhile (\<lambda>b. b \<noteq> 10) (r_bytes r);
          post = dropWhile (\<lambda>b. b \<noteq> 10) (r_bytes r) in
      case post of
        lf # rest \<Rightarrow> (Inr (pre @ [lf]), r\<lparr>r_bytes := rest\<rparr>)
      | [] \<Rightarrow> (case r_error r of
            None \<Rightarrow> (Inr pre, r\<lparr>r_bytes := []\<rparr>)
          | Some err \<Rightarrow> (Inl err, r\<lparr>r_bytes := []\<rparr>)))"

definition read_exact :: "nat \<Rightarrow> reader \<Rightarrow> (io_error + bytes) \<times> reader" where
  "read_exact n r =
     (if n \<le> length (r_bytes r) then (Inr (take n (r_bytes r)), r\<lparr>r_bytes := drop n (r_bytes r)\<rparr>)
      else (Inl (case r_error r of None \<Rightarrow> UnexpectedEof | Some err \<Rightarrow> err), r\<lparr>r_bytes := []\<rparr>))"

definition client_read_line :: "reader \<Rightarrow> bytes ClientResult \<times> reader" where
  "client_read_line r = (case read_until_lf r of
     (Inl err, r) \<Rightarrow> (Inl (CIo err), r)
   | (Inr buf, r) \<Rightarrow>
       if length buf = 0 then (Inl CProtocol, r)
       else if length buf < 2 \<or> buf ! (length buf - 2) \<noteq> 13 then (Inl CProtocol, r)
       else (Inr (take (length buf - 2) buf), r))"

section \<open>Numbers\<close>

definition sat_i64 :: "int \<Rightarrow> int" where
  "sat_i64 i = max (- (2 ^ 63)) (min i i64_max)"

fun i64_digits :: "int \<Rightarrow> bytes \<Rightarrow> int ClientResult" where
  "i64_digits value [] = Inr value"
| "i64_digits value (b # bs) =
     (if b < 48 \<or> b > 57 then Inl CProtocol
      else i64_digits (sat_i64 (sat_i64 (value * 10) + int (unat (b - 48)))) bs)"

definition parse_i64 :: "bytes \<Rightarrow> int ClientResult" where
  "parse_i64 data =
     (if data = [] then Inl CProtocol
      else let negative = (hd data = 45);
               rest = (if negative then tl data else data) in
           case i64_digits 0 rest of
             Inl err \<Rightarrow> Inl err
           | Inr value \<Rightarrow> Inr (if negative then - value else value))"

section \<open>Replies\<close>

datatype RespValue =
  Simple bytes | Error bytes | Integer int | Bulk "bytes option" | Array "RespValue list"

type_synonym 'a reply = "('a ClientResult \<times> reader) exec"

definition parse_bulk_len :: "client_env \<Rightarrow> int \<Rightarrow> reader \<Rightarrow> RespValue reply" where
  "parse_bulk_len env len r =
     (if len < 0 then Some (Inr (Bulk None), r)
      else if \<not> alloc_bytes env (nat len) then None
      else Some (case read_exact (nat len) r of
          (Inl err, r) \<Rightarrow> (Inl (CIo err), r)
        | (Inr data, r) \<Rightarrow> (case read_exact 2 r of
              (Inl err, r) \<Rightarrow> (Inl (CIo err), r)
            | (Inr crlf, r) \<Rightarrow>
                if crlf \<noteq> [13, 10] then (Inl CProtocol, r) else (Inr (Bulk (Some data)), r))))"

fun read_response :: "client_env \<Rightarrow> nat \<Rightarrow> reader \<Rightarrow> RespValue reply"
  and parse_array_len :: "client_env \<Rightarrow> nat \<Rightarrow> int \<Rightarrow> reader \<Rightarrow> RespValue reply"
  and read_items :: "client_env \<Rightarrow> nat \<Rightarrow> nat \<Rightarrow> reader \<Rightarrow> RespValue list reply" where
  "read_response env 0 r = None"
| "read_response env (Suc depth) r = (case client_read_line r of
     (Inl err, r) \<Rightarrow> Some (Inl err, r)
   | (Inr [], r) \<Rightarrow> Some (Inl CProtocol, r)
   | (Inr (b # line), r) \<Rightarrow>
       if b = 43 then Some (Inr (Simple line), r)
       else if b = 45 then Some (Inr (Error line), r)
       else if b = 58 then
         (case parse_i64 line of Inl err \<Rightarrow> Some (Inl err, r) | Inr n \<Rightarrow> Some (Inr (Integer n), r))
       else if b = 36 then
         (case parse_i64 line of Inl err \<Rightarrow> Some (Inl err, r) | Inr len \<Rightarrow> parse_bulk_len env len r)
       else if b = 42 then
         (case parse_i64 line of
            Inl err \<Rightarrow> Some (Inl err, r) | Inr len \<Rightarrow> parse_array_len env depth len r)
       else Some (Inl CProtocol, r))"
| "parse_array_len env depth len r =
     (if len \<le> 0 then Some (Inr (Array []), r)
      else if \<not> alloc_items env (nat len) then None
      else do {
        (items, r) \<leftarrow> read_items env depth (nat len) r;
        Some (map_sum id Array items, r)
      })"
| "read_items env depth 0 r = Some (Inr [], r)"
| "read_items env depth (Suc n) r = do {
     (item, r) \<leftarrow> read_response env depth r;
     (case item of
        Inl err \<Rightarrow> Some (Inl err, r)
      | Inr v \<Rightarrow> do {
          (vs, r) \<leftarrow> read_items env depth n r;
          Some (map_sum id ((#) v) vs, r)
        })
   }"

section \<open>Replies round-trip\<close>

text \<open>The wire form of a reply, and the replies a client can decode with its resources.\<close>

fun encode_value :: "RespValue \<Rightarrow> bytes" where
  "encode_value (Simple t) = [43] @ t @ [13, 10]"
| "encode_value (Error t) = [45] @ t @ [13, 10]"
| "encode_value (Integer n) = [58] @ dec_int n @ [13, 10]"
| "encode_value (Bulk None) = [36, 45, 49, 13, 10]"
| "encode_value (Bulk (Some d)) = bulk_frame d"
| "encode_value (Array vs) = [42] @ dec_digits (length vs) @ [13, 10] @ concat (map encode_value vs)"

fun decodable :: "client_env \<Rightarrow> nat \<Rightarrow> RespValue \<Rightarrow> bool" where
  "decodable env 0 v = False"
| "decodable env (Suc depth) v = (case v of
     Simple t \<Rightarrow> 10 \<notin> set t
   | Error t \<Rightarrow> 10 \<notin> set t
   | Integer n \<Rightarrow> \<bar>n\<bar> \<le> i64_max
   | Bulk None \<Rightarrow> True
   | Bulk (Some d) \<Rightarrow> length d < 2 ^ 63 \<and> alloc_bytes env (length d)
   | Array vs \<Rightarrow> length vs < 2 ^ 63 \<and> (vs \<noteq> [] \<longrightarrow> alloc_items env (length vs)) \<and>
       list_all (decodable env depth) vs)"

lemma read_line_crlf:
  "10 \<notin> set l \<Longrightarrow> client_read_line \<lparr>r_bytes = l @ 13 # 10 # rest, r_error = err\<rparr> =
    (Inr l, \<lparr>r_bytes = rest, r_error = err\<rparr>)"
proof -
  assume l: "10 \<notin> set l"
  then have "takeWhile (\<lambda>b. b \<noteq> 10) (l @ 13 # 10 # rest) = l @ [13]"
    "dropWhile (\<lambda>b. b \<noteq> 10) (l @ 13 # 10 # rest) = 10 # rest"
    by (induction l) simp_all
  then show ?thesis
    by (simp add: client_read_line_def read_until_lf_def nth_append)
qed

lemma sat_i64_id: "0 \<le> i \<Longrightarrow> i \<le> i64_max \<Longrightarrow> sat_i64 i = i"
  by (simp add: sat_i64_def)

lemma i64_digits_value:
  assumes "list_all is_digit bs" and "0 \<le> v"
    and "foldl (\<lambda>a b. 10 * a + int (unat (b - 48))) v bs \<le> i64_max"
  shows "i64_digits v bs = Inr (foldl (\<lambda>a b. 10 * a + int (unat (b - 48))) v bs)"
  using assms
proof (induction bs arbitrary: v)
  case (Cons b bs)
  let ?f = "foldl (\<lambda>a b. 10 * a + int (unat (b - 48)))"
  have grow: "x \<le> ?f x cs" if "0 \<le> x" for x and cs :: bytes
    using that
  proof (induction cs arbitrary: x)
    case (Cons c cs)
    have "0 \<le> int (unat (c - 48))" by (rule of_nat_0_le_iff)
    with Cons.prems have *: "x \<le> 10 * x + int (unat (c - 48))" by linarith
    with Cons.prems have "0 \<le> 10 * x + int (unat (c - 48))" by linarith
    from order.trans [OF * Cons.IH [OF this]] show ?case by (simp only: foldl_Cons)
  qed simp
  let ?w = "10 * v + int (unat (b - 48))"
  have w: "0 \<le> ?w" "?w \<le> i64_max" using Cons.prems grow [of ?w bs] by simp_all
  have "v * 10 \<le> i64_max" using w(2) of_nat_0_le_iff [of "unat (b - 48)", where 'a = int] by linarith
  then have "sat_i64 (v * 10) = v * 10" using Cons.prems(2) by (intro sat_i64_id) simp_all
  moreover have "sat_i64 (v * 10 + int (unat (b - 48))) = ?w"
    using w by (subst sat_i64_id) (simp_all add: mult.commute)
  ultimately show ?case
    using Cons.IH [OF _ w(1)] Cons.prems by (simp add: is_digit_def)
qed simp

lemma foldl_int_nat:
  "foldl (\<lambda>a b. 10 * a + int (unat (b - 48))) (int v) bs = int (foldl (\<lambda>a b. 10 * a + unat (b - 48)) v (bs :: bytes))"
proof (induction bs arbitrary: v)
  case (Cons b bs)
  then show ?case using Cons.IH [of "10 * v + unat (b - 48)"] by simp
qed simp

lemma i64_dec_digits: "n < 2 ^ 63 \<Longrightarrow> i64_digits 0 (dec_digits n) = Inr (int n)"
  using i64_digits_value [of "dec_digits n" 0] foldl_int_nat [of 0 "dec_digits n"]
  by (simp add: dec_value_def [symmetric])

lemma dec_digits_hd: "hd (dec_digits n) \<noteq> 45"
  using dec_digits_no_crlf(3) [of n] by (metis dec_digits_nonempty hd_in_set)

lemma parse_i64_digits: "n < 2 ^ 63 \<Longrightarrow> parse_i64 (dec_digits n) = Inr (int n)"
  by (simp add: parse_i64_def dec_digits_hd i64_dec_digits)

lemma parse_i64_int: "\<bar>i\<bar> \<le> i64_max \<Longrightarrow> parse_i64 (dec_int i) = Inr i"
proof (cases "i < 0")
  case True
  assume "\<bar>i\<bar> \<le> i64_max"
  with True i64_dec_digits [of "nat (- i)"] show ?thesis by (simp add: parse_i64_def dec_int_def)
next
  case False
  assume "\<bar>i\<bar> \<le> i64_max"
  with False parse_i64_digits [of "nat i"] show ?thesis by (simp add: dec_int_def)
qed

lemma read_items_encoded:
  assumes "\<And>v rest. v \<in> set vs \<Longrightarrow> read_response env depth \<lparr>r_bytes = encode_value v @ rest, r_error = err\<rparr> =
      Some (Inr v, \<lparr>r_bytes = rest, r_error = err\<rparr>)"
  shows "read_items env depth (length vs) \<lparr>r_bytes = concat (map encode_value vs) @ rest, r_error = err\<rparr> =
    Some (Inr vs, \<lparr>r_bytes = rest, r_error = err\<rparr>)"
  using assms by (induction vs) simp_all

lemma read_encoded_bulk:
  assumes "length d < 2 ^ 63" and "alloc_bytes env (length d)"
  shows "read_response env (Suc depth) \<lparr>r_bytes = bulk_frame d @ rest, r_error = err\<rparr> =
    Some (Inr (Bulk (Some d)), \<lparr>r_bytes = rest, r_error = err\<rparr>)"
  using assms read_line_crlf [of "36 # dec_digits (length d)"]
  by (simp add: bulk_frame_def dec_digits_no_crlf parse_i64_digits parse_bulk_len_def read_exact_def)

lemma read_encoded_array:
  assumes "length vs < 2 ^ 63" and "vs \<noteq> [] \<longrightarrow> alloc_items env (length vs)"
    and "\<And>v rest. v \<in> set vs \<Longrightarrow> read_response env depth \<lparr>r_bytes = encode_value v @ rest, r_error = err\<rparr> =
      Some (Inr v, \<lparr>r_bytes = rest, r_error = err\<rparr>)"
  shows "read_response env (Suc depth) \<lparr>r_bytes = encode_value (Array vs) @ rest, r_error = err\<rparr> =
    Some (Inr (Array vs), \<lparr>r_bytes = rest, r_error = err\<rparr>)"
  using assms(1,2) read_line_crlf [of "42 # dec_digits (length vs)"] read_items_encoded [OF assms(3)]
  by (cases "vs = []") (simp_all add: dec_digits_no_crlf parse_i64_digits)

lemma read_encoded:
  "decodable env depth v \<Longrightarrow> read_response env depth \<lparr>r_bytes = encode_value v @ rest, r_error = err\<rparr> =
    Some (Inr v, \<lparr>r_bytes = rest, r_error = err\<rparr>)"
proof (induction depth arbitrary: v rest)
  case (Suc depth)
  show ?case
  proof (cases v)
    case (Simple t)
    with Suc.prems read_line_crlf [of "43 # t"] show ?thesis by simp
  next
    case (Error t)
    with Suc.prems read_line_crlf [of "45 # t"] show ?thesis by simp
  next
    case (Integer n)
    with Suc.prems read_line_crlf [of "58 # dec_int n"] show ?thesis
      by (simp add: dec_int_no_crlf parse_i64_int)
  next
    case (Bulk od)
    show ?thesis
    proof (cases od)
      case None
      with Bulk read_line_crlf [of "[36, 45, 49]" rest err] show ?thesis
        by (simp add: parse_i64_def parse_bulk_len_def sat_i64_def)
    next
      case (Some d)
      with Bulk Suc.prems show ?thesis using read_encoded_bulk [of d env depth rest err] by simp
    qed
  next
    case (Array vs)
    with Suc.prems have "\<And>v rest. v \<in> set vs \<Longrightarrow>
        read_response env depth \<lparr>r_bytes = encode_value v @ rest, r_error = err\<rparr> =
          Some (Inr v, \<lparr>r_bytes = rest, r_error = err\<rparr>)"
      using Suc.IH by (auto simp: list_all_iff)
    from read_encoded_array [OF _ _ this] Array Suc.prems show ?thesis by simp
  qed
qed simp

section \<open>Reading ends\<close>

lemma length_take_drop_while: "length (takeWhile P xs) + length (dropWhile P xs) = length xs"
  by (simp flip: length_append)

lemma read_until_lf_length:
  "read_until_lf r = (Inr buf, r') \<Longrightarrow> length (r_bytes r') + length buf = length (r_bytes r)"
  using length_take_drop_while [of "\<lambda>b. b \<noteq> 10" "r_bytes r"]
  by (auto simp: read_until_lf_def Let_def split: list.splits option.splits simp del: dropWhile_eq_Nil_conv)

lemma client_read_line_shorter:
  "client_read_line r = (Inr l, r') \<Longrightarrow> length (r_bytes r') < length (r_bytes r)"
  by (auto simp: client_read_line_def split: prod.splits sum.splits if_splits dest!: read_until_lf_length)

lemma read_exact_length: "read_exact n r = (x, r') \<Longrightarrow> length (r_bytes r') \<le> length (r_bytes r)"
  by (auto simp: read_exact_def split: if_splits)

lemma parse_bulk_len_length:
  "parse_bulk_len env len r = Some (x, r') \<Longrightarrow> length (r_bytes r') \<le> length (r_bytes r)"
  by (auto simp: parse_bulk_len_def split: if_splits prod.splits sum.splits dest!: read_exact_length)

lemma read_response_shorter:
  "read_response env depth r = Some (Inr v, r') \<Longrightarrow> length (r_bytes r') < length (r_bytes r)"
  "parse_array_len env depth len r = Some (Inr v, r') \<Longrightarrow> length (r_bytes r') \<le> length (r_bytes r)"
  "read_items env depth n r = Some (Inr vs, r') \<Longrightarrow> length (r_bytes r') \<le> length (r_bytes r)"
proof (induction env depth r and env depth len r and env depth n r arbitrary: v r' and v r' and vs r'
    rule: read_response_parse_array_len_read_items.induct)
  case (2 env depth r)
  from 2(2) obtain b line r1 where line: "client_read_line r = (Inr (b # line), r1)"
    by (auto split: prod.splits sum.splits list.splits)
  have "length (r_bytes r') \<le> length (r_bytes r1)"
    using 2 line by (auto split: if_splits sum.splits dest!: parse_bulk_len_length)
  with client_read_line_shorter [OF line] show ?case by simp
next
  case (3 env depth len r)
  then show ?case by (auto simp: bind_eq_Some_conv split: if_splits)
next
  case (5 env depth n r)
  from 5(3) obtain x r1 ys where "read_response env depth r = Some (Inr x, r1)"
    "read_items env depth n r1 = Some (Inr ys, r')"
    by (cases rule: sum.exhaust [of "fst (the (read_response env depth r))"])
      (auto simp: bind_eq_Some_conv)
  with 5(1,2) show ?case by fastforce
qed auto

text \<open>
  The decoder allocates what the stream announces. \<open>announces kind n bs\<close>: a line of \<open>bs\<close> (or its last
  bytes, after a CR) announces, after the byte \<open>kind\<close>, the length \<open>n\<close>; \<open>exhausts env bs\<close>: one of the
  announced lengths, of a bulk string or of an array, is more than the process can allocate.
\<close>

definition announces :: "byte \<Rightarrow> nat \<Rightarrow> bytes \<Rightarrow> bool" where
  "announces kind n bs \<longleftrightarrow> (\<exists>pre line b rest. bs = pre @ kind # line @ [13, b] @ rest \<and> 10 \<notin> set line \<and>
     (b = 10 \<or> rest = []) \<and> parse_i64 line = Inr (int n))"

definition exhausts :: "client_env \<Rightarrow> bytes \<Rightarrow> bool" where
  "exhausts env bs \<longleftrightarrow> (\<exists>n. announces 36 n bs \<and> \<not> alloc_bytes env n) \<or>
     (\<exists>n. announces 42 n bs \<and> 0 < n \<and> \<not> alloc_items env n)"

lemma announces_drop: "announces kind n (drop m bs) \<Longrightarrow> announces kind n bs"
  unfolding announces_def by (metis append.assoc append_take_drop_id)

lemma exhausts_drop: "exhausts env (drop m bs) \<Longrightarrow> exhausts env bs"
  unfolding exhausts_def by (meson announces_drop)

text \<open>What the decoder leaves is the end of what it was given.\<close>

lemma read_until_lf_split:
  assumes "read_until_lf r = (Inr buf, r')"
  shows "\<exists>pre. 10 \<notin> set pre \<and> r_bytes r = buf @ r_bytes r' \<and> (buf = pre @ [10] \<or> buf = pre \<and> r_bytes r' = [])"
proof (cases "10 \<in> set (r_bytes r)")
  case True
  then obtain pre rest where split: "r_bytes r = pre @ 10 # rest" "10 \<notin> set pre" by (meson split_list_first)
  then have "takeWhile (\<lambda>b. b \<noteq> 10) (r_bytes r) = pre" "dropWhile (\<lambda>b. b \<noteq> 10) (r_bytes r) = 10 # rest"
    by (simp_all add: takeWhile_append dropWhile_append)
  with assms split show ?thesis by (auto simp: read_until_lf_def)
next
  case False
  then have "takeWhile (\<lambda>b. b \<noteq> 10) (r_bytes r) = r_bytes r" "dropWhile (\<lambda>b. b \<noteq> 10) (r_bytes r) = []"
    by (auto simp: takeWhile_eq_all_conv)
  with assms False show ?thesis by (auto simp: read_until_lf_def simp del: dropWhile_eq_Nil_conv split: option.splits)
qed

lemma client_read_line_split:
  assumes "client_read_line r = (Inr l, r')"
  shows "\<exists>b. r_bytes r = l @ [13, b] @ r_bytes r' \<and> 10 \<notin> set l \<and> (b = 10 \<or> r_bytes r' = [])"
proof -
  obtain buf where buf: "read_until_lf r = (Inr buf, r')" "2 \<le> length buf" "buf ! (length buf - 2) = 13"
    "l = take (length buf - 2) buf"
    using assms by (auto simp: client_read_line_def split: prod.splits sum.splits if_splits)
  then obtain b where b: "buf = l @ [13, b]"
    by (cases buf rule: rev_cases; cases "butlast buf" rule: rev_cases) (auto simp: nth_append)
  with read_until_lf_split [OF buf(1)] show ?thesis by (auto simp: append_eq_append_conv2 Cons_eq_append_conv)
qed

definition rest_of :: "reader \<Rightarrow> reader \<Rightarrow> bool" where
  "rest_of r r' \<longleftrightarrow> (\<exists>m. r_bytes r' = drop m (r_bytes r))"

lemma rest_of_refl [simp]: "rest_of r r"
  unfolding rest_of_def by (metis drop_0)

lemma rest_of_trans: "rest_of r r1 \<Longrightarrow> rest_of r1 r2 \<Longrightarrow> rest_of r r2"
  unfolding rest_of_def by (metis drop_drop)

lemma exhausts_rest: "rest_of r r' \<Longrightarrow> exhausts env (r_bytes r') \<Longrightarrow> exhausts env (r_bytes r)"
  by (auto simp: rest_of_def dest: exhausts_drop)

lemma line_rest: "client_read_line r = (Inr l, r') \<Longrightarrow> rest_of r r'"
proof -
  assume "client_read_line r = (Inr l, r')"
  then obtain b where "r_bytes r = (l @ [13, b]) @ r_bytes r'" using client_read_line_split by fastforce
  then show ?thesis unfolding rest_of_def by (metis append_eq_conv_conj)
qed

lemma bulk_rest: "parse_bulk_len env len r = Some (Inr v, r') \<Longrightarrow> rest_of r r'"
  by (auto simp: parse_bulk_len_def read_exact_def rest_of_def intro: exI [of _ 0] split: if_splits)

lemma read_response_rest:
  "read_response env depth r = Some (Inr v, r') \<Longrightarrow> rest_of r r'"
  "parse_array_len env depth len r = Some (Inr v, r') \<Longrightarrow> rest_of r r'"
  "read_items env depth n r = Some (Inr vs, r') \<Longrightarrow> rest_of r r'"
proof (induction env depth r and env depth len r and env depth n r arbitrary: v r' and v r' and vs r'
    rule: read_response_parse_array_len_read_items.induct)
  case (2 env depth r)
  from 2(2) obtain b line r1 where line: "client_read_line r = (Inr (b # line), r1)"
    by (auto split: prod.splits sum.splits list.splits)
  have "rest_of r1 r'" using 2 line by (auto split: if_splits sum.splits dest!: bulk_rest)
  with line_rest [OF line] show ?case by (rule rest_of_trans)
next
  case (3 env depth len r)
  then show ?case by (auto simp: bind_eq_Some_conv split: if_splits)
next
  case (5 env depth n r)
  from 5(3) obtain x r1 ys where "read_response env depth r = Some (Inr x, r1)"
    "read_items env depth n r1 = Some (Inr ys, r')"
    by (cases rule: sum.exhaust [of "fst (the (read_response env depth r))"])
      (auto simp: bind_eq_Some_conv)
  with 5(1,2) show ?case by (fastforce intro: rest_of_trans)
qed auto

text \<open>With a call depth beyond the bytes to read, the decoder stops only where it cannot allocate.\<close>

lemma announced_line:
  assumes "client_read_line r = (Inr (kind # line), r')" and "parse_i64 line = Inr (int n)"
  shows "announces kind n (r_bytes r)"
proof -
  obtain b where "r_bytes r = [] @ kind # line @ [13, b] @ r_bytes r'" "10 \<notin> set line" "b = 10 \<or> r_bytes r' = []"
    using client_read_line_split [OF assms(1)] by auto
  with assms(2) show ?thesis unfolding announces_def by blast
qed

lemma bulk_line_total:
  "client_read_line r = (Inr (36 # line), r') \<Longrightarrow> parse_i64 line = Inr len \<Longrightarrow>
    parse_bulk_len env len r' \<noteq> None \<or> exhausts env (r_bytes r)"
  using announced_line [of r 36 line r' "nat len"] by (auto simp: parse_bulk_len_def exhausts_def)

lemma array_line_total:
  "client_read_line r = (Inr (42 # line), r') \<Longrightarrow> parse_i64 line = Inr len \<Longrightarrow>
    (0 < len \<longrightarrow> alloc_items env (nat len)) \<or> exhausts env (r_bytes r)"
  using announced_line [of r 42 line r' "nat len"] by (auto simp: exhausts_def)

lemma read_response_total:
  "length (r_bytes r) < depth \<Longrightarrow> read_response env depth r \<noteq> None \<or> exhausts env (r_bytes r)"
  "length (r_bytes r) < depth \<Longrightarrow> 0 < len \<longrightarrow> alloc_items env (nat len) \<Longrightarrow>
    parse_array_len env depth len r \<noteq> None \<or> exhausts env (r_bytes r)"
  "length (r_bytes r) < depth \<Longrightarrow> read_items env depth n r \<noteq> None \<or> exhausts env (r_bytes r)"
proof (induction env depth r and env depth len r and env depth n r
    rule: read_response_parse_array_len_read_items.induct)
  case (2 env depth r)
  show ?case
  proof (cases "client_read_line r")
    case (Pair x r1)
    show ?thesis
    proof (cases x)
      case (Inr l)
      show ?thesis
      proof (cases l)
        case (Cons b line)
        note line = Pair [unfolded Inr Cons]
        have short: "length (r_bytes r1) < depth" using client_read_line_shorter [OF line] 2(2) by simp
        have "parse_array_len env depth len r1 \<noteq> None \<or> exhausts env (r_bytes r)"
          if b: "b = 42" and len: "parse_i64 line = Inr len" for len
          using array_line_total [OF line [unfolded b] len, of env] exhausts_rest [OF line_rest [OF line]]
            2(1) [OF line [symmetric] refl refl _ _ _ _ b len short] b by auto
        with line bulk_line_total show ?thesis by (auto split: sum.splits)
      qed (use Pair Inr in simp)
    qed (use Pair in simp)
  qed
next
  case (3 env depth len r)
  then show ?case by auto
next
  case (5 env depth n r)
  show ?case
  proof (cases "read_response env depth r")
    case None
    with 5(1,3) show ?thesis by simp
  next
    case (Some res)
    then obtain x r1 where x: "read_response env depth r = Some (x, r1)" by (cases res) simp
    show ?thesis
    proof (cases x)
      case (Inr v)
      with x have "length (r_bytes r1) < depth" "rest_of r r1"
        using read_response_shorter(1) read_response_rest(1) 5(3) by fastforce+
      with 5(2) [OF x refl Inr] x Inr show ?thesis using exhausts_rest by auto
    qed (use x in simp)
  qed
qed auto

text \<open>A length that cannot be allocated ends the reading, whatever follows it.\<close>

lemma announced_length_stops:
  assumes "n < 2 ^ 63"
  shows "\<not> alloc_bytes env n \<Longrightarrow>
      read_response env depth \<lparr>r_bytes = [36] @ dec_digits n @ [13, 10] @ rest, r_error = err\<rparr> = None"
    and "0 < n \<Longrightarrow> \<not> alloc_items env n \<Longrightarrow>
      read_response env depth \<lparr>r_bytes = [42] @ dec_digits n @ [13, 10] @ rest, r_error = err\<rparr> = None"
  using read_line_crlf [of "36 # dec_digits n"] read_line_crlf [of "42 # dec_digits n"] assms
  by (cases depth; simp add: dec_digits_no_crlf parse_i64_digits parse_bulk_len_def)+

end
