(* ===== verification/Server_Laws.thy ===== *)
theory Server_Laws
  imports Server Client_Resp
begin

text \<open>
  What the server does with a request: the reply of each command in terms of the engine's view,
  that every reply is one well-formed RESP value, that the engine's invariant is kept and when a
  handler panics, that a connection gives the same replies however its input is cut into reads, and
  how the counters follow the replies.
\<close>

section \<open>Case-insensitive command names\<close>

lemma eq_ignore_map:
  "eq_ignore_ascii_case a b \<longleftrightarrow> map to_ascii_lowercase a = map to_ascii_lowercase b"
proof -
  have "length a = length b \<Longrightarrow>
      list_all (\<lambda>(x, y). to_ascii_lowercase x = to_ascii_lowercase y) (zip a b) \<longleftrightarrow>
        map to_ascii_lowercase a = map to_ascii_lowercase b"
    by (induction a b rule: list_induct2) auto
  then show ?thesis
    unfolding eq_ignore_ascii_case_def by (metis length_map)
qed

text \<open>The name of a command after case folding selects its handler.\<close>

lemma dispatch_cases:
  "dispatch_command (cmd # args) clk e m =
    (let name = map to_ascii_lowercase cmd in
     if name = ascii ''ping'' then Some (handle_ping (cmd # args), e)
     else if name = ascii ''get'' then handle_get (cmd # args) clk e
     else if name = ascii ''set'' then handle_set (cmd # args) clk e
     else if name = ascii ''del'' then handle_del (cmd # args) clk e
     else if name = ascii ''expire'' then handle_expire (cmd # args) clk e
     else if name = ascii ''ttl'' then handle_ttl (cmd # args) clk e
     else if name = ascii ''info'' then Some (handle_info m (clk 0), e)
     else Some (resp_error (ascii ''unknown command''), e))"
  by (simp add: dispatch_command_def eq_ignore_map to_ascii_lowercase_def ascii_simps)

section \<open>Replies as RESP values\<close>

text \<open>The values the server sends: every one but an array.\<close>

definition wire_value :: "RespValue \<Rightarrow> bool" where
  "wire_value v = (case v of
     Simple t \<Rightarrow> 10 \<notin> set t | Error t \<Rightarrow> 10 \<notin> set t | Integer n \<Rightarrow> \<bar>n\<bar> \<le> i64_max
   | Bulk d \<Rightarrow> True | Array vs \<Rightarrow> False)"

definition is_reply :: "bytes \<Rightarrow> bool" where
  "is_reply r \<longleftrightarrow> (\<exists>v. r = encode_value v \<and> wire_value v)"

lemma encode_simple: "resp_simple t = encode_value (Simple t)"
  by (simp add: resp_simple_def)

lemma encode_error: "resp_error t = encode_value (Error (ascii ''ERR '' @ t))"
  by (simp add: resp_error_def ascii_simps)

lemma encode_integer: "resp_integer n = encode_value (Integer n)"
  by (simp add: resp_integer_def)

lemma encode_bulk: "resp_bulk d = encode_value (Bulk (Some d))"
  by (simp add: resp_bulk_def bulk_frame_def)

lemma encode_null: "resp_null = encode_value (Bulk None)"
  by (simp add: resp_null_def)

lemmas encode_reply = encode_simple encode_error encode_integer encode_bulk encode_null

lemma is_replyI:
  "10 \<notin> set t \<Longrightarrow> is_reply (resp_simple t)"
  "10 \<notin> set t \<Longrightarrow> is_reply (resp_error t)"
  "\<bar>n\<bar> \<le> i64_max \<Longrightarrow> is_reply (resp_integer n)"
  "is_reply (resp_bulk d)" "is_reply resp_null"
  unfolding is_reply_def encode_reply
  by (auto simp: wire_value_def ascii_simps simp del: encode_value.simps)

section \<open>The engine behind a handler\<close>

text \<open>
  \<open>engine_ok\<close>: the engine's invariant, and every deadline is an instant, as \<open>instant_add\<close> guarantees
  when it is set.
\<close>

definition engine_ok :: "memory_engine \<Rightarrow> bool" where
  "engine_ok e \<longleftrightarrow> engine_inv e \<and> (\<forall>k v t. view e k = Some (v, Some t) \<longrightarrow> t < instant_limit)"

lemma engine_ok_le:
  "engine_ok e \<Longrightarrow> engine_inv e' \<Longrightarrow> view e' \<subseteq>\<^sub>m (view e)(k := x) \<Longrightarrow>
    (\<And>v t. x = Some (v, Some t) \<Longrightarrow> t < instant_limit) \<Longrightarrow> engine_ok e'"
  unfolding engine_ok_def map_le_iff by (metis fun_upd_apply)

lemma engine_ok_sub: "engine_ok e \<Longrightarrow> engine_inv e' \<Longrightarrow> view e' \<subseteq>\<^sub>m view e \<Longrightarrow> engine_ok e'"
  unfolding engine_ok_def map_le_iff by metis

lemma engine_ok_inv: "engine_ok e \<Longrightarrow> engine_inv e"
  by (simp add: engine_ok_def)

lemma get_ok:
  assumes "engine_ok e"
  obtains e' where "kv_get e now k = Some (Inr (map_option fst (live_at now (view e) k)), e')"
    "engine_ok e'" "same_config e e'" "live_eq now (view e') (view e)"
  using kv_get_law [OF engine_ok_inv [OF assms]] engine_ok_sub [OF assms] by blast

lemma set_ok:
  assumes "engine_ok e"
  obtains e' where "kv_set e now k v = Some (Inr (), e')" "engine_ok e'" "same_config e e'"
    "e_max_bytes e = - 1 \<Longrightarrow> view e' = (view e)(k \<mapsto> (v, None))"
proof -
  from kv_set_law [OF engine_ok_inv [OF assms], of now k v] obtain e' where e':
    "kv_set e now k v = Some (Inr (), e')" "engine_inv e'" "same_config e e'"
    "view e' \<subseteq>\<^sub>m (view e)(k \<mapsto> (v, None))" "e_max_bytes e = - 1 \<longrightarrow> view e' = (view e)(k \<mapsto> (v, None))"
    by blast
  from engine_ok_le [OF assms e'(2,4)] have "engine_ok e'" by simp
  with e' that show thesis by blast
qed

lemma delete_ok:
  assumes "engine_ok e"
  obtains e' where "kv_delete e now k = Some (Inr (live_at now (view e) k \<noteq> None), e')"
    "engine_ok e'" "same_config e e'" "view e' = (view e)(k := None)"
proof -
  from kv_delete_law [OF engine_ok_inv [OF assms], of now k] obtain e' where e':
    "kv_delete e now k = Some (Inr (live_at now (view e) k \<noteq> None), e')" "engine_inv e'" "same_config e e'"
    "view e' = (view e)(k := None)" by blast
  from engine_ok_le [OF assms e'(2), of k None] have "engine_ok e'" by (simp add: e'(4))
  with e' that show thesis by blast
qed

lemma ttl_ok:
  assumes "engine_ok e"
  obtains e' where "kv_ttl e now k = Some (Inr (case live_at now (view e) k of
        None \<Rightarrow> Missing | Some (v, None) \<Rightarrow> NoExpiry | Some (v, Some t) \<Rightarrow> ExpiresIn (t - now)), e')"
    "engine_ok e'" "same_config e e'" "live_eq now (view e') (view e)"
  using kv_ttl_law [OF engine_ok_inv [OF assms]] engine_ok_sub [OF assms] by blast

lemma expire_ok [consumes 1, case_names missing applied panic]:
  assumes "engine_ok e"
  obtains e' where "live_at now (view e) k = None" "kv_expire e now k dur = Some (Inl NotFound, e')"
      "engine_ok e'" "same_config e e'" "live_eq now (view e') (view e)"
  | v d t e' where "live_at now (view e) k = Some (v, d)" "instant_add now dur = Some t"
      "kv_expire e now k dur = Some (Inr (), e')" "engine_ok e'" "same_config e e'"
      "view e' = (view e)(k \<mapsto> (v, Some t))"
  | "kv_expire e now k dur = None" "instant_add now dur = None"
proof (cases "live_at now (view e) k")
  case None
  from kv_expire_missing [OF engine_ok_inv [OF assms] None, of dur] obtain e' where
    "kv_expire e now k dur = Some (Inl NotFound, e')" "engine_inv e'" "same_config e e'"
    "live_eq now (view e') (view e)" "view e' \<subseteq>\<^sub>m view e" by blast
  with None engine_ok_sub [OF assms] that(1) show thesis by blast
next
  case (Some x)
  obtain v d where x: "x = (v, d)" by (cases x)
  show thesis
  proof (cases "instant_add now dur")
    case None
    from kv_expire_panic [OF engine_ok_inv [OF assms] Some [unfolded x] None] None show thesis by (rule that(3))
  next
    case t: (Some t)
    from kv_expire_live [OF engine_ok_inv [OF assms] Some [unfolded x] t] obtain e' where e':
      "kv_expire e now k dur = Some (Inr (), e')" "engine_inv e'" "same_config e e'"
      "view e' = (view e)(k \<mapsto> (v, Some t))" by blast
    have "t < instant_limit" using t by (auto simp: instant_add_def split: if_splits)
    then have "engine_ok e'"
      using engine_ok_le [OF assms e'(2), of k "Some (v, Some t)"] by (simp add: e'(4))
    from that(2) [OF Some [unfolded x] t e'(1) this e'(3,4)] show thesis .
  qed
qed

text \<open>
  \<open>overflows\<close>: the seconds of an \<^verbatim>\<open>EXPIRE\<close>, or of a \<^verbatim>\<open>SET\<close> with \<^verbatim>\<open>EX\<close>, lead beyond the last instant from
  the reading of the clock that the handler adds them to. \<open>served\<close> is what a
  handler owes its caller: a reply that is a RESP value and an engine in order; it may panic only
  on a deadline that is no instant.
\<close>

definition overflows :: "(nat \<Rightarrow> instant) \<Rightarrow> bytes list \<Rightarrow> bool" where
  "overflows clk args \<longleftrightarrow>
     length args = 3 \<and> eq_ignore_ascii_case (args ! 0) (ascii ''EXPIRE'') \<and>
       (\<exists>s. parse_u64 (args ! 2) = Inr s \<and> instant_add (clk 0) (from_secs s) = None) \<or>
     length args = 5 \<and> eq_ignore_ascii_case (args ! 0) (ascii ''SET'') \<and> eq_ignore_ascii_case (args ! 3) (ascii ''EX'') \<and>
       (\<exists>s. parse_u64 (args ! 4) = Inr s \<and> instant_add (clk 1) (from_secs s) = None)"

definition served :: "memory_engine \<Rightarrow> (nat \<Rightarrow> instant) \<Rightarrow> bytes list \<Rightarrow> handler_result \<Rightarrow> bool" where
  "served e clk args res \<longleftrightarrow> (case res of
     None \<Rightarrow> overflows clk args
   | Some (r, e') \<Rightarrow> engine_ok e' \<and> same_config e e' \<and> is_reply r)"

lemma served_Some [simp]:
  "served e clk args (Some (r, e')) \<longleftrightarrow> engine_ok e' \<and> same_config e e' \<and> is_reply r"
  by (simp add: served_def)

text \<open>Fixed texts have no line feed.\<close>

lemma reply_texts [simp]:
  "is_reply (resp_simple (ascii ''OK''))" "is_reply (resp_simple (ascii ''PONG''))"
  "is_reply (resp_error (ascii ''engine error''))"
  "is_reply (resp_error (ascii ''invalid integer''))"
  "is_reply (resp_error (ascii ''empty command''))"
  "is_reply (resp_error (ascii ''unknown command''))"
  "is_reply (resp_error (ascii ''protocol error''))"
  "is_reply (resp_error (ascii ''unsupported SET options''))"
  "is_reply (resp_error (ascii ''wrong number of arguments for PING''))"
  "is_reply (resp_error (ascii ''wrong number of arguments for GET''))"
  "is_reply (resp_error (ascii ''wrong number of arguments for SET''))"
  "is_reply (resp_error (ascii ''wrong number of arguments for DEL''))"
  "is_reply (resp_error (ascii ''wrong number of arguments for EXPIRE''))"
  "is_reply (resp_error (ascii ''wrong number of arguments for TTL''))"
  "is_reply (resp_bulk d)" "is_reply resp_null"
  by (rule is_replyI; simp add: ascii_simps)+

lemma parse_u64_reply: "parse_u64 arg = Inl r \<Longrightarrow> is_reply r"
  by (auto simp: parse_u64_def split: if_splits option.splits)

lemma handle_ping_served: "engine_ok e \<Longrightarrow> served e clk args (Some (handle_ping args, e))"
  by (simp add: handle_ping_def)

lemma handle_get_served:
  assumes "engine_ok e"
  shows "served e clk args (handle_get args clk e)"
  by (rule get_ok [OF assms, of "clk 0" "args ! 1"])
    (cases "live_at (clk 0) (view e) (args ! 1)"; simp add: handle_get_def assms)

lemma handle_set_served:
  assumes "engine_ok e" and name: "eq_ignore_ascii_case (args ! 0) (ascii ''SET'')"
  shows "served e clk args (handle_set args clk e)"
proof -
  obtain f where f: "kv_set e (clk 0) (args ! 1) (args ! 2) = Some (Inr (), f)" "engine_ok f" "same_config e f"
    using set_ok [OF assms(1)] by metis
  show ?thesis
  proof (cases "length args = 5 \<and> eq_ignore_ascii_case (args ! 3) (ascii ''EX'')")
    case True
    show ?thesis
    proof (cases "parse_u64 (args ! 4)")
      case (Inl r)
      with True parse_u64_reply [OF Inl] assms show ?thesis by (simp add: handle_set_def)
    next
      case (Inr s)
      from f(2) show ?thesis
      proof (cases rule: expire_ok [where now = "clk 1" and k = "args ! 1" and dur = "from_secs s"])
        case panic
        with True Inr f name show ?thesis by (simp add: handle_set_def served_def overflows_def)
      qed (use True Inr f same_config_trans [OF f(3)] in \<open>simp_all add: handle_set_def\<close>)
    qed
  next
    case False
    with f assms show ?thesis by (auto simp: handle_set_def Let_def)
  qed
qed

lemma del_keys_served:
  "engine_ok e \<Longrightarrow> \<exists>n e'. del_keys keys clk removed e = Some (Inr n, e') \<and> engine_ok e' \<and>
    same_config e e' \<and> removed \<le> n \<and> n \<le> removed + int (length keys)"
proof (induction keys arbitrary: clk removed e)
  case (Cons k keys)
  obtain e1 where
    e1: "kv_delete e (clk 0) k = Some (Inr (live_at (clk 0) (view e) k \<noteq> None), e1)" "engine_ok e1"
      "same_config e e1" using delete_ok [OF Cons.prems] by metis
  let ?r = "if live_at (clk 0) (view e) k \<noteq> None then removed + 1 else removed"
  from Cons.IH [OF e1(2), of "\<lambda>i. clk (Suc i)" ?r] obtain n e' where
    "del_keys keys (\<lambda>i. clk (Suc i)) ?r e1 = Some (Inr n, e')" "engine_ok e'" "same_config e1 e'"
    "?r \<le> n" "n \<le> ?r + int (length keys)" by blast
  with e1 same_config_trans [OF e1(3)] show ?case
    by (cases "live_at (clk 0) (view e) k") auto
qed simp

lemma handle_del_served:
  assumes "engine_ok e" and "length args < 2 ^ 63"
  shows "served e clk args (handle_del args clk e)"
  using del_keys_served [OF assms(1), of "tl args" clk 0] assms
  by (auto simp: handle_del_def intro!: is_replyI)

lemma handle_expire_served:
  assumes e: "engine_ok e" and name: "eq_ignore_ascii_case (args ! 0) (ascii ''EXPIRE'')"
  shows "served e clk args (handle_expire args clk e)"
proof (cases "length args = 3")
  case True
  show ?thesis
  proof (cases "parse_u64 (args ! 2)")
    case (Inl r)
    with True parse_u64_reply [OF Inl] assms show ?thesis by (simp add: handle_expire_def)
  next
    case (Inr s)
    from e show ?thesis
    proof (cases rule: expire_ok [where now = "clk 0" and k = "args ! 1" and dur = "from_secs s"])
      case panic
      with True Inr name show ?thesis by (simp add: handle_expire_def served_def overflows_def)
    qed (use True Inr in \<open>simp_all add: handle_expire_def is_replyI\<close>)
  qed
qed (use assms in \<open>simp add: handle_expire_def\<close>)

lemma secs_bound: "d < instant_limit \<Longrightarrow> d div nanos_per_sec < 2 ^ 63"
  by (simp add: instant_limit_def nanos_per_sec_def less_mult_imp_div_less)

lemma sint_as_secs: "d < instant_limit \<Longrightarrow> sint (as_secs d) = int (d div nanos_per_sec)"
  using secs_bound [of d] by (simp add: as_secs_def signed_of_nat signed_take_bit_int_eq_self)

lemma live_deadline:
  assumes "engine_ok e" and "live_at now (view e) k = Some (v, Some t)"
  shows "now < t" and "t < instant_limit"
  using assms by (auto simp: live_at_def engine_ok_def split: option.splits if_splits)

lemma handle_ttl_served:
  assumes "engine_ok e"
  shows "served e clk args (handle_ttl args clk e)"
proof (cases "length args = 2")
  case True
  obtain e' where e': "kv_ttl e (clk 0) (args ! 1) = Some (Inr (case live_at (clk 0) (view e) (args ! 1) of
        None \<Rightarrow> Missing | Some (v, None) \<Rightarrow> NoExpiry | Some (v, Some t) \<Rightarrow> ExpiresIn (t - clk 0)), e')"
    "engine_ok e'" "same_config e e'" using ttl_ok [OF assms] by metis
  have "\<bar>sint (as_secs (t - clk 0))\<bar> \<le> i64_max" if "live_at (clk 0) (view e) (args ! 1) = Some (v, Some t)" for v t
  proof -
    have "t - clk 0 < instant_limit" using live_deadline(2) [OF assms that] by simp
    then show ?thesis using sint_as_secs secs_bound by fastforce
  qed
  with True e' show ?thesis
    by (auto simp: handle_ttl_def is_replyI split: option.splits)
qed (use assms in \<open>simp add: handle_ttl_def\<close>)

lemma dispatch_served:
  assumes "engine_ok e" and "length args < 2 ^ 63"
  shows "served e clk args (dispatch_command args clk e m)"
  unfolding dispatch_command_def Let_def
  using assms handle_ping_served handle_get_served handle_set_served handle_del_served
    handle_expire_served handle_ttl_served
  by (simp add: handle_info_def Let_def)

section \<open>Reads of any size\<close>

text \<open>What the outside can tell of a connection: how it ended, the replies, the engine, the counters.\<close>

definition visible ::
    "conn_status \<times> resp_parser \<times> bytes \<times> server_conn \<Rightarrow> conn_status \<times> server_conn" where
  "visible = (\<lambda>(status, parser, buffer, c). (status, c))"

lemma serve_buffer_append:
  assumes "length (buf @ suf) < 2 ^ 64 - 2"
  shows "case serve_buffer env p buf c of
      None \<Rightarrow> serve_buffer env p (buf @ suf) c = None
    | Some (status, p', buf', c') \<Rightarrow>
        if status = Waiting then
          serve_buffer env p (buf @ suf) c = serve_buffer env p' (buf' @ suf) c' \<and> length buf' \<le> length buf
        else serve_buffer env p (buf @ suf) c = Some (status, p', buf' @ suf, c')"
  using assms
proof (induction env p buf c rule: serve_buffer.induct)
  case (1 env p buf c)
  show ?case
  proof (cases "parse p buf")
    case None
    with parse_panic_append [OF None 1(2)] show ?thesis by (simp add: serve_buffer.simps)
  next
    case (Some rpb)
    obtain r q b where rpb: "rpb = (r, q, b)" by (cases rpb)
    note pa = Some [unfolded rpb]
    note app = parse_append [OF pa, of suf] and len = parse_length [OF pa]
    consider (wait) "r = Inr None" | (req) args where "r = Inr (Some args)" | (err) err where "r = Inl err"
      by (metis option.exhaust sum.exhaust)
    then show ?thesis
    proof cases
      case wait
      with pa app len show ?thesis
        unfolding serve_buffer.simps [of env p] by (simp add: serve_buffer.simps [of env q "b @ suf" c])
    next
      case (err err)
      with pa app show ?thesis
        unfolding serve_buffer.simps [of env p]
        by (cases "serve_protocol_error env c") (auto split: if_splits)
    next
      case (req args)
      show ?thesis
      proof (cases "serve_request env args c")
        case None
        with pa app req show ?thesis unfolding serve_buffer.simps [of env p] by simp
      next
        case sr: (Some okc)
        obtain ok c1 where okc: "okc = (ok, c1)" by (cases okc)
        show ?thesis
        proof (cases ok)
          case False
          with pa app req sr okc show ?thesis unfolding serve_buffer.simps [of env p] by simp
        next
          case True
          have run: "serve_buffer env p buf c = serve_buffer env q b c1"
            "serve_buffer env p (buf @ suf) c = serve_buffer env q (b @ suf) c1"
            using pa app req sr okc True by (simp_all add: serve_buffer.simps [of env p])
          from 1(1) [OF pa refl refl req refl sr [unfolded okc] refl True] 1(2) len req
          show ?thesis unfolding run by (auto split: option.splits if_splits)
        qed
      qed
    qed
  qed
qed

lemma two_chunks:
  assumes "a \<noteq> []" and "b \<noteq> []" and "length (buf @ a @ b) < 2 ^ 64 - 2"
  shows "map_option visible (handle_connection env (Chunk a # Chunk b # reads) p buf c) =
    map_option visible (handle_connection env (Chunk (a @ b) # reads) p buf c)"
  using serve_buffer_append [of "buf @ a" b env p c] assms
  by (auto simp: visible_def split: option.splits if_splits)

theorem chunks_join:
  assumes "\<forall>b\<in>set (a # bs). b \<noteq> []" and "length (buf @ concat (a # bs)) < 2 ^ 64 - 2"
  shows "map_option visible (handle_connection env (map Chunk (a # bs) @ reads) p buf c) =
    map_option visible (handle_connection env (Chunk (concat (a # bs)) # reads) p buf c)"
  using assms
proof (induction bs arbitrary: a)
  case (Cons b bs)
  from two_chunks [of a b buf env "map Chunk bs @ reads" p c] Cons.prems
  have "map_option visible (handle_connection env (map Chunk (a # b # bs) @ reads) p buf c) =
      map_option visible (handle_connection env (map Chunk ((a @ b) # bs) @ reads) p buf c)"
    by simp
  also have "\<dots> = map_option visible (handle_connection env (Chunk (concat ((a @ b) # bs)) # reads) p buf c)"
    using Cons.prems by (intro Cons.IH) auto
  finally show ?case by simp
qed simp

end
