(* ===== verification/Server_Counters.thy ===== *)
theory Server_Counters
  imports Server
begin

text \<open>
  How the counters of a connection follow its replies. A connection whose writes succeed has counted
  every reply once, as a request, as a latency sample and, if it is an error reply, as an error, and
  leaves the in-flight gauge where it was. A failed write ends the connection; the request that was
  being answered stays counted, as a request in flight and as an error if its reply was one.
\<close>

definition hist_ok :: "latency_histogram \<Rightarrow> bool" where
  "hist_ok h \<longleftrightarrow> length (h_buckets h) = length (h_bounds_us h) + 1"

lemma hist_ok_new: "hist_ok (m_latency (with_latency_buckets now bounds))"
  by (simp add: hist_ok_def with_latency_buckets_def histogram_new_def)

lemma histogram_record_ok:
  assumes "hist_ok h"
  obtains h' where "histogram_record h d = Some h'" "hist_ok h'" "h_samples h' = h_samples h + 1"
  using assms bucket_index_le [of "h_bounds_us h" "as_micros d"]
  by (auto simp: histogram_record_def hist_ok_def Let_def)

text \<open>\<open>accounted env c c' rs\<close>: from \<open>c\<close> to \<open>c'\<close> exactly the replies \<open>rs\<close> were written and counted.\<close>

definition accounted :: "conn_env \<Rightarrow> server_conn \<Rightarrow> server_conn \<Rightarrow> bytes list \<Rightarrow> bool" where
  "accounted env c c' rs \<longleftrightarrow>
     sc_replies c' = sc_replies c @ rs \<and>
     list_all (env_write env) [length (sc_replies c)..<length (sc_replies c')] \<and>
     hist_ok (m_latency (sc_metrics c')) \<and>
     m_requests_total (sc_metrics c') = m_requests_total (sc_metrics c) + of_nat (length rs) \<and>
     m_errors_total (sc_metrics c') =
       m_errors_total (sc_metrics c) + of_nat (length (filter is_error_response rs)) \<and>
     m_inflight (sc_metrics c') = m_inflight (sc_metrics c) \<and>
     h_samples (m_latency (sc_metrics c')) = h_samples (m_latency (sc_metrics c)) + of_nat (length rs)"

text \<open>\<open>abandoned env c c' r\<close>: a request was counted, and its reply \<open>r\<close> could not be written.\<close>

definition abandoned :: "conn_env \<Rightarrow> server_conn \<Rightarrow> server_conn \<Rightarrow> bytes \<Rightarrow> bool" where
  "abandoned env c c' r \<longleftrightarrow>
     sc_replies c' = sc_replies c \<and> \<not> env_write env (length (sc_replies c)) \<and>
     m_errors_total (sc_metrics c') = m_errors_total (sc_metrics c) + of_nat (length (filter is_error_response [r])) \<and>
     m_requests_total (sc_metrics c') = m_requests_total (sc_metrics c) + 1 \<and>
     m_inflight (sc_metrics c') = m_inflight (sc_metrics c) + 1 \<and>
     h_samples (m_latency (sc_metrics c')) = h_samples (m_latency (sc_metrics c))"

lemma accounted_refl: "hist_ok (m_latency (sc_metrics c)) \<Longrightarrow> accounted env c c []"
  by (simp add: accounted_def)

lemma accounted_trans: "accounted env c d rs \<Longrightarrow> accounted env d e qs \<Longrightarrow> accounted env c e (rs @ qs)"
  by (auto simp: accounted_def list_all_iff not_less)

lemma accounted_hist: "accounted env c d rs \<Longrightarrow> hist_ok (m_latency (sc_metrics d))"
  by (simp add: accounted_def)

lemma write_reply_counts:
  assumes "write_reply env r (c\<lparr>sc_engine := e, sc_metrics := m\<rparr>) = Some (ok, c')"
    and "hist_ok (m_latency (sc_metrics c))"
    and "m = (if is_error_response r then record_error (record_request_start (sc_metrics c))
              else record_request_start (sc_metrics c))"
  shows "if ok then accounted env c c' [r] else abandoned env c c' r"
proof -
  have h: "m_latency m = m_latency (sc_metrics c)"
    using assms(3) by (simp add: record_error_def record_request_start_def)
  let ?k = "length (sc_replies c)"
  let ?d = "elapsed (rq_start (env_clock env ?k)) (rq_end (env_clock env ?k))"
  obtain h' where h': "histogram_record (m_latency m) ?d = Some h'" "hist_ok h'"
    "h_samples h' = h_samples (m_latency (sc_metrics c)) + 1"
    using histogram_record_ok [of "m_latency m" ?d] assms(2) h by metis
  show ?thesis
    using assms(1,3) h' h
    by (auto simp: write_reply_def record_request_end_def accounted_def abandoned_def record_error_def
        record_request_start_def Let_def split: if_splits)
qed

lemma serve_request_counts:
  assumes "serve_request env args c = Some (ok, c')" and "hist_ok (m_latency (sc_metrics c))"
  shows "\<exists>r. if ok then accounted env c c' [r] else abandoned env c c' r"
proof -
  let ?m = "record_request_start (sc_metrics c)"
  obtain r e where w: "write_reply env r (c\<lparr>sc_engine := e,
      sc_metrics := if is_error_response r then record_error ?m else ?m\<rparr>) = Some (ok, c')"
    using assms(1) by (auto simp: serve_request_def Let_def bind_eq_Some_conv)
  from write_reply_counts [OF w assms(2) refl] show ?thesis by (auto split: if_splits)
qed

lemma serve_protocol_error_counts:
  assumes "serve_protocol_error env c = Some (ok, c')" and "hist_ok (m_latency (sc_metrics c))"
  shows "\<exists>r. if ok then accounted env c c' [r] else abandoned env c c' r"
proof -
  let ?r = "resp_error (ascii ''protocol error'')"
  have err: "is_error_response ?r" by (simp add: is_error_response_def resp_error_def ascii_simps)
  have eq: "c\<lparr>sc_metrics := m\<rparr> = c\<lparr>sc_engine := sc_engine c, sc_metrics := m\<rparr>" for m by simp
  have w: "write_reply env ?r (c\<lparr>sc_engine := sc_engine c,
      sc_metrics := record_error (record_request_start (sc_metrics c))\<rparr>) = Some (ok, c')"
    using assms(1) by (simp only: serve_protocol_error_def flip: eq)
  from write_reply_counts [OF w assms(2)] err show ?thesis by (auto split: if_splits)
qed

text \<open>What a connection has counted when it stops.\<close>

definition settled :: "conn_env \<Rightarrow> conn_status \<Rightarrow> server_conn \<Rightarrow> server_conn \<Rightarrow> bool" where
  "settled env status c c' \<longleftrightarrow>
     (if status = WriteError then \<exists>rs d r. accounted env c d rs \<and> abandoned env d c' r
      else \<exists>rs. accounted env c c' rs)"

lemma settled_trans: "accounted env c d rs \<Longrightarrow> settled env status d c' \<Longrightarrow> settled env status c c'"
  unfolding settled_def by (metis accounted_trans)

lemma serve_buffer_settled:
  "serve_buffer env p buf c = Some (status, p', buf', c') \<Longrightarrow> hist_ok (m_latency (sc_metrics c)) \<Longrightarrow>
    settled env status c c'"
proof (induction env p buf c rule: serve_buffer.induct)
  case (1 env p buf c)
  from 1(2) obtain r q b where pa: "parse p buf = Some (r, q, b)"
    and rest: "(case r of
        Inr (Some args) \<Rightarrow> do {
          (ok, c) \<leftarrow> serve_request env args c;
          (if ok then serve_buffer env q b c else Some (WriteError, q, b, c))
        }
      | Inr None \<Rightarrow> Some (Waiting, q, b, c)
      | Inl _ \<Rightarrow> do {
          (ok, c) \<leftarrow> serve_protocol_error env c;
          Some (if ok then Closed else WriteError, q, b, c)
        }) = Some (status, p', buf', c')"
    by (subst (asm) serve_buffer.simps) (auto simp: bind_eq_Some_conv)
  consider (wait) "r = Inr None" | (req) args where "r = Inr (Some args)" | (err) err where "r = Inl err"
    by (metis option.exhaust sum.exhaust)
  then show ?case
  proof cases
    case wait
    with rest accounted_refl [OF 1(3)] show ?thesis by (auto simp: settled_def)
  next
    case (err err)
    with rest obtain ok where "serve_protocol_error env c = Some (ok, c')"
      "status = (if ok then Closed else WriteError)"
      by (auto simp: bind_eq_Some_conv)
    with serve_protocol_error_counts [OF this(1) 1(3)] accounted_refl [OF 1(3)] show ?thesis
      by (fastforce simp: settled_def split: if_splits)
  next
    case (req args)
    with rest obtain ok c1 where sr: "serve_request env args c = Some (ok, c1)"
      and cont: "(if ok then serve_buffer env q b c1 else Some (WriteError, q, b, c1)) = Some (status, p', buf', c')"
      by (auto simp: bind_eq_Some_conv)
    show ?thesis
    proof (cases ok)
      case True
      with serve_request_counts [OF sr 1(3)] obtain x where acc: "accounted env c c1 [x]" by auto
      from 1(1) [OF pa refl refl req refl sr refl True] cont True accounted_hist [OF acc]
      show ?thesis using settled_trans [OF acc] by auto
    next
      case False
      with cont serve_request_counts [OF sr 1(3)] accounted_refl [OF 1(3)] show ?thesis
        by (fastforce simp: settled_def)
    qed
  qed
qed

lemma handle_connection_settled:
  "handle_connection env reads p buf c = Some (status, p', buf', c') \<Longrightarrow> hist_ok (m_latency (sc_metrics c)) \<Longrightarrow>
    settled env status c c'"
proof (induction env reads p buf c rule: handle_connection.induct)
  case (3 env bs reads p buf c)
  show ?case
  proof (cases "bs = []")
    case True
    with 3 accounted_refl show ?thesis by (auto simp: settled_def)
  next
    case False
    with 3(2) obtain st q b c1 where sb: "serve_buffer env p (buf @ bs) c = Some (st, q, b, c1)"
      and cont: "(if st = Waiting then handle_connection env reads q b c1 else Some (st, q, b, c1)) =
        Some (status, p', buf', c')"
      by (auto simp: bind_eq_Some_conv)
    note s = serve_buffer_settled [OF sb 3(3)]
    show ?thesis
    proof (cases "st = Waiting")
      case True
      with s obtain rs where acc: "accounted env c c1 rs" by (auto simp: settled_def)
      from 3(1) [OF False sb refl refl refl True] cont True accounted_hist [OF acc]
      show ?thesis using settled_trans [OF acc] by simp
    next
      case False
      with s cont show ?thesis by auto
    qed
  qed
qed (auto simp: settled_def dest: accounted_refl)

end
