(* ===== verification/Client_Pool.thy ===== *)
theory Client_Pool
  imports Client_Resp HKV_Time
begin

text \<open>
  The connection pool of the client (\<^verbatim>\<open>hkv-client/src/pool.rs\<close>). Every access to the pool's state is one
  critical section of its mutex, and one definition here. The threads of a process interleave
  these sections: \<open>pool_step\<close> is the transition system of any number of threads, with the slots that
  are reserved for a connection attempt and the connections that are lent out as part of its state.
\<close>

section \<open>Configuration and state\<close>

record pool_config =
  pc_addr :: string
  pc_max_idle :: nat
  pc_max_total :: nat
  pc_read_timeout :: "duration option"
  pc_write_timeout :: "duration option"
  pc_connect_timeout :: "duration option"

record 'c pool_state =
  ps_idle :: "'c list"
  ps_total :: nat

definition pool_new :: "'c pool_state" where
  "pool_new = \<lparr>ps_idle = [], ps_total = 0\<rparr>"

text \<open>
  \<^verbatim>\<open>ConnectionPool::new\<close> allocates the idle queue at once; \<open>alloc n\<close> says whether a queue of \<open>n\<close> connections
  can be allocated.
\<close>

definition connection_pool_new ::
    "(nat \<Rightarrow> bool) \<Rightarrow> pool_config \<Rightarrow> (pool_config \<times> 'c pool_state) ClientResult exec" where
  "connection_pool_new alloc config =
     (if alloc (pc_max_idle config) then Some (Inr (config, pool_new)) else None)"

definition pop_idle :: "'c pool_state \<Rightarrow> 'c option \<times> 'c pool_state" where
  "pop_idle s = (case ps_idle s of
     [] \<Rightarrow> (None, s)
   | conn # rest \<Rightarrow> (Some conn, s\<lparr>ps_idle := rest\<rparr>))"

definition try_reserve :: "pool_config \<Rightarrow> 'c pool_state \<Rightarrow> bool \<times> 'c pool_state" where
  "try_reserve cfg s =
     (if ps_total s \<ge> pc_max_total cfg then (False, s)
      else (True, s\<lparr>ps_total := ps_total s + 1\<rparr>))"

text \<open>\<^verbatim>\<open>saturating_sub(1)\<close> is subtraction on natural numbers.\<close>

definition release_slot :: "'c pool_state \<Rightarrow> 'c pool_state" where
  "release_slot s = s\<lparr>ps_total := ps_total s - 1\<rparr>"

definition return_connection :: "pool_config \<Rightarrow> 'c \<Rightarrow> 'c pool_state \<Rightarrow> 'c pool_state" where
  "return_connection cfg conn s =
     (if length (ps_idle s) < pc_max_idle cfg then s\<lparr>ps_idle := ps_idle s @ [conn]\<rparr>
      else s\<lparr>ps_total := ps_total s - 1\<rparr>)"

text \<open>\<open>attempt\<close> is the outcome of \<^verbatim>\<open>Connection::connect\<close>, should it be called.\<close>

definition acquire ::
    "pool_config \<Rightarrow> 'c ClientResult \<Rightarrow> 'c pool_state \<Rightarrow> 'c ClientResult \<times> 'c pool_state" where
  "acquire cfg attempt s = (case pop_idle s of
     (Some conn, s) \<Rightarrow> (Inr conn, s)
   | (None, s) \<Rightarrow> (case try_reserve cfg s of
        (False, s) \<Rightarrow> (Inl PoolExhausted, s)
      | (True, s) \<Rightarrow> (case attempt of
           Inr conn \<Rightarrow> (Inr conn, s)
         | Inl err \<Rightarrow> (Inl err, release_slot s))))"

definition drop_pooled :: "pool_config \<Rightarrow> 'c \<Rightarrow> bool \<Rightarrow> 'c pool_state \<Rightarrow> 'c pool_state" where
  "drop_pooled cfg conn valid s = (if valid then return_connection cfg conn s else release_slot s)"

text \<open>
  A request on a pooled connection: \<open>ex\<close> is \<^verbatim>\<open>Connection::exec\<close> on the borrowed connection, which is
  returned to the pool unless it failed.
\<close>

definition pooled_exec ::
    "pool_config \<Rightarrow> 'c ClientResult \<Rightarrow> ('c \<Rightarrow> (RespValue ClientResult \<times> 'c) exec) \<Rightarrow>
     'c pool_state \<Rightarrow> (RespValue ClientResult \<times> 'c pool_state) exec" where
  "pooled_exec cfg attempt ex s = (case acquire cfg attempt s of
     (Inl err, s) \<Rightarrow> Some (Inl err, s)
   | (Inr conn, s) \<Rightarrow> do {
       (response, conn) \<leftarrow> ex conn;
       let valid = (case response of Inl _ \<Rightarrow> False | Inr _ \<Rightarrow> True);
       Some (response, drop_pooled cfg conn valid s)
     })"

section \<open>Connections\<close>

text \<open>
  The operations of the standard library's sockets that opening a connection uses: parsing an address,
  connecting with or without a timeout, and setting the options of a stream.
\<close>

record ('a, 'c) net =
  net_parse :: "string \<Rightarrow> 'a option"
  net_connect_timeout :: "'a \<Rightarrow> duration \<Rightarrow> io_error + 'c"
  net_connect :: "'a \<Rightarrow> io_error + 'c"
  net_set_read_timeout :: "duration \<Rightarrow> 'c \<Rightarrow> io_error + 'c"
  net_set_write_timeout :: "duration \<Rightarrow> 'c \<Rightarrow> io_error + 'c"
  net_set_nodelay :: "'c \<Rightarrow> io_error + 'c"

text \<open>The \<^verbatim>\<open>?\<close> operator on an I/O result.\<close>

definition try_io :: "io_error + 'a \<Rightarrow> ('a \<Rightarrow> 'b ClientResult) \<Rightarrow> 'b ClientResult" where
  "try_io r f = (case r of Inl err \<Rightarrow> Inl (CIo err) | Inr x \<Rightarrow> f x)"

definition connect_stream :: "('a, 'c) net \<Rightarrow> pool_config \<Rightarrow> 'c ClientResult" where
  "connect_stream net config =
     (case net_parse net (pc_addr config) of
        None \<Rightarrow> Inl InvalidAddress
      | Some addr \<Rightarrow>
          try_io (case pc_connect_timeout config of
              Some timeout \<Rightarrow> net_connect_timeout net addr timeout
            | None \<Rightarrow> net_connect net addr) Inr)"

definition connection_connect :: "('a, 'c) net \<Rightarrow> pool_config \<Rightarrow> 'c ClientResult" where
  "connection_connect net config =
     (case connect_stream net config of
        Inl err \<Rightarrow> Inl err
      | Inr stream \<Rightarrow>
          try_io (case pc_read_timeout config of
              Some timeout \<Rightarrow> net_set_read_timeout net timeout stream | None \<Rightarrow> Inr stream)
            (\<lambda>stream. try_io (case pc_write_timeout config of
                Some timeout \<Rightarrow> net_set_write_timeout net timeout stream | None \<Rightarrow> Inr stream)
              (\<lambda>stream. try_io (net_set_nodelay net stream) Inr)))"

lemma connect_errors:
  "connection_connect net config = Inl err \<Longrightarrow> err = InvalidAddress \<or> (\<exists>io. err = CIo io)"
  by (auto simp: connection_connect_def connect_stream_def try_io_def split: option.splits sum.splits)

text \<open>
  A connection is its reader. \<open>peer\<close> is the other end: what it sends for the bytes written, or the
  error of the write.
\<close>

definition connection_exec ::
    "client_env \<Rightarrow> nat \<Rightarrow> (bytes \<Rightarrow> io_error + bytes) \<Rightarrow> bytes list \<Rightarrow> reader \<Rightarrow>
     (RespValue ClientResult \<times> reader) exec" where
  "connection_exec env depth peer args conn = do {
     write_buf \<leftarrow> encode_command args [];
     (case peer write_buf of
        Inl err \<Rightarrow> Some (Inl (CIo err), conn)
      | Inr bs \<Rightarrow> read_response env depth (conn\<lparr>r_bytes := r_bytes conn @ bs\<rparr>))
   }"

section \<open>Interleaved use of the pool\<close>

record 'c pool_system =
  sys_pool :: "'c pool_state"
  sys_connecting :: nat
  sys_lent :: "'c list"

definition pool_init :: "'c pool_system \<Rightarrow> bool" where
  "pool_init s \<longleftrightarrow> s = \<lparr>sys_pool = pool_new, sys_connecting = 0, sys_lent = []\<rparr>"

text \<open>
  One section of one thread: a hit or a miss in the idle queue, a reservation, the end of a
  connection attempt, and the drop of a borrowed connection.
\<close>

inductive pool_step :: "pool_config \<Rightarrow> 'c pool_system \<Rightarrow> 'c pool_system \<Rightarrow> bool" for cfg where
  step_pop: "pop_idle (sys_pool s) = (Some conn, p) \<Longrightarrow>
    pool_step cfg s (s\<lparr>sys_pool := p, sys_lent := conn # sys_lent s\<rparr>)"
| step_miss: "pop_idle (sys_pool s) = (None, p) \<Longrightarrow> pool_step cfg s (s\<lparr>sys_pool := p\<rparr>)"
| step_reserve: "try_reserve cfg (sys_pool s) = (True, p) \<Longrightarrow>
    pool_step cfg s (s\<lparr>sys_pool := p, sys_connecting := sys_connecting s + 1\<rparr>)"
| step_exhausted: "try_reserve cfg (sys_pool s) = (False, p) \<Longrightarrow> pool_step cfg s (s\<lparr>sys_pool := p\<rparr>)"
| step_connected: "sys_connecting s > 0 \<Longrightarrow>
    pool_step cfg s (s\<lparr>sys_connecting := sys_connecting s - 1, sys_lent := conn # sys_lent s\<rparr>)"
| step_connect_failed: "sys_connecting s > 0 \<Longrightarrow>
    pool_step cfg s (s\<lparr>sys_pool := release_slot (sys_pool s), sys_connecting := sys_connecting s - 1\<rparr>)"
| step_drop: "sys_lent s = as @ conn # bs \<Longrightarrow>
    pool_step cfg s (s\<lparr>sys_pool := drop_pooled cfg conn' valid (sys_pool s), sys_lent := as @ bs\<rparr>)"

text \<open>
  The pool's books: \<^verbatim>\<open>total\<close> counts the idle and the lent connections and the attempts under way,
  and neither limit is ever exceeded.
\<close>

definition pool_inv :: "pool_config \<Rightarrow> 'c pool_system \<Rightarrow> bool" where
  "pool_inv cfg s \<longleftrightarrow>
     ps_total (sys_pool s) = length (ps_idle (sys_pool s)) + length (sys_lent s) + sys_connecting s \<and>
     ps_total (sys_pool s) \<le> pc_max_total cfg \<and> length (ps_idle (sys_pool s)) \<le> pc_max_idle cfg"

lemma pool_inv_init: "pool_init s \<Longrightarrow> pool_inv cfg s"
  by (simp add: pool_init_def pool_inv_def pool_new_def)

lemma pool_inv_step: "pool_step cfg s t \<Longrightarrow> pool_inv cfg s \<Longrightarrow> pool_inv cfg t"
proof (induction rule: pool_step.induct)
  case (step_drop s as conn bs conn' valid)
  then show ?case
    by (auto simp: pool_inv_def drop_pooled_def return_connection_def release_slot_def)
qed (auto simp: pool_inv_def pop_idle_def try_reserve_def release_slot_def split: list.splits if_splits)

interpretation pool: invariant_system pool_init "pool_step cfg" "pool_inv cfg" for cfg
  by unfold_locales (auto intro: pool_inv_init pool_inv_step)

inductive_cases pool_stepE: "pool_step cfg s t"

section \<open>Sequential use\<close>

text \<open>\<open>pool_books cfg lent s\<close>: the books of a pool with \<open>lent\<close> connections out.\<close>

definition pool_books :: "pool_config \<Rightarrow> nat \<Rightarrow> 'c pool_state \<Rightarrow> bool" where
  "pool_books cfg lent s \<longleftrightarrow>
     ps_total s = length (ps_idle s) + lent \<and> ps_total s \<le> pc_max_total cfg \<and>
     length (ps_idle s) \<le> pc_max_idle cfg"

lemma acquire_books:
  assumes "pool_books cfg lent s" and "acquire cfg attempt s = (r, t)"
  shows "pool_books cfg (case r of Inl _ \<Rightarrow> lent | Inr _ \<Rightarrow> lent + 1) t"
  using assms
  by (auto simp: acquire_def pop_idle_def try_reserve_def release_slot_def pool_books_def
      split: list.splits if_splits sum.splits)

lemma drop_books:
  "pool_books cfg (Suc lent) s \<Longrightarrow> pool_books cfg lent (drop_pooled cfg conn valid s)"
  by (auto simp: drop_pooled_def return_connection_def release_slot_def pool_books_def)

lemma pooled_exec_books:
  assumes "pool_books cfg lent s" and "pooled_exec cfg attempt ex s = Some (r, t)"
  shows "pool_books cfg lent t"
proof -
  obtain x s1 where acq: "acquire cfg attempt s = (x, s1)" by fastforce
  from acquire_books [OF assms(1) acq] assms(2) acq drop_books [of cfg lent s1] show ?thesis
    by (cases x) (auto simp: pooled_exec_def bind_eq_Some_conv)
qed

text \<open>A call runs out of connections exactly when all are lent out and the limit is reached.\<close>

lemma acquire_exhausted:
  assumes "pool_books cfg lent s" and "attempt \<noteq> Inl PoolExhausted"
  shows "fst (acquire cfg attempt s) = Inl PoolExhausted \<longleftrightarrow> ps_idle s = [] \<and> lent = pc_max_total cfg"
  using assms
  by (cases attempt)
    (auto simp: acquire_def pop_idle_def try_reserve_def pool_books_def split: list.splits)

end
