(* ===== verification/Utf8_Text.thy ===== *)
theory Utf8_Text
  imports HKV_Prelude
begin

text \<open>
  The text forms that the sources give to bytes: \<^verbatim>\<open>String::from_utf8_lossy\<close> of the standard library, as used
  by \<^verbatim>\<open>Display\<close> of keys (\<^verbatim>\<open>hkv-common/src/types.rs\<close>) and of client errors (\<^verbatim>\<open>hkv-client/src/client.rs\<close>). A string is
  the list of its UTF-8 bytes. The decoder is specified against the encoding of code points: what is
  already text stays as it is, and the result is always text.
\<close>

section \<open>The decoder\<close>

text \<open>
  The standard library looks at the bytes of one character at a time; past the end it reads 0. The
  result is how many bytes the character takes, or how many of them are replaced when it is broken off.
\<close>

definition byte_at :: "bytes \<Rightarrow> nat \<Rightarrow> nat" where
  "byte_at bs i = (if i < length bs then unat (bs ! i) else 0)"

definition is_continuation :: "nat \<Rightarrow> bool" where
  "is_continuation b \<longleftrightarrow> 0x80 \<le> b \<and> b \<le> 0xBF"

definition second_of_three :: "nat \<Rightarrow> nat \<Rightarrow> bool" where
  "second_of_three first b \<longleftrightarrow>
     (if first = 0xE0 then 0xA0 \<le> b \<and> b \<le> 0xBF
      else if first = 0xED then 0x80 \<le> b \<and> b \<le> 0x9F
      else is_continuation b)"

definition second_of_four :: "nat \<Rightarrow> nat \<Rightarrow> bool" where
  "second_of_four first b \<longleftrightarrow>
     (if first = 0xF0 then 0x90 \<le> b \<and> b \<le> 0xBF
      else if first = 0xF4 then 0x80 \<le> b \<and> b \<le> 0x8F
      else is_continuation b)"

definition utf8_chunk :: "bytes \<Rightarrow> nat \<times> bool" where
  "utf8_chunk bs =
     (let first = byte_at bs 0 in
      if first < 0x80 then (1, True)
      else if first < 0xC2 then (1, False)
      else if first < 0xE0 then
        if is_continuation (byte_at bs 1) then (2, True) else (1, False)
      else if first < 0xF0 then
        if \<not> second_of_three first (byte_at bs 1) then (1, False)
        else if \<not> is_continuation (byte_at bs 2) then (2, False) else (3, True)
      else if first < 0xF5 then
        if \<not> second_of_four first (byte_at bs 1) then (1, False)
        else if \<not> is_continuation (byte_at bs 2) then (2, False)
        else if \<not> is_continuation (byte_at bs 3) then (3, False) else (4, True)
      else (1, False))"

definition replacement_character :: bytes where
  "replacement_character = [0xEF, 0xBF, 0xBD]"

lemma utf8_chunk_pos: "0 < fst (utf8_chunk bs)"
  by (simp add: utf8_chunk_def Let_def)

function from_utf8_lossy :: "bytes \<Rightarrow> bytes" where
  "from_utf8_lossy bs =
     (if bs = [] then []
      else let (n, ok) = utf8_chunk bs in
        (if ok then take n bs else replacement_character) @ from_utf8_lossy (drop n bs))"
  by pat_completeness auto
termination
proof (relation "measure length")
  fix bs :: bytes and x n ok
  assume "bs \<noteq> []" "x = utf8_chunk bs" "(n, ok) = x"
  then show "(drop n bs, bs) \<in> measure length" using utf8_chunk_pos [of bs] by (cases "utf8_chunk bs") auto
qed simp

declare from_utf8_lossy.simps [simp del]

section \<open>Code points and their encoding\<close>

definition scalar_value :: "nat \<Rightarrow> bool" where
  "scalar_value c \<longleftrightarrow> c < 0xD800 \<or> 0xE000 \<le> c \<and> c < 0x110000"

definition encode_values :: "nat \<Rightarrow> nat list" where
  "encode_values c =
     (if c < 0x80 then [c]
      else if c < 0x800 then [0xC0 + c div 64, 0x80 + c mod 64]
      else if c < 0x10000 then [0xE0 + c div 4096, 0x80 + c div 64 mod 64, 0x80 + c mod 64]
      else [0xF0 + c div 262144, 0x80 + c div 4096 mod 64, 0x80 + c div 64 mod 64, 0x80 + c mod 64])"

definition encode_utf8 :: "nat \<Rightarrow> bytes" where
  "encode_utf8 c = map of_nat (encode_values c)"

definition is_text :: "bytes \<Rightarrow> bool" where
  "is_text bs \<longleftrightarrow> (\<exists>cs. list_all scalar_value cs \<and> bs = concat (map encode_utf8 cs))"

lemma encode_values_bytes: "scalar_value c \<Longrightarrow> b \<in> set (encode_values c) \<Longrightarrow> b < 256"
  by (auto simp: encode_values_def scalar_value_def split: if_splits)

lemma byte_at_encode:
  assumes "scalar_value c" and "i < length (encode_values c)"
  shows "byte_at (encode_utf8 c @ rest) i = encode_values c ! i"
proof -
  have "encode_values c ! i < 256" using encode_values_bytes [OF assms(1) nth_mem [OF assms(2)]] .
  then have "unat (of_nat (encode_values c ! i) :: 8 word) = encode_values c ! i" by (simp add: unat_of_nat)
  then show ?thesis using assms(2) by (simp add: byte_at_def encode_utf8_def nth_append)
qed

lemma mod_64_le [simp]: "n mod 64 \<le> (63 :: nat)"
  using mod_less_divisor [of 64 n] by linarith

lemma second_three_encode:
  assumes "0x800 \<le> c" "c < 0x10000" and "scalar_value c"
  shows "second_of_three (0xE0 + c div 4096) (0x80 + c div 64 mod 64)"
proof -
  define q where "q = c div 64"
  have div: "c div 4096 = q div 64" by (simp add: q_def flip: div_mult2_eq)
  have q: "32 \<le> q" "q < 1024" "q < 864 \<or> 896 \<le> q"
    using assms by (auto simp: q_def scalar_value_def)
  define h r where "h = q div 64" and "r = q mod 64"
  have "q = 64 * h + r" "r < 64" by (simp_all add: h_def r_def)
  with q show ?thesis
    unfolding div q_def [symmetric] h_def [symmetric] r_def [symmetric] second_of_three_def is_continuation_def
    by (auto split: if_splits)
qed

lemma second_four_encode:
  assumes "0x10000 \<le> c" and "scalar_value c"
  shows "second_of_four (0xF0 + c div 262144) (0x80 + c div 4096 mod 64)"
proof -
  define q where "q = c div 4096"
  have div: "c div 262144 = q div 64" by (simp add: q_def flip: div_mult2_eq)
  have q: "16 \<le> q" "q < 272" using assms by (auto simp: q_def scalar_value_def)
  define h r where "h = q div 64" and "r = q mod 64"
  have "q = 64 * h + r" "r < 64" by (simp_all add: h_def r_def)
  with q show ?thesis
    unfolding div q_def [symmetric] h_def [symmetric] r_def [symmetric] second_of_four_def is_continuation_def
    by (auto split: if_splits)
qed

lemma chunk_encode:
  assumes "scalar_value c"
  shows "utf8_chunk (encode_utf8 c @ rest) = (length (encode_utf8 c), True)"
proof -
  note at = byte_at_encode [OF assms, of _ rest]
  consider "c < 0x80" | "0x80 \<le> c" "c < 0x800" | "0x800 \<le> c" "c < 0x10000" | "0x10000 \<le> c" by linarith
  then show ?thesis
  proof cases
    case 1
    then show ?thesis using at [of 0] by (simp add: utf8_chunk_def encode_values_def encode_utf8_def)
  next
    case 2
    then have b: "byte_at (encode_utf8 c @ rest) 0 = 0xC0 + c div 64" "byte_at (encode_utf8 c @ rest) 1 = 0x80 + c mod 64"
      using at [of 0] at [of 1] by (simp_all add: encode_values_def)
    have "2 \<le> c div 64" "c div 64 < 32" "c mod 64 < 64" using 2 by simp_all
    with 2 show ?thesis
      unfolding utf8_chunk_def Let_def b by (simp add: encode_values_def encode_utf8_def is_continuation_def)
  next
    case 3
    then have b: "byte_at (encode_utf8 c @ rest) 0 = 0xE0 + c div 4096"
      "byte_at (encode_utf8 c @ rest) 1 = 0x80 + c div 64 mod 64" "byte_at (encode_utf8 c @ rest) 2 = 0x80 + c mod 64"
      using at [of 0] at [of 1] at [of 2] by (simp_all add: encode_values_def)
    have m: "c div 4096 < 16" "c mod 64 < 64" using 3 by simp_all
    with second_three_encode [OF 3 assms] 3 show ?thesis
      unfolding utf8_chunk_def Let_def b by (simp add: encode_values_def encode_utf8_def is_continuation_def)
  next
    case 4
    then have b: "byte_at (encode_utf8 c @ rest) 0 = 0xF0 + c div 262144"
      "byte_at (encode_utf8 c @ rest) 1 = 0x80 + c div 4096 mod 64"
      "byte_at (encode_utf8 c @ rest) 2 = 0x80 + c div 64 mod 64" "byte_at (encode_utf8 c @ rest) 3 = 0x80 + c mod 64"
      using at [of 0] at [of 1] at [of 2] at [of 3] by (simp_all add: encode_values_def)
    have m: "c div 262144 < 5" "c mod 64 < 64" "c div 64 mod 64 < 64" using 4 assms by (simp_all add: scalar_value_def)
    with second_four_encode [OF 4 assms] 4 show ?thesis
      unfolding utf8_chunk_def Let_def b by (simp add: encode_values_def encode_utf8_def is_continuation_def)
  qed
qed

text \<open>A character the decoder accepts is the encoding of a code point.\<close>

lemma take_bytes:
  assumes "\<And>i. i < n \<Longrightarrow> byte_at bs i = vs ! i" and "length vs = n" and "n \<le> length bs"
  shows "take n bs = map of_nat vs"
proof (rule nth_equalityI)
  fix i assume "i < length (take n bs)"
  with assms(3) have i: "i < n" "i < length bs" by simp_all
  with assms(1) [of i] have "unat (bs ! i) = vs ! i" by (simp add: byte_at_def)
  then have "bs ! i = of_nat (vs ! i)" by (metis of_nat_unat ucast_id)
  with i assms(2) show "take n bs ! i = map of_nat vs ! i" by simp
qed (use assms in simp)

lemma byte_at_length: "0 < byte_at bs i \<Longrightarrow> i < length bs"
  by (simp add: byte_at_def split: if_splits)

lemma div_mod_64:
  assumes "r < (64 :: nat)"
  shows "(64 * q + r) div 64 = q" "(64 * q + r) mod 64 = r"
  using assms by simp_all

lemma encode_two:
  assumes "0xC2 \<le> a" "a < 0xE0" "is_continuation b"
  shows "\<exists>c. scalar_value c \<and> encode_values c = [a, b]"
proof -
  obtain x y where xy: "a = 0xC0 + x" "b = 0x80 + y" "2 \<le> x" "x < 32" "y < 64"
    using assms that [of "a - 0xC0" "b - 0x80"] by (auto simp: is_continuation_def)
  let ?c = "64 * x + y"
  have "?c div 64 = x" "?c mod 64 = y" using xy(5) by simp_all
  with xy show ?thesis by (intro exI [of _ ?c]) (simp add: encode_values_def scalar_value_def)
qed

lemma encode_three:
  assumes "0xE0 \<le> a" "a < 0xF0" "second_of_three a b" "is_continuation d"
  shows "\<exists>c. scalar_value c \<and> encode_values c = [a, b, d]"
proof -
  have "is_continuation b" using assms(3) by (auto simp: second_of_three_def is_continuation_def split: if_splits)
  with assms obtain x y z where xy: "a = 0xE0 + x" "b = 0x80 + y" "d = 0x80 + z" "x < 16" "y < 64" "z < 64"
    using that [of "a - 0xE0" "b - 0x80" "d - 0x80"] by (auto simp: is_continuation_def)
  let ?c = "64 * (64 * x + y) + z"
  have d: "?c div 64 = 64 * x + y" "?c mod 64 = z" "(64 * x + y) div 64 = x" "(64 * x + y) mod 64 = y"
    by (rule div_mod_64; rule xy)+
  have "?c div 4096 = ?c div 64 div 64" by (simp flip: div_mult2_eq)
  then have "?c div 4096 = x" by (simp only: d)
  moreover have "0x800 \<le> ?c" "?c < 0x10000" "scalar_value ?c"
    using xy assms(3) by (auto simp: second_of_three_def scalar_value_def split: if_splits)
  ultimately show ?thesis using d xy by (intro exI [of _ ?c]) (simp add: encode_values_def)
qed

lemma encode_four:
  assumes "0xF0 \<le> a" "a < 0xF5" "second_of_four a b" "is_continuation d" "is_continuation f"
  shows "\<exists>c. scalar_value c \<and> encode_values c = [a, b, d, f]"
proof -
  have "is_continuation b" using assms(3) by (auto simp: second_of_four_def is_continuation_def split: if_splits)
  with assms obtain x y z w where xy: "a = 0xF0 + x" "b = 0x80 + y" "d = 0x80 + z" "f = 0x80 + w"
      "x < 5" "y < 64" "z < 64" "w < 64"
    using that [of "a - 0xF0" "b - 0x80" "d - 0x80" "f - 0x80"] by (auto simp: is_continuation_def)
  let ?p = "64 * x + y" and ?q = "64 * (64 * x + y) + z"
  let ?c = "64 * ?q + w"
  have d: "?c div 64 = ?q" "?c mod 64 = w" "?q div 64 = ?p" "?q mod 64 = z" "?p div 64 = x" "?p mod 64 = y"
    by (rule div_mod_64; rule xy)+
  have "?c div 4096 = ?c div 64 div 64" "?c div 262144 = ?c div 64 div 64 div 64" by (simp_all flip: div_mult2_eq)
  then have "?c div 4096 = ?p" "?c div 262144 = x" by (simp_all only: d)
  moreover have "0x10000 \<le> ?c" "scalar_value ?c"
    using xy assms(3) by (auto simp: second_of_four_def scalar_value_def split: if_splits)
  ultimately show ?thesis using d xy by (intro exI [of _ ?c]) (simp add: encode_values_def)
qed

lemma chunk_accepts:
  assumes "utf8_chunk bs = (n, True)" and "bs \<noteq> []"
  shows "n \<le> length bs \<and> (\<exists>c. scalar_value c \<and> take n bs = encode_utf8 c)"
proof -
  have "\<exists>c. scalar_value c \<and> encode_values c = map (byte_at bs) [0..<n] \<and> n \<le> length bs"
  proof -
    consider (one) "n = 1" "byte_at bs 0 < 0x80"
      | (two) "n = 2" "0xC2 \<le> byte_at bs 0" "byte_at bs 0 < 0xE0" "is_continuation (byte_at bs 1)"
      | (three) "n = 3" "0xE0 \<le> byte_at bs 0" "byte_at bs 0 < 0xF0" "second_of_three (byte_at bs 0) (byte_at bs 1)"
          "is_continuation (byte_at bs 2)"
      | (four) "n = 4" "0xF0 \<le> byte_at bs 0" "byte_at bs 0 < 0xF5" "second_of_four (byte_at bs 0) (byte_at bs 1)"
          "is_continuation (byte_at bs 2)" "is_continuation (byte_at bs 3)"
      using assms(1) by (auto simp: utf8_chunk_def Let_def not_less split: if_splits)
    then show ?thesis
    proof cases
      case one
      then show ?thesis using assms(2)
        by (intro exI [of _ "byte_at bs 0"]) (cases bs; simp add: encode_values_def scalar_value_def)
    next
      case two
      then have "1 < length bs" using byte_at_length [of bs 1] by (simp add: is_continuation_def)
      with encode_two [OF two(2-4)] two(1) show ?thesis by (simp add: upt_rec)
    next
      case three
      then have "2 < length bs" using byte_at_length [of bs 2] by (simp add: is_continuation_def)
      with encode_three [OF three(2-5)] three(1) show ?thesis by (simp add: upt_rec numeral_2_eq_2)
    next
      case four
      then have "3 < length bs" using byte_at_length [of bs 3] by (simp add: is_continuation_def)
      with encode_four [OF four(2-6)] four(1) show ?thesis by (simp add: upt_rec numeral_2_eq_2 numeral_3_eq_3)
    qed
  qed
  then obtain c where c: "scalar_value c" "encode_values c = map (byte_at bs) [0..<n]" "n \<le> length bs" by blast
  have "take n bs = map of_nat (map (byte_at bs) [0..<n])" by (rule take_bytes) (use c(3) in simp_all)
  with c show ?thesis by (auto simp: encode_utf8_def)
qed

lemma encode_nonempty: "encode_utf8 c \<noteq> []"
  by (simp add: encode_utf8_def encode_values_def)

lemma replacement_is_scalar: "replacement_character = encode_utf8 0xFFFD" "scalar_value 0xFFFD"
  by (simp_all add: replacement_character_def encode_utf8_def encode_values_def scalar_value_def)

section \<open>What the decoder returns\<close>

lemma is_text_Nil [simp]: "is_text []"
  by (auto simp: is_text_def intro: exI [of _ "[]"])

lemma is_text_encode: "scalar_value c \<Longrightarrow> is_text (encode_utf8 c)"
  by (auto simp: is_text_def intro: exI [of _ "[c]"])

lemma is_text_append: "is_text a \<Longrightarrow> is_text b \<Longrightarrow> is_text (a @ b)"
  unfolding is_text_def by (metis concat_append list_all_append map_append)

text \<open>Text is left alone, also in front of other bytes.\<close>

lemma lossy_keeps_text:
  assumes "is_text a"
  shows "from_utf8_lossy (a @ b) = a @ from_utf8_lossy b"
proof -
  obtain cs where cs: "list_all scalar_value cs" "a = concat (map encode_utf8 cs)" using assms by (auto simp: is_text_def)
  from cs(1) have "from_utf8_lossy (concat (map encode_utf8 cs) @ b) = concat (map encode_utf8 cs) @ from_utf8_lossy b"
  proof (induction cs)
    case (Cons c cs)
    then show ?case using chunk_encode [of c "concat (map encode_utf8 cs) @ b"] encode_nonempty [of c]
      by (subst from_utf8_lossy.simps) simp
  qed simp
  with cs(2) show ?thesis by simp
qed

text \<open>Whatever comes in, text comes out, of at most three times the length.\<close>

lemma chunk_bound: "bs \<noteq> [] \<Longrightarrow> utf8_chunk bs = (n, ok) \<Longrightarrow> 0 < n"
  using utf8_chunk_pos [of bs] by simp

lemma lossy_is_text: "is_text (from_utf8_lossy bs)"
proof (induction bs rule: from_utf8_lossy.induct)
  case (1 bs)
  show ?case
  proof (cases "bs = []")
    case True
    then show ?thesis by (subst from_utf8_lossy.simps) simp
  next
    case False
    obtain n ok where c: "utf8_chunk bs = (n, ok)" by fastforce
    have "is_text replacement_character" unfolding replacement_is_scalar(1) by (rule is_text_encode [OF replacement_is_scalar(2)])
    then have "is_text (if ok then take n bs else replacement_character)"
      using chunk_accepts [of bs n] c False is_text_encode by auto
    then have "is_text ((if ok then take n bs else replacement_character) @ from_utf8_lossy (drop n bs))"
      using 1 [OF False c [symmetric] refl] by (rule is_text_append)
    then show ?thesis using False c by (subst from_utf8_lossy.simps) simp
  qed
qed

lemma lossy_length: "length (from_utf8_lossy bs) \<le> 3 * length bs"
proof (induction bs rule: from_utf8_lossy.induct)
  case (1 bs)
  show ?case
  proof (cases "bs = []")
    case True
    then show ?thesis by (subst from_utf8_lossy.simps) simp
  next
    case False
    obtain n ok where c: "utf8_chunk bs = (n, ok)" by fastforce
    have n: "0 < n" using chunk_bound [OF False c] .
    have "length (if ok then take n bs else replacement_character) \<le> 3 * min n (length bs)"
      using n False by (cases bs) (auto simp: replacement_character_def min_def)
    with 1 [OF False c [symmetric] refl] show ?thesis using False c by (subst from_utf8_lossy.simps) simp
  qed
qed

lemma is_text_bytes: "\<forall>b\<in>set bs. unat b < 0x80 \<Longrightarrow> is_text bs"
proof (induction bs)
  case (Cons b bs)
  have "encode_utf8 (unat b) = [b]" "scalar_value (unat b)"
    using Cons.prems by (simp_all add: encode_utf8_def encode_values_def scalar_value_def)
  with is_text_append [OF is_text_encode [of "unat b"] Cons.IH] Cons.prems show ?case by simp
qed simp

lemma lossy_text: "is_text bs \<Longrightarrow> from_utf8_lossy bs = bs"
  using lossy_keeps_text [of bs "[]"] by (simp add: from_utf8_lossy.simps [of "[]"])

end
