(* ===== verification/Client.thy ===== *)
theory Client
  imports Client_Pool HKV_Time Utf8_Text
begin

text \<open>
  The synchronous client (\<^verbatim>\<open>hkv-client/src/client.rs\<close>): one definition per method of \<^verbatim>\<open>KVClient\<close>. A method
  borrows a connection, executes one command and interprets the reply. \<open>ex args\<close> stands for
  \<^verbatim>\<open>Connection::exec(args)\<close>, so that the same definitions run on any kind of connection.
\<close>

section \<open>Configuration\<close>

datatype ClientTtl = CMissing | CNoExpiry | CExpiresIn duration

record client_config =
  cc_addr :: string
  cc_max_idle :: nat
  cc_max_total :: nat
  cc_read_timeout :: "duration option"
  cc_write_timeout :: "duration option"
  cc_connect_timeout :: "duration option"

definition client_config_default :: client_config where
  "client_config_default =
     \<lparr>cc_addr = ''127.0.0.1:6379'', cc_max_idle = 8, cc_max_total = 16, cc_read_timeout = None,
      cc_write_timeout = None, cc_connect_timeout = None\<rparr>"

definition with_config ::
    "(nat \<Rightarrow> bool) \<Rightarrow> client_config \<Rightarrow> (pool_config \<times> 'c pool_state) ClientResult exec" where
  "with_config alloc config =
     connection_pool_new alloc
       \<lparr>pc_addr = cc_addr config, pc_max_idle = cc_max_idle config, pc_max_total = cc_max_total config,
        pc_read_timeout = cc_read_timeout config, pc_write_timeout = cc_write_timeout config,
        pc_connect_timeout = cc_connect_timeout config\<rparr>"

definition client_connect :: "(nat \<Rightarrow> bool) \<Rightarrow> string \<Rightarrow> (pool_config \<times> 'c pool_state) ClientResult exec" where
  "client_connect alloc addr =
     (let config = client_config_default in
      let config = config\<lparr>cc_addr := addr\<rparr> in with_config alloc config)"

section \<open>Seconds on the wire\<close>

definition encode_u64 :: "u64 \<Rightarrow> (bytes \<times> nat) exec" where
  "encode_u64 value =
     (if value = 0 then do {
        buf \<leftarrow> update_at (replicate 20 0) 0 (\<lambda>_. 48);
        Some (buf, 1)
      } else do {
        (buf, len) \<leftarrow> write_digits value (replicate 20 0) 0;
        Some (rev (take len buf) @ drop len buf, len)
      })"

text \<open>\<^verbatim>\<open>&seconds[..len]\<close>.\<close>

definition seconds_text :: "u64 \<Rightarrow> bytes exec" where
  "seconds_text value = do {
     (buf, len) \<leftarrow> encode_u64 value;
     (if len \<le> length buf then Some (take len buf) else None)
   }"

lemma seconds_text_digits [simp]: "seconds_text value = Some (dec_digits (unat value))"
proof (cases "value = 0")
  case True
  then show ?thesis by (simp add: seconds_text_def encode_u64_def dec_digits.simps numeral_eq_Suc)
next
  case False
  then have "value > 0" by (simp add: word_neq_0_conv)
  from write_digits_u64 [OF this] obtain buf where
    "write_digits value (replicate 20 0) 0 = Some (buf, length (dec_digits (unat value)))"
    "length buf = 20" "length (dec_digits (unat value)) \<le> 20"
    "take (length (dec_digits (unat value))) buf = rev (dec_digits (unat value))" by blast
  with False show ?thesis by (simp add: seconds_text_def encode_u64_def)
qed

section \<open>The methods\<close>

type_synonym 'c call = "bytes list \<Rightarrow> 'c \<Rightarrow> (RespValue ClientResult \<times> 'c) exec"

type_synonym ('a, 'c) outcome = "('a ClientResult \<times> 'c pool_state) exec"

text \<open>Running a command and interpreting the reply.\<close>

definition run_call ::
    "pool_config \<Rightarrow> 'c ClientResult \<Rightarrow> 'c call \<Rightarrow> bytes list \<Rightarrow> (RespValue \<Rightarrow> 'a ClientResult) \<Rightarrow>
     'c pool_state \<Rightarrow> ('a, 'c) outcome" where
  "run_call cfg attempt ex args interpret s = do {
     (r, s) \<leftarrow> pooled_exec cfg attempt (ex args) s;
     Some (case r of Inl err \<Rightarrow> Inl err | Inr v \<Rightarrow> interpret v, s)
   }"

fun as_value :: "RespValue \<Rightarrow> bytes option ClientResult" where
  "as_value (Bulk data) = Inr data"
| "as_value (Error message) = Inl (CServer message)"
| "as_value _ = Inl UnexpectedResponse"

fun as_unit :: "RespValue \<Rightarrow> unit ClientResult" where
  "as_unit (Simple _) = Inr ()"
| "as_unit (Error message) = Inl (CServer message)"
| "as_unit _ = Inl UnexpectedResponse"

fun as_positive :: "RespValue \<Rightarrow> bool ClientResult" where
  "as_positive (Integer count) = Inr (count > 0)"
| "as_positive (Error message) = Inl (CServer message)"
| "as_positive _ = Inl UnexpectedResponse"

fun as_one :: "RespValue \<Rightarrow> bool ClientResult" where
  "as_one (Integer value) = Inr (value = 1)"
| "as_one (Error message) = Inl (CServer message)"
| "as_one _ = Inl UnexpectedResponse"

fun as_ttl :: "RespValue \<Rightarrow> ClientTtl ClientResult" where
  "as_ttl (Integer value) =
     (if value = - 2 then Inr CMissing
      else if value = - 1 then Inr CNoExpiry
      else if value \<ge> 0 then Inr (CExpiresIn (from_secs (of_int value)))
      else Inl UnexpectedResponse)"
| "as_ttl (Error message) = Inl (CServer message)"
| "as_ttl _ = Inl UnexpectedResponse"

fun as_payload :: "RespValue \<Rightarrow> bytes ClientResult" where
  "as_payload (Simple text) = Inr text"
| "as_payload (Bulk (Some data)) = Inr data"
| "as_payload (Error message) = Inl (CServer message)"
| "as_payload _ = Inl UnexpectedResponse"

fun as_info :: "RespValue \<Rightarrow> bytes ClientResult" where
  "as_info (Bulk (Some data)) = Inr data"
| "as_info (Error message) = Inl (CServer message)"
| "as_info _ = Inl UnexpectedResponse"

definition client_get ::
    "pool_config \<Rightarrow> 'c ClientResult \<Rightarrow> 'c call \<Rightarrow> bytes \<Rightarrow> 'c pool_state \<Rightarrow>
     (bytes option, 'c) outcome" where
  "client_get cfg attempt ex key = run_call cfg attempt ex [ascii ''GET'', key] as_value"

definition client_set ::
    "pool_config \<Rightarrow> 'c ClientResult \<Rightarrow> 'c call \<Rightarrow> bytes \<Rightarrow> bytes \<Rightarrow> 'c pool_state \<Rightarrow>
     (unit, 'c) outcome" where
  "client_set cfg attempt ex key value = run_call cfg attempt ex [ascii ''SET'', key, value] as_unit"

definition client_set_with_ttl ::
    "pool_config \<Rightarrow> 'c ClientResult \<Rightarrow> 'c call \<Rightarrow> bytes \<Rightarrow> bytes \<Rightarrow> duration \<Rightarrow> 'c pool_state \<Rightarrow>
     (unit, 'c) outcome" where
  "client_set_with_ttl cfg attempt ex key value ttl s = do {
     seconds \<leftarrow> seconds_text (as_secs ttl);
     run_call cfg attempt ex [ascii ''SET'', key, value, ascii ''EX'', seconds] as_unit s
   }"

definition client_delete ::
    "pool_config \<Rightarrow> 'c ClientResult \<Rightarrow> 'c call \<Rightarrow> bytes \<Rightarrow> 'c pool_state \<Rightarrow>
     (bool, 'c) outcome" where
  "client_delete cfg attempt ex key = run_call cfg attempt ex [ascii ''DEL'', key] as_positive"

definition client_expire ::
    "pool_config \<Rightarrow> 'c ClientResult \<Rightarrow> 'c call \<Rightarrow> bytes \<Rightarrow> duration \<Rightarrow> 'c pool_state \<Rightarrow>
     (bool, 'c) outcome" where
  "client_expire cfg attempt ex key ttl s = do {
     seconds \<leftarrow> seconds_text (as_secs ttl);
     run_call cfg attempt ex [ascii ''EXPIRE'', key, seconds] as_one s
   }"

definition client_ttl ::
    "pool_config \<Rightarrow> 'c ClientResult \<Rightarrow> 'c call \<Rightarrow> bytes \<Rightarrow> 'c pool_state \<Rightarrow>
     (ClientTtl, 'c) outcome" where
  "client_ttl cfg attempt ex key = run_call cfg attempt ex [ascii ''TTL'', key] as_ttl"

definition client_ping ::
    "pool_config \<Rightarrow> 'c ClientResult \<Rightarrow> 'c call \<Rightarrow> bytes option \<Rightarrow> 'c pool_state \<Rightarrow>
     (bytes, 'c) outcome" where
  "client_ping cfg attempt ex payload =
     run_call cfg attempt ex
       (case payload of Some data \<Rightarrow> [ascii ''PING'', data] | None \<Rightarrow> [ascii ''PING'']) as_payload"

definition client_info ::
    "pool_config \<Rightarrow> 'c ClientResult \<Rightarrow> 'c call \<Rightarrow> 'c pool_state \<Rightarrow> (bytes, 'c) outcome" where
  "client_info cfg attempt ex = run_call cfg attempt ex [ascii ''INFO''] as_info"

section \<open>The text of an error\<close>

text \<open>\<^verbatim>\<open>impl Display for ClientError\<close>; the text of an error of the operating system is the argument \<open>io_text\<close>.\<close>

fun client_error_text :: "(io_error \<Rightarrow> bytes) \<Rightarrow> ClientError \<Rightarrow> bytes" where
  "client_error_text io_text (CIo err) = ascii ''io error: '' @ io_text err"
| "client_error_text io_text CProtocol = ascii ''protocol error''"
| "client_error_text io_text (CServer message) = ascii ''server error: '' @ from_utf8_lossy message"
| "client_error_text io_text UnexpectedResponse = ascii ''unexpected response''"
| "client_error_text io_text PoolExhausted = ascii ''connection pool exhausted''"
| "client_error_text io_text InvalidAddress = ascii ''invalid address''"

lemma client_error_is_text:
  assumes "\<And>err. is_text (io_text err)"
  shows "is_text (client_error_text io_text e)"
proof -
  have ascii: "is_text (ascii ''io error: '')" "is_text (ascii ''protocol error'')" "is_text (ascii ''server error: '')"
    "is_text (ascii ''unexpected response'')" "is_text (ascii ''connection pool exhausted'')" "is_text (ascii ''invalid address'')"
    by (rule is_text_bytes; simp add: ascii_simps)+
  show ?thesis by (cases e) (simp_all only: client_error_text.simps ascii assms lossy_is_text is_text_append)
qed

end
