(* ===== verification/Wire.thy ===== *)
theory Wire
  imports Server_Laws Server_Counters Client
begin

text \<open>
  Client and server together. The bytes of the client's encoder are a request of the grammar that
  the server's parser recognises, the bytes of the server's reply encoders are values that the
  client's decoder reads back, and so a method of \<^verbatim>\<open>KVClient\<close> called against a server performs one
  operation of the engine and returns its result.
\<close>

section \<open>Requests\<close>

lemma number_text_digits: "n < 2 ^ 63 \<Longrightarrow> number_text (of_nat n) (dec_digits n)"
  by (simp add: number_text_def)

lemma bulk_frame_text: "length d < 2 ^ 63 \<Longrightarrow> bulk_text d (bulk_frame d)"
  unfolding bulk_text_def bulk_frame_def
  by (intro exI [of _ "of_nat (length d)"] exI [of _ "dec_digits (length d)"] conjI)
    (simp_all add: number_text_digits unat_of_nat_usize)

lemma request_frame_text: "sizes_ok args \<Longrightarrow> request_text args (request_frame args)"
  unfolding request_text_def request_frame_def
  by (intro exI [of _ "of_nat (length args)"] exI [of _ "dec_digits (length args)"]
      exI [of _ "map bulk_frame args"] conjI)
    (simp_all add: number_text_digits unat_of_nat_usize sizes_ok_def list_all2_conv_all_nth bulk_frame_text)

lemma parse_request_frame:
  assumes "sizes_ok args" and "p_state p = ArrayLen"
  obtains p' where "parse p (request_frame args @ rest) = Some (Inr (Some args), p', rest)"
    "p_state p' = ArrayLen" "p_args p' = []"
proof -
  have "\<forall>d\<in>set args. length d < 2 ^ 64 - 2" using assms(1) by (fastforce simp: sizes_ok_def)
  from parse_complete [OF assms(2) request_frame_text [OF assms(1)] this] obtain p' where
    run: "parse p (request_frame args @ rest) = Some (Inr (Some args), p', rest)" by blast
  from parse_sound [OF run] assms(2) have "p_state p' = ArrayLen" "p_args p' = []" by simp_all
  with run that show thesis by blast
qed

lemma parse_idle_empty: "p_state p = ArrayLen \<Longrightarrow> parse p [] = Some (Inr None, p, [])"
  by (subst parse.simps) (simp add: length_line_def read_line_split)

section \<open>One request over a connection\<close>

text \<open>
  The server as the other end of a client's connection: it sends the replies to the requests in
  the bytes it gets, and nothing if it panics.
\<close>

definition server_peer :: "conn_env \<Rightarrow> resp_parser \<Rightarrow> server_conn \<Rightarrow> bytes \<Rightarrow> io_error + bytes" where
  "server_peer senv p c bs = (case serve_buffer senv p bs c of
     None \<Rightarrow> Inr []
   | Some (status, p', buf', c') \<Rightarrow> Inr (concat (drop (length (sc_replies c)) (sc_replies c'))))"

text \<open>A connection between two requests: the parser is idle and writes succeed.\<close>

definition conn_idle :: "conn_env \<Rightarrow> resp_parser \<Rightarrow> server_conn \<Rightarrow> bool" where
  "conn_idle senv p c \<longleftrightarrow> p_state p = ArrayLen \<and> engine_ok (sc_engine c) \<and>
     hist_ok (m_latency (sc_metrics c)) \<and> env_write senv (length (sc_replies c))"

abbreviation calls_of :: "conn_env \<Rightarrow> server_conn \<Rightarrow> nat \<Rightarrow> instant" where
  "calls_of senv c \<equiv> rq_calls (env_clock senv (length (sc_replies c)))"

lemma serve_request_reply:
  assumes "conn_idle senv p c"
    and "dispatch_command args (calls_of senv c) (sc_engine c) (record_request_start (sc_metrics c)) = Some (r, e)"
  obtains c' where "serve_request senv args c = Some (True, c')" "sc_engine c' = e"
    "sc_replies c' = sc_replies c @ [r]"
proof -
  let ?k = "length (sc_replies c)"
  let ?d = "elapsed (rq_start (env_clock senv ?k)) (rq_end (env_clock senv ?k))"
  let ?m = "record_request_start (sc_metrics c)"
  obtain h where "histogram_record (m_latency (sc_metrics c)) ?d = Some h"
    using histogram_record_ok assms(1) by (metis conn_idle_def)
  then obtain m where "record_request_end (if is_error_response r then record_error ?m else ?m) ?d = Some m"
    by (cases "is_error_response r")
      (simp_all add: record_request_end_def record_request_start_def record_error_def)
  with assms that show thesis by (simp add: serve_request_def write_reply_def conn_idle_def Let_def)
qed

lemma serve_one:
  assumes "conn_idle senv p c" and "sizes_ok args"
    and "dispatch_command args (calls_of senv c) (sc_engine c) (record_request_start (sc_metrics c)) = Some (r, e)"
  obtains p' c' where "serve_buffer senv p (request_frame args) c = Some (Waiting, p', [], c')"
    "p_state p' = ArrayLen" "sc_engine c' = e" "sc_replies c' = sc_replies c @ [r]"
proof -
  have "p_state p = ArrayLen" using assms(1) by (simp add: conn_idle_def)
  from parse_request_frame [OF assms(2) this, of "[]"] obtain p' where
    p': "parse p (request_frame args) = Some (Inr (Some args), p', [])" "p_state p' = ArrayLen"
    by auto
  obtain c' where c': "serve_request senv args c = Some (True, c')" "sc_engine c' = e"
    "sc_replies c' = sc_replies c @ [r]"
    using serve_request_reply [OF assms(1,3)] .
  have "serve_buffer senv p (request_frame args) c = Some (Waiting, p', [], c')"
    using p' c'(1) parse_idle_empty [OF p'(2)]
    by (simp add: serve_buffer.simps [of senv p] serve_buffer.simps [of senv p'])
  with p'(2) c' that show thesis by blast
qed

text \<open>
  The answer of a request: the server's engine moves to \<open>e\<close> and the client reads \<open>v\<close>. \<open>conn\<close> is the
  client's end, with nothing left unread.
\<close>

definition answered ::
    "client_env \<Rightarrow> nat \<Rightarrow> conn_env \<Rightarrow> resp_parser \<Rightarrow> server_conn \<Rightarrow> bytes list \<Rightarrow> RespValue \<Rightarrow>
     memory_engine \<Rightarrow> bool" where
  "answered cenv depth senv p c args v e \<longleftrightarrow>
     (\<forall>conn. r_bytes conn = [] \<longrightarrow>
        connection_exec cenv depth (server_peer senv p c) args conn = Some (Inr v, conn)) \<and>
     (\<exists>p' c'. serve_buffer senv p (request_frame args) c = Some (Waiting, p', [], c') \<and>
        p_state p' = ArrayLen \<and> sc_engine c' = e \<and> sc_replies c' = sc_replies c @ [encode_value v])"

lemma answeredI:
  assumes "conn_idle senv p c" and "sizes_ok args" and "decodable cenv depth v"
    and "dispatch_command args (calls_of senv c) (sc_engine c) (record_request_start (sc_metrics c)) =
      Some (encode_value v, e)"
  shows "answered cenv depth senv p c args v e"
proof -
  obtain p' c' where c': "serve_buffer senv p (request_frame args) c = Some (Waiting, p', [], c')"
    "p_state p' = ArrayLen" "sc_engine c' = e" "sc_replies c' = sc_replies c @ [encode_value v]"
    using serve_one [OF assms(1,2,4)] .
  have "connection_exec cenv depth (server_peer senv p c) args conn = Some (Inr v, conn)"
    if "r_bytes conn = []" for conn
    using that c' read_encoded [OF assms(3), of "[]" "r_error conn"] encode_command_frame [OF assms(2), of "[]"]
    by (cases conn) (simp add: connection_exec_def server_peer_def)
  with c' show ?thesis unfolding answered_def by blast
qed

section \<open>The commands of the client\<close>

text \<open>What the server answers to the commands as the client spells them.\<close>

lemma lower_names [simp]:
  "map to_ascii_lowercase (ascii ''PING'') = ascii ''ping''"
  "map to_ascii_lowercase (ascii ''GET'') = ascii ''get''"
  "map to_ascii_lowercase (ascii ''SET'') = ascii ''set''"
  "map to_ascii_lowercase (ascii ''DEL'') = ascii ''del''"
  "map to_ascii_lowercase (ascii ''EXPIRE'') = ascii ''expire''"
  "map to_ascii_lowercase (ascii ''TTL'') = ascii ''ttl''"
  "map to_ascii_lowercase (ascii ''INFO'') = ascii ''info''"
  by (simp_all add: ascii_simps to_ascii_lowercase_def)

lemma command_names [simp]:
  "ascii ''get'' \<noteq> ascii ''ping''"
  "ascii ''set'' \<noteq> ascii ''ping''" "ascii ''set'' \<noteq> ascii ''get''"
  "ascii ''del'' \<noteq> ascii ''ping''" "ascii ''del'' \<noteq> ascii ''get''" "ascii ''del'' \<noteq> ascii ''set''"
  "ascii ''expire'' \<noteq> ascii ''ping''" "ascii ''expire'' \<noteq> ascii ''get''"
  "ascii ''expire'' \<noteq> ascii ''set''" "ascii ''expire'' \<noteq> ascii ''del''"
  "ascii ''ttl'' \<noteq> ascii ''ping''" "ascii ''ttl'' \<noteq> ascii ''get''" "ascii ''ttl'' \<noteq> ascii ''set''"
  "ascii ''ttl'' \<noteq> ascii ''del''" "ascii ''ttl'' \<noteq> ascii ''expire''"
  "ascii ''info'' \<noteq> ascii ''ping''" "ascii ''info'' \<noteq> ascii ''get''" "ascii ''info'' \<noteq> ascii ''set''"
  "ascii ''info'' \<noteq> ascii ''del''" "ascii ''info'' \<noteq> ascii ''expire''" "ascii ''info'' \<noteq> ascii ''ttl''"
  by (simp_all add: ascii_simps)

lemma dispatch_get:
  assumes "engine_ok e"
  obtains e' where "dispatch_command [ascii ''GET'', k] clk e m =
      Some (encode_value (Bulk (map_option fst (live_at (clk 0) (view e) k))), e')"
    "engine_ok e'" "same_config e e'" "live_eq (clk 0) (view e') (view e)"
proof -
  obtain e' where e': "kv_get e (clk 0) k = Some (Inr (map_option fst (live_at (clk 0) (view e) k)), e')"
    "engine_ok e'" "same_config e e'" "live_eq (clk 0) (view e') (view e)"
    using get_ok [OF assms] .
  then have "dispatch_command [ascii ''GET'', k] clk e m =
      Some (encode_value (Bulk (map_option fst (live_at (clk 0) (view e) k))), e')"
    by (cases "live_at (clk 0) (view e) k") (simp_all add: dispatch_cases handle_get_def encode_reply)
  with e' that show thesis by blast
qed

lemma dispatch_set:
  assumes "engine_ok e"
  obtains e' where "dispatch_command [ascii ''SET'', k, v] clk e m =
      Some (encode_value (Simple (ascii ''OK'')), e')"
    "engine_ok e'" "same_config e e'" "e_max_bytes e = - 1 \<Longrightarrow> view e' = (view e)(k \<mapsto> (v, None))"
proof -
  obtain e' where "kv_set e (clk 0) k v = Some (Inr (), e')" "engine_ok e'" "same_config e e'"
    "e_max_bytes e = - 1 \<Longrightarrow> view e' = (view e)(k \<mapsto> (v, None))"
    using set_ok [OF assms, of "clk 0" k v] by blast
  with that show thesis by (simp add: dispatch_cases handle_set_def encode_reply)
qed

lemma dispatch_del:
  assumes "engine_ok e"
  obtains e' where "dispatch_command [ascii ''DEL'', k] clk e m =
      Some (encode_value (Integer (if live_at (clk 0) (view e) k = None then 0 else 1)), e')"
    "engine_ok e'" "same_config e e'" "view e' = (view e)(k := None)"
proof -
  obtain e' where "kv_delete e (clk 0) k = Some (Inr (live_at (clk 0) (view e) k \<noteq> None), e')"
    "engine_ok e'" "same_config e e'" "view e' = (view e)(k := None)"
    using delete_ok [OF assms] .
  with that show thesis
    by (cases "live_at (clk 0) (view e) k") (simp_all add: dispatch_cases handle_del_def encode_reply)
qed

lemma parse_u64_digits [simp]: "parse_u64 (dec_digits (unat w)) = Inr w"
  using unat_le_u64_max [of w] by (simp add: parse_u64_def)

lemma dispatch_expire:
  assumes "engine_ok e" and "instant_add (clk 0) (from_secs w) = Some t"
  obtains e' where "dispatch_command [ascii ''EXPIRE'', k, dec_digits (unat w)] clk e m =
      Some (encode_value (Integer (if live_at (clk 0) (view e) k = None then 0 else 1)), e')"
    "engine_ok e'" "same_config e e'"
    "case live_at (clk 0) (view e) k of
       None \<Rightarrow> live_eq (clk 0) (view e') (view e) | Some (v, d) \<Rightarrow> view e' = (view e)(k \<mapsto> (v, Some t))"
  using assms(1)
proof (cases rule: expire_ok [where now = "clk 0" and k = k and dur = "from_secs w"])
  case (missing e')
  with that show thesis by (simp add: dispatch_cases handle_expire_def encode_reply)
next
  case (applied v d t' e')
  with assms(2) that show thesis by (simp add: dispatch_cases handle_expire_def encode_reply)
qed (use assms(2) in simp)

text \<open>
  \<^verbatim>\<open>SET key value EX seconds\<close> on an engine without a byte limit, where the key cannot be evicted between
  the two calls of the handler.
\<close>

lemma dispatch_set_ex:
  assumes "engine_ok e" and "e_max_bytes e = - 1" and "instant_add (clk 1) (from_secs w) = Some t"
  obtains e' where "dispatch_command [ascii ''SET'', k, v, ascii ''EX'', dec_digits (unat w)] clk e m =
      Some (encode_value (Simple (ascii ''OK'')), e')"
    "engine_ok e'" "same_config e e'" "view e' = (view e)(k \<mapsto> (v, Some t))"
proof -
  obtain f where f: "kv_set e (clk 0) k v = Some (Inr (), f)" "engine_ok f" "same_config e f"
    "view f = (view e)(k \<mapsto> (v, None))"
    using set_ok [OF assms(1), of "clk 0" k v] assms(2) by blast
  then have live: "live_at (clk 1) (view f) k = Some (v, None)" by (simp add: live_at_def)
  have "eq_ignore_ascii_case (ascii ''EX'') (ascii ''EX'')" by (simp add: eq_ignore_map)
  then have run: "dispatch_command [ascii ''SET'', k, v, ascii ''EX'', dec_digits (unat w)] clk e m =
      map_option (\<lambda>(r, e). (case r of Inl _ \<Rightarrow> resp_error (ascii ''engine error'')
        | Inr _ \<Rightarrow> resp_simple (ascii ''OK''), e)) (kv_expire f (clk 1) k (from_secs w))"
    using f(1)
    by (cases "kv_expire f (clk 1) k (from_secs w)") (auto simp: dispatch_cases handle_set_def)
  show thesis
    using f(2)
  proof (cases rule: expire_ok [where now = "clk 1" and k = k and dur = "from_secs w"])
    case (applied v' d' t' e')
    with run live f assms(3) that [of e'] same_config_trans [OF f(3)] show thesis
      by (simp add: encode_reply)
  qed (use live assms(3) in simp_all)
qed

text \<open>\<open>ttl_reply\<close> is the reply of \<^verbatim>\<open>TTL\<close>: whole seconds, or the codes of Redis.\<close>

definition ttl_reply :: "instant \<Rightarrow> (bytes \<times> instant option) option \<Rightarrow> int" where
  "ttl_reply now x = (case x of
     None \<Rightarrow> - 2 | Some (v, None) \<Rightarrow> - 1 | Some (v, Some t) \<Rightarrow> int ((t - now) div nanos_per_sec))"

lemma dispatch_ttl:
  assumes "engine_ok e"
  obtains e' where "dispatch_command [ascii ''TTL'', k] clk e m =
      Some (encode_value (Integer (ttl_reply (clk 0) (live_at (clk 0) (view e) k))), e')"
    "engine_ok e'" "same_config e e'" "live_eq (clk 0) (view e') (view e)"
proof -
  obtain e' where e': "kv_ttl e (clk 0) k = Some (Inr (case live_at (clk 0) (view e) k of
        None \<Rightarrow> Missing | Some (v, None) \<Rightarrow> NoExpiry | Some (v, Some t) \<Rightarrow> ExpiresIn (t - clk 0)), e')"
    "engine_ok e'" "same_config e e'" "live_eq (clk 0) (view e') (view e)"
    using ttl_ok [OF assms] .
  have "dispatch_command [ascii ''TTL'', k] clk e m =
      Some (encode_value (Integer (ttl_reply (clk 0) (live_at (clk 0) (view e) k))), e')"
    using e'(1) live_deadline [OF assms, of "clk 0" k] sint_as_secs
    by (auto simp: dispatch_cases handle_ttl_def encode_reply ttl_reply_def split: option.splits)
  with e' that show thesis by blast
qed

section \<open>The methods of the client against a server\<close>

text \<open>
  \<open>remote\<close> is the connection of a client to a server, and \<open>engine_after\<close> the server's engine once it
  has served a request. \<open>client_ready\<close>: the pool hands out a connection with nothing left unread.
\<close>

definition remote :: "client_env \<Rightarrow> nat \<Rightarrow> conn_env \<Rightarrow> resp_parser \<Rightarrow> server_conn \<Rightarrow> reader call" where
  "remote cenv depth senv p c = connection_exec cenv depth (server_peer senv p c)"

definition engine_after :: "conn_env \<Rightarrow> resp_parser \<Rightarrow> server_conn \<Rightarrow> bytes list \<Rightarrow> memory_engine exec" where
  "engine_after senv p c args =
     map_option (\<lambda>(status, p', buf', c'). sc_engine c') (serve_buffer senv p (request_frame args) c)"

definition client_ready ::
    "pool_config \<Rightarrow> reader ClientResult \<Rightarrow> reader pool_state \<Rightarrow> reader \<Rightarrow> reader pool_state \<Rightarrow> bool" where
  "client_ready cfg attempt s conn s1 \<longleftrightarrow> acquire cfg attempt s = (Inr conn, s1) \<and> r_bytes conn = []"

lemma run_call_answered:
  assumes "client_ready cfg attempt s conn s1" and "answered cenv depth senv p c args v e"
  shows "run_call cfg attempt (remote cenv depth senv p c) args interpret s =
      Some (interpret v, drop_pooled cfg conn True s1)"
    and "engine_after senv p c args = Some e"
  using assms
  by (auto simp: client_ready_def answered_def run_call_def pooled_exec_def remote_def engine_after_def)

text \<open>The arguments and the reply of a call fit into memory.\<close>

definition fits :: "client_env \<Rightarrow> bytes \<Rightarrow> bool" where
  "fits cenv d \<longleftrightarrow> length d < 2 ^ 63 \<and> alloc_bytes cenv (length d)"

lemma sizes_ok_Cons [simp]:
  "sizes_ok []" "length d < 2 ^ 63 \<Longrightarrow> length ds < 2 ^ 63 - 1 \<Longrightarrow> sizes_ok ds \<Longrightarrow> sizes_ok (d # ds)"
  by (auto simp: sizes_ok_def)

lemma dec_digits_fit: "length (dec_digits (unat (w :: u64))) < 2 ^ 63"
  using length_dec_digits_u64 [OF unat_le_u64_max, of w] by simp

lemma conn_idle_engine: "conn_idle senv p c \<Longrightarrow> engine_ok (sc_engine c)"
  by (simp add: conn_idle_def)

lemmas call_answered = run_call_answered [OF _ answeredI]

lemma remote_get:
  assumes "conn_idle senv p c" and "client_ready cfg attempt s conn s1" and "length k < 2 ^ 63"
    and "\<And>v d. live_at (calls_of senv c 0) (view (sc_engine c)) k = Some (v, d) \<Longrightarrow> fits cenv v"
  obtains e' where "client_get cfg attempt (remote cenv (Suc depth) senv p c) k s =
      Some (Inr (map_option fst (live_at (calls_of senv c 0) (view (sc_engine c)) k)),
        drop_pooled cfg conn True s1)"
    "engine_after senv p c [ascii ''GET'', k] = Some e'" "engine_ok e'"
    "live_eq (calls_of senv c 0) (view e') (view (sc_engine c))"
proof -
  let ?x = "map_option fst (live_at (calls_of senv c 0) (view (sc_engine c)) k)"
  obtain e' where e': "dispatch_command [ascii ''GET'', k] (calls_of senv c) (sc_engine c)
      (record_request_start (sc_metrics c)) = Some (encode_value (Bulk ?x), e')"
    "engine_ok e'" "live_eq (calls_of senv c 0) (view e') (view (sc_engine c))"
    using dispatch_get [OF conn_idle_engine [OF assms(1)]] by blast
  have "decodable cenv (Suc depth) (Bulk ?x)"
    using assms(4) by (auto simp: fits_def split: option.splits)
  moreover have "sizes_ok [ascii ''GET'', k]" using assms(3) by simp
  ultimately have call: "run_call cfg attempt (remote cenv (Suc depth) senv p c) [ascii ''GET'', k] as_value s =
      Some (as_value (Bulk ?x), drop_pooled cfg conn True s1)"
    "engine_after senv p c [ascii ''GET'', k] = Some e'"
    using call_answered [OF assms(2,1) _ _ e'(1)] by blast+
  show thesis by (rule that [OF _ call(2) e'(2,3)]) (simp add: client_get_def call(1))
qed

lemma remote_set:
  assumes "conn_idle senv p c" and "client_ready cfg attempt s conn s1"
    and "length k < 2 ^ 63" and "length v < 2 ^ 63"
  obtains e' where "client_set cfg attempt (remote cenv (Suc depth) senv p c) k v s =
      Some (Inr (), drop_pooled cfg conn True s1)"
    "engine_after senv p c [ascii ''SET'', k, v] = Some e'" "engine_ok e'"
    "e_max_bytes (sc_engine c) = - 1 \<Longrightarrow> view e' = (view (sc_engine c))(k \<mapsto> (v, None))"
proof -
  obtain e' where e': "dispatch_command [ascii ''SET'', k, v] (calls_of senv c) (sc_engine c)
      (record_request_start (sc_metrics c)) = Some (encode_value (Simple (ascii ''OK'')), e')"
    "engine_ok e'" "e_max_bytes (sc_engine c) = - 1 \<Longrightarrow> view e' = (view (sc_engine c))(k \<mapsto> (v, None))"
    using dispatch_set [OF conn_idle_engine [OF assms(1)]] by blast
  have "decodable cenv (Suc depth) (Simple (ascii ''OK''))" by (simp add: ascii_simps)
  moreover have "sizes_ok [ascii ''SET'', k, v]" using assms(3,4) by simp
  ultimately have call: "run_call cfg attempt (remote cenv (Suc depth) senv p c) [ascii ''SET'', k, v] as_unit s =
      Some (as_unit (Simple (ascii ''OK'')), drop_pooled cfg conn True s1)"
    "engine_after senv p c [ascii ''SET'', k, v] = Some e'"
    using call_answered [OF assms(2,1) _ _ e'(1)] by blast+
  show thesis by (rule that [OF _ call(2) e'(2,3)]) (simp add: client_set_def call(1))
qed

lemma remote_delete:
  assumes "conn_idle senv p c" and "client_ready cfg attempt s conn s1" and "length k < 2 ^ 63"
  obtains e' where "client_delete cfg attempt (remote cenv (Suc depth) senv p c) k s =
      Some (Inr (live_at (calls_of senv c 0) (view (sc_engine c)) k \<noteq> None), drop_pooled cfg conn True s1)"
    "engine_after senv p c [ascii ''DEL'', k] = Some e'" "engine_ok e'"
    "view e' = (view (sc_engine c))(k := None)"
proof -
  let ?n = "if live_at (calls_of senv c 0) (view (sc_engine c)) k = None then 0 else 1 :: int"
  obtain e' where e': "dispatch_command [ascii ''DEL'', k] (calls_of senv c) (sc_engine c)
      (record_request_start (sc_metrics c)) = Some (encode_value (Integer ?n), e')"
    "engine_ok e'" "view e' = (view (sc_engine c))(k := None)"
    using dispatch_del [OF conn_idle_engine [OF assms(1)]] by blast
  have "decodable cenv (Suc depth) (Integer ?n)" by simp
  moreover have "sizes_ok [ascii ''DEL'', k]" using assms(3) by simp
  ultimately have call: "run_call cfg attempt (remote cenv (Suc depth) senv p c) [ascii ''DEL'', k] as_positive s =
      Some (as_positive (Integer ?n), drop_pooled cfg conn True s1)"
    "engine_after senv p c [ascii ''DEL'', k] = Some e'"
    using call_answered [OF assms(2,1) _ _ e'(1)] by blast+
  show thesis by (rule that [OF _ call(2) e'(2,3)]) (simp add: client_delete_def call(1))
qed

lemma remote_expire:
  assumes "conn_idle senv p c" and "client_ready cfg attempt s conn s1" and "length k < 2 ^ 63"
    and "instant_add (calls_of senv c 0) (from_secs (as_secs ttl)) = Some t"
  obtains e' where "client_expire cfg attempt (remote cenv (Suc depth) senv p c) k ttl s =
      Some (Inr (live_at (calls_of senv c 0) (view (sc_engine c)) k \<noteq> None), drop_pooled cfg conn True s1)"
    "engine_after senv p c [ascii ''EXPIRE'', k, dec_digits (unat (as_secs ttl))] = Some e'" "engine_ok e'"
    "case live_at (calls_of senv c 0) (view (sc_engine c)) k of
       None \<Rightarrow> live_eq (calls_of senv c 0) (view e') (view (sc_engine c))
     | Some (v, d) \<Rightarrow> view e' = (view (sc_engine c))(k \<mapsto> (v, Some t))"
proof -
  let ?n = "if live_at (calls_of senv c 0) (view (sc_engine c)) k = None then 0 else 1 :: int"
  obtain e' where e': "dispatch_command [ascii ''EXPIRE'', k, dec_digits (unat (as_secs ttl))]
      (calls_of senv c) (sc_engine c) (record_request_start (sc_metrics c)) =
      Some (encode_value (Integer ?n), e')"
    "engine_ok e'" "case live_at (calls_of senv c 0) (view (sc_engine c)) k of
       None \<Rightarrow> live_eq (calls_of senv c 0) (view e') (view (sc_engine c))
     | Some (v, d) \<Rightarrow> view e' = (view (sc_engine c))(k \<mapsto> (v, Some t))"
    using dispatch_expire [where clk = "calls_of senv c", OF conn_idle_engine [OF assms(1)] assms(4)] by blast
  have "decodable cenv (Suc depth) (Integer ?n)" by simp
  moreover have "sizes_ok [ascii ''EXPIRE'', k, dec_digits (unat (as_secs ttl))]"
    using assms(3) dec_digits_fit [of "as_secs ttl"] by simp
  ultimately have call: "run_call cfg attempt (remote cenv (Suc depth) senv p c) [ascii ''EXPIRE'', k, dec_digits (unat (as_secs ttl))] as_one s =
      Some (as_one (Integer ?n), drop_pooled cfg conn True s1)"
    "engine_after senv p c [ascii ''EXPIRE'', k, dec_digits (unat (as_secs ttl))] = Some e'"
    using call_answered [OF assms(2,1) _ _ e'(1)] by blast+
  show thesis by (rule that [OF _ call(2) e'(2,3)]) (simp add: client_expire_def call(1))
qed

text \<open>What the client makes of the reply to \<^verbatim>\<open>TTL\<close>: the time that is left, cut to whole seconds.\<close>

definition client_ttl_of :: "instant \<Rightarrow> (bytes \<times> instant option) option \<Rightarrow> ClientTtl" where
  "client_ttl_of now x = (case x of
     None \<Rightarrow> CMissing | Some (v, None) \<Rightarrow> CNoExpiry
   | Some (v, Some t) \<Rightarrow> CExpiresIn ((t - now) div nanos_per_sec * nanos_per_sec))"

lemma ttl_reply_bounds:
  assumes "engine_ok e" and "x = live_at now (view e) k"
  shows "\<bar>ttl_reply now x\<bar> \<le> i64_max" and "as_ttl (Integer (ttl_reply now x)) = Inr (client_ttl_of now x)"
proof -
  have sec: "(t - now) div nanos_per_sec < 2 ^ 63" if "x = Some (v, Some t)" for v t
    using live_deadline [OF assms(1), of now k v t] assms(2) that secs_bound [of "t - now"] by simp
  then show "\<bar>ttl_reply now x\<bar> \<le> i64_max" by (fastforce simp: ttl_reply_def split: option.splits)
  show "as_ttl (Integer (ttl_reply now x)) = Inr (client_ttl_of now x)"
    using sec by (auto simp: ttl_reply_def client_ttl_of_def from_secs_def unat_of_nat_usize split: option.splits)
qed

lemma remote_ttl:
  assumes "conn_idle senv p c" and "client_ready cfg attempt s conn s1" and "length k < 2 ^ 63"
  obtains e' where "client_ttl cfg attempt (remote cenv (Suc depth) senv p c) k s =
      Some (Inr (client_ttl_of (calls_of senv c 0) (live_at (calls_of senv c 0) (view (sc_engine c)) k)),
        drop_pooled cfg conn True s1)"
    "engine_after senv p c [ascii ''TTL'', k] = Some e'" "engine_ok e'"
    "live_eq (calls_of senv c 0) (view e') (view (sc_engine c))"
proof -
  let ?x = "live_at (calls_of senv c 0) (view (sc_engine c)) k"
  obtain e' where e': "dispatch_command [ascii ''TTL'', k] (calls_of senv c) (sc_engine c)
      (record_request_start (sc_metrics c)) = Some (encode_value (Integer (ttl_reply (calls_of senv c 0) ?x)), e')"
    "engine_ok e'" "live_eq (calls_of senv c 0) (view e') (view (sc_engine c))"
    using dispatch_ttl [OF conn_idle_engine [OF assms(1)]] by blast
  note ttl = ttl_reply_bounds [OF conn_idle_engine [OF assms(1)] refl, of "calls_of senv c 0" k]
  have "decodable cenv (Suc depth) (Integer (ttl_reply (calls_of senv c 0) ?x))" using ttl(1) by simp
  moreover have "sizes_ok [ascii ''TTL'', k]" using assms(3) by simp
  ultimately have call: "run_call cfg attempt (remote cenv (Suc depth) senv p c) [ascii ''TTL'', k] as_ttl s =
      Some (as_ttl (Integer (ttl_reply (calls_of senv c 0) ?x)), drop_pooled cfg conn True s1)"
    "engine_after senv p c [ascii ''TTL'', k] = Some e'"
    using call_answered [OF assms(2,1) _ _ e'(1)] by blast+
  show thesis by (rule that [OF _ call(2) e'(2,3)]) (simp only: client_ttl_def call(1) ttl(2))
qed

lemma remote_set_with_ttl:
  assumes "conn_idle senv p c" and "client_ready cfg attempt s conn s1"
    and "length k < 2 ^ 63" and "length v < 2 ^ 63" and "e_max_bytes (sc_engine c) = - 1"
    and "instant_add (calls_of senv c 1) (from_secs (as_secs ttl)) = Some t"
  obtains e' where "client_set_with_ttl cfg attempt (remote cenv (Suc depth) senv p c) k v ttl s =
      Some (Inr (), drop_pooled cfg conn True s1)"
    "engine_after senv p c [ascii ''SET'', k, v, ascii ''EX'', dec_digits (unat (as_secs ttl))] = Some e'"
    "engine_ok e'" "view e' = (view (sc_engine c))(k \<mapsto> (v, Some t))"
proof -
  let ?args = "[ascii ''SET'', k, v, ascii ''EX'', dec_digits (unat (as_secs ttl))]"
  obtain e' where e': "dispatch_command ?args (calls_of senv c) (sc_engine c)
      (record_request_start (sc_metrics c)) = Some (encode_value (Simple (ascii ''OK'')), e')"
    "engine_ok e'" "view e' = (view (sc_engine c))(k \<mapsto> (v, Some t))"
    using dispatch_set_ex [where clk = "calls_of senv c", OF conn_idle_engine [OF assms(1)] assms(5,6)] by blast
  have "decodable cenv (Suc depth) (Simple (ascii ''OK''))" by (simp add: ascii_simps)
  moreover have "sizes_ok ?args" using assms(3,4) dec_digits_fit [of "as_secs ttl"] by simp
  ultimately have call: "run_call cfg attempt (remote cenv (Suc depth) senv p c) ?args as_unit s =
      Some (as_unit (Simple (ascii ''OK'')), drop_pooled cfg conn True s1)"
    "engine_after senv p c ?args = Some e'"
    using call_answered [OF assms(2,1) _ _ e'(1)] by blast+
  show thesis by (rule that [OF _ call(2) e'(2,3)]) (simp add: client_set_with_ttl_def call(1))
qed

text \<open>
  A reply that cannot be written is never taken out of the in-flight gauge: \<^verbatim>\<open>write_all(..)?\<close> leaves
  the handler before \<^verbatim>\<open>record_request_end\<close>.
\<close>

lemma failed_write_leaks_inflight:
  assumes "p_state p = ArrayLen" and "sizes_ok args" and "\<not> env_write env (length (sc_replies c))"
    and "dispatch_command args (calls_of env c) (sc_engine c) (record_request_start (sc_metrics c)) = Some (r, e)"
  shows "\<exists>p' c'. serve_buffer env p (request_frame args @ rest) c = Some (WriteError, p', rest, c') \<and>
    m_inflight (sc_metrics c') = m_inflight (sc_metrics c) + 1 \<and> sc_replies c' = sc_replies c"
proof -
  obtain p' where "parse p (request_frame args @ rest) = Some (Inr (Some args), p', rest)"
    using parse_request_frame [OF assms(2,1)] .
  then show ?thesis
    using assms(3,4)
    by (subst serve_buffer.simps)
      (simp add: serve_request_def write_reply_def record_request_start_def record_error_def Let_def)
qed

text \<open>
  A request that announces a bulk string of \<open>2\<^sup>6\<^sup>4 - 2\<close> bytes or more, after any arguments before it: the
  parser panics on the first byte after the announcement, and with it the task of the connection,
  whatever was served before.
\<close>

definition oversized_request :: "nat \<Rightarrow> bytes list \<Rightarrow> nat \<Rightarrow> bytes" where
  "oversized_request count args len =
     [42] @ dec_digits count @ [13, 10] @ concat (map bulk_frame args) @ [36] @ dec_digits len @ [13, 10]"

lemma length_line_digits:
  assumes "mark \<noteq> 13"
  shows "length_line mark (mark # dec_digits n @ 13 # 10 # rest) = Some (Inr (of_nat (min n u64_max)), rest)"
  unfolding length_line_iff [OF assms] by (intro exI [of _ "dec_digits n"]) (simp add: number_text_def)

lemma parse_one_bulk:
  assumes "p_state p = BulkLen" and "length d < 2 ^ 63" and "p_remaining p \<noteq> 1"
  shows "parse p (bulk_frame d @ tail) = parse (p\<lparr>p_bulk_len := of_nat (length d), p_args := p_args p @ [d],
    p_remaining := p_remaining p - 1, p_state := BulkLen\<rparr>) tail"
proof -
  define w :: usize where "w = of_nat (length d)"
  have w: "unat w = length d" using unat_of_nat_usize [OF assms(2)] by (simp add: w_def)
  have w2: "unat (w + 2) = length d + 2"
    using assms(2) w by (simp add: unat_word_ariths)
  have "length_line 36 (bulk_frame d @ tail) = Some (Inr w, d @ 13 # 10 # tail)"
    using length_line_digits [of 36 "length d" "d @ 13 # 10 # tail"] assms(2) by (simp add: bulk_frame_def w_def min_def)
  then have "parse p (bulk_frame d @ tail) = parse (p\<lparr>p_bulk_len := w, p_state := BulkData\<rparr>) (d @ 13 # 10 # tail)"
    using assms(1) by (subst parse.simps) simp
  also have "\<dots> = parse (p\<lparr>p_bulk_len := w, p_args := p_args p @ [d], p_remaining := p_remaining p - 1, p_state := BulkLen\<rparr>) tail"
    using assms(3) w w2 by (subst parse.simps) (simp add: split_to_def bad_crlf_def Let_def)
  finally show ?thesis by (simp add: w_def)
qed

lemma parse_oversized_bulk:
  assumes "2 ^ 64 - 2 \<le> len" and "rest \<noteq> []" and "length rest < 2 ^ 64 - 2"
  shows "list_all (\<lambda>d. length d < 2 ^ 63) args \<Longrightarrow> p_state p = BulkLen \<Longrightarrow> length args < unat (p_remaining p) \<Longrightarrow>
    parse p (concat (map bulk_frame args) @ 36 # dec_digits len @ 13 # 10 # rest) = None"
proof (induction args arbitrary: p)
  case Nil
  let ?w = "of_nat (min len u64_max) :: usize"
  have w: "unat ?w = min len u64_max" using unat_of_nat [of "min len u64_max", where ?'a = 64]
    by (simp add: take_bit_eq_mod min_def)
  then have big: "length rest < unat ?w" using assms(1,3) by (simp add:)
  have "min len u64_max = 2 ^ 64 - 2 \<or> min len u64_max = 2 ^ 64 - 1" using assms(1) by linarith
  then have "unat (?w + 2) \<le> 1" by (elim disjE) (simp_all only:, simp_all)
  then have "unat (?w + 2) \<le> length rest" using assms(2) by (cases rest) auto
  with big Nil length_line_digits [of 36 len rest] show ?case
    by (subst parse.simps, simp, subst parse.simps) (simp add: split_to_def)
next
  case (Cons d args)
  have "p_remaining p \<noteq> 1" using Cons.prems(3) by auto
  moreover have "unat (p_remaining p - 1) = unat (p_remaining p) - 1"
    using Cons.prems(3) by (intro unat_minus_one) auto
  ultimately show ?case
    using Cons.prems parse_one_bulk [OF Cons.prems(2), of d] by (simp add: Cons.IH)
qed

lemma parse_oversized:
  assumes "sizes_ok args" and "length args < count" and "count < 2 ^ 64" and "2 ^ 64 - 2 \<le> len"
    and "rest \<noteq> []" and "length rest < 2 ^ 64 - 2" and "p_state p = ArrayLen"
  shows "parse p (oversized_request count args len @ rest) = None"
proof -
  have cnt: "unat (of_nat (min count u64_max) :: usize) = count"
    using assms(3) unat_of_nat [of count, where ?'a = 64] by (simp add: min_def take_bit_eq_mod)
  have "list_all (\<lambda>d. length d < 2 ^ 63) args" using assms(1) by (simp add: sizes_ok_def list_all_iff)
  from parse_oversized_bulk [OF assms(4-6) this, of "p\<lparr>p_args := [], p_remaining := of_nat (min count u64_max), p_state := BulkLen\<rparr>"]
  show ?thesis
    using assms(2,7) cnt length_line_digits [of 42 count "concat (map bulk_frame args) @ 36 # dec_digits len @ 13 # 10 # rest"]
    by (subst parse.simps) (auto simp: oversized_request_def Let_def)
qed

lemma write_succeeds: "env_write env k \<Longrightarrow> k = length (sc_replies c) \<Longrightarrow> write_reply env r c = Some (ok, c') \<Longrightarrow> ok"
  by (auto simp: write_reply_def Let_def bind_eq_Some_conv)

lemma serve_before_panic:
  assumes "\<And>k. env_write env k" and "\<And>q. p_state q = ArrayLen \<Longrightarrow> parse q tail = None"
  shows "list_all sizes_ok qs \<Longrightarrow> p_state p = ArrayLen \<Longrightarrow> serve_buffer env p (concat (map request_frame qs) @ tail) c = None"
proof (induction qs arbitrary: p c)
  case Nil
  then show ?case using assms(2) by (subst serve_buffer.simps) simp
next
  case (Cons args qs)
  let ?more = "concat (map request_frame qs) @ tail"
  have "sizes_ok args" using Cons.prems(1) by simp
  then obtain p' where p': "parse p (request_frame args @ ?more) = Some (Inr (Some args), p', ?more)" "p_state p' = ArrayLen"
    using parse_request_frame [OF _ Cons.prems(2)] by metis
  have ok: "ok" if "serve_request env args c = Some (ok, c')" for ok c'
    using that write_succeeds [OF assms(1) refl] by (auto simp: serve_request_def bind_eq_Some_conv Let_def)
  consider "serve_request env args c = None" | c' where "serve_request env args c = Some (True, c')"
    using ok by (metis (full_types) not_Some_eq surj_pair)
  then show ?case
  proof cases
    case 1
    with p'(1) show ?thesis by (subst serve_buffer.simps) simp
  next
    case (2 c')
    have "serve_buffer env p' ?more c' = None" using Cons.IH [OF _ p'(2)] Cons.prems(1) by simp
    with 2 p'(1) show ?thesis by (subst serve_buffer.simps) simp
  qed
qed

text \<open>
  Whole seconds survive the wire: the digits the client writes are the number the server reads.
\<close>

lemma seconds_round_trip:
  "\<exists>ds. seconds_text w = Some ds \<and> parse_u64 ds = Inr w \<and> length ds \<le> 20"
  using length_dec_digits_u64 [OF unat_le_u64_max, of w] by simp

end
