(* ===== verification/KV_Trait.thy ===== *)
theory KV_Trait
  imports Engine_Laws
begin

text \<open>
  The trait \<^verbatim>\<open>KVEngine\<close> (\<^verbatim>\<open>hkv-engine/src/engine.rs\<close>) as an interface. The record \<open>KVEngine\<close> is a
  table of the trait's methods; the locale \<open>kv_store\<close> states what a client may rely on, and
  \<open>kv_store_lossless\<close> adds that nothing is evicted. The client's results are proved once from the
  laws: an engine of the first kind never answers with anything but the current value of a key, one
  of the second kind is indistinguishable from a map with deadlines. Both are instantiated with the
  engine of \<^verbatim>\<open>memory.rs\<close>.
\<close>

section \<open>The trait\<close>

record 'e KVEngine =
  op_get :: "'e \<Rightarrow> instant \<Rightarrow> bytes \<Rightarrow> (bytes option HkvResult \<times> 'e) exec"
  op_set :: "'e \<Rightarrow> instant \<Rightarrow> bytes \<Rightarrow> bytes \<Rightarrow> (unit HkvResult \<times> 'e) exec"
  op_delete :: "'e \<Rightarrow> instant \<Rightarrow> bytes \<Rightarrow> (bool HkvResult \<times> 'e) exec"
  op_expire :: "'e \<Rightarrow> instant \<Rightarrow> bytes \<Rightarrow> duration \<Rightarrow> (unit HkvResult \<times> 'e) exec"
  op_ttl :: "'e \<Rightarrow> instant \<Rightarrow> bytes \<Rightarrow> (TtlStatus HkvResult \<times> 'e) exec"

definition memory_kv :: "memory_engine KVEngine" where
  "memory_kv = \<lparr>op_get = kv_get, op_set = kv_set, op_delete = kv_delete, op_expire = kv_expire,
     op_ttl = kv_ttl\<rparr>"

text \<open>A call of the trait, its answer, and the calls of a client one after the other.\<close>

datatype kv_cmd =
  Cmd_Get bytes | Cmd_Set bytes bytes | Cmd_Delete bytes | Cmd_Expire bytes duration | Cmd_Ttl bytes

datatype kv_answer =
  Ans_Value "bytes option HkvResult" | Ans_Unit "unit HkvResult" | Ans_Bool "bool HkvResult"
| Ans_Ttl "TtlStatus HkvResult"

fun run_cmd :: "'e KVEngine \<Rightarrow> instant \<Rightarrow> kv_cmd \<Rightarrow> 'e \<Rightarrow> (kv_answer \<times> 'e) exec" where
  "run_cmd ops now (Cmd_Get k) e = map_option (map_prod Ans_Value id) (op_get ops e now k)"
| "run_cmd ops now (Cmd_Set k v) e = map_option (map_prod Ans_Unit id) (op_set ops e now k v)"
| "run_cmd ops now (Cmd_Delete k) e = map_option (map_prod Ans_Bool id) (op_delete ops e now k)"
| "run_cmd ops now (Cmd_Expire k d) e = map_option (map_prod Ans_Unit id) (op_expire ops e now k d)"
| "run_cmd ops now (Cmd_Ttl k) e = map_option (map_prod Ans_Ttl id) (op_ttl ops e now k)"

fun run_cmds :: "'e KVEngine \<Rightarrow> (instant \<times> kv_cmd) list \<Rightarrow> 'e \<Rightarrow> (kv_answer list \<times> 'e) exec" where
  "run_cmds ops [] e = Some ([], e)"
| "run_cmds ops ((now, c) # cs) e = do {
     (a, e) \<leftarrow> run_cmd ops now c e;
     (as, e) \<leftarrow> run_cmds ops cs e;
     Some (a # as, e)
   }"

section \<open>The specification: a map with deadlines\<close>

definition ttl_status :: "instant \<Rightarrow> (bytes \<times> instant option) option \<Rightarrow> TtlStatus" where
  "ttl_status now x = (case x of
     None \<Rightarrow> Missing | Some (v, None) \<Rightarrow> NoExpiry | Some (v, Some t) \<Rightarrow> ExpiresIn (t - now))"

definition spec_kv :: "kv_view KVEngine" where
  "spec_kv = \<lparr>
     op_get = (\<lambda>m now k. Some (Inr (map_option fst (live_at now m k)), m)),
     op_set = (\<lambda>m now k v. Some (Inr (), m(k \<mapsto> (v, None)))),
     op_delete = (\<lambda>m now k. Some (Inr (live_at now m k \<noteq> None), m(k := None))),
     op_expire = (\<lambda>m now k dur. case live_at now m k of
         None \<Rightarrow> Some (Inl NotFound, m)
       | Some (v, d) \<Rightarrow> map_option (\<lambda>t. (Inr (), m(k \<mapsto> (v, Some t)))) (instant_add now dur)),
     op_ttl = (\<lambda>m now k. Some (Inr (ttl_status now (live_at now m k)), m))\<rparr>"

text \<open>
  What a cache may answer where the map answers \<open>b\<close>: the same, or that there is nothing.
\<close>

fun cache_answer :: "kv_answer \<Rightarrow> kv_answer \<Rightarrow> bool" where
  "cache_answer (Ans_Value (Inr x)) (Ans_Value (Inr y)) \<longleftrightarrow> x = None \<or> x = y"
| "cache_answer (Ans_Bool (Inr x)) (Ans_Bool (Inr y)) \<longleftrightarrow> (x \<longrightarrow> y)"
| "cache_answer (Ans_Ttl (Inr x)) (Ans_Ttl (Inr y)) \<longleftrightarrow> x = Missing \<or> x = y"
| "cache_answer (Ans_Unit x) (Ans_Unit y) \<longleftrightarrow> x = Inl NotFound \<or> x = y"
| "cache_answer _ _ \<longleftrightarrow> False"

definition time_ordered :: "instant \<Rightarrow> (instant \<times> kv_cmd) list \<Rightarrow> bool" where
  "time_ordered now cs \<longleftrightarrow> sorted (now # map fst cs)"

lemma live_at_earlier:
  "now \<le> t \<Longrightarrow> live_at t m k = Some x \<Longrightarrow> live_at now m k = Some x"
  by (auto simp: live_at_def dest: expired_at_mono split: option.splits if_splits)

lemma time_ordered_simps [simp]:
  "time_ordered now []"
  "time_ordered now ((t, c) # cs) \<longleftrightarrow> now \<le> t \<and> time_ordered t cs"
  by (auto simp: time_ordered_def)

section \<open>The interface\<close>

locale kv_store =
  fixes ops :: "'e KVEngine"
    and inv :: "'e \<Rightarrow> bool"
    and lookup :: "'e \<Rightarrow> kv_view"
  assumes get_law: "inv e \<Longrightarrow>
      \<exists>e'. op_get ops e now k = Some (Inr (map_option fst (live_at now (lookup e) k)), e') \<and>
        inv e' \<and> live_eq now (lookup e') (lookup e)"
    and set_law: "inv e \<Longrightarrow>
      \<exists>e'. op_set ops e now k v = Some (Inr (), e') \<and>
        inv e' \<and> lookup e' \<subseteq>\<^sub>m (lookup e)(k \<mapsto> (v, None))"
    and delete_law: "inv e \<Longrightarrow>
      \<exists>e'. op_delete ops e now k = Some (Inr (live_at now (lookup e) k \<noteq> None), e') \<and>
        inv e' \<and> lookup e' = (lookup e)(k := None)"
    and expire_missing: "inv e \<Longrightarrow> live_at now (lookup e) k = None \<Longrightarrow>
      \<exists>e'. op_expire ops e now k dur = Some (Inl NotFound, e') \<and>
        inv e' \<and> live_eq now (lookup e') (lookup e)"
    and expire_live: "inv e \<Longrightarrow> live_at now (lookup e) k = Some (v, d) \<Longrightarrow> instant_add now dur = Some t \<Longrightarrow>
      \<exists>e'. op_expire ops e now k dur = Some (Inr (), e') \<and>
        inv e' \<and> lookup e' = (lookup e)(k \<mapsto> (v, Some t))"
    and expire_panic: "inv e \<Longrightarrow> live_at now (lookup e) k = Some (v, d) \<Longrightarrow> instant_add now dur = None \<Longrightarrow>
      op_expire ops e now k dur = None"
    and ttl_law: "inv e \<Longrightarrow>
      \<exists>e'. op_ttl ops e now k = Some (Inr (ttl_status now (live_at now (lookup e) k)), e') \<and>
        inv e' \<and> live_eq now (lookup e') (lookup e)"
begin

text \<open>The engine's entries are entries of the map, from \<open>now\<close> on.\<close>

definition cached :: "instant \<Rightarrow> 'e \<Rightarrow> kv_view \<Rightarrow> bool" where
  "cached now e m \<longleftrightarrow> inv e \<and> (\<forall>t\<ge>now. live_at t (lookup e) \<subseteq>\<^sub>m live_at t m)"

lemma cachedD: "cached now e m \<Longrightarrow> live_at now (lookup e) k = Some x \<Longrightarrow> live_at now m k = Some x"
  unfolding cached_def map_le_iff by blast

lemma cached_later: "cached now e m \<Longrightarrow> now \<le> t \<Longrightarrow> cached t e m"
  by (auto simp: cached_def)

lemma cached_same: "cached now e m \<Longrightarrow> inv e' \<Longrightarrow> live_eq now (lookup e') (lookup e) \<Longrightarrow> cached now e' m"
  by (simp add: cached_def live_eq_def)

lemma cached_upd:
  assumes "cached now e m" and "inv e'" and "lookup e' \<subseteq>\<^sub>m (lookup e)(k := x)"
  shows "cached now e' (m(k := x))"
  unfolding cached_def
proof (intro conjI allI impI)
  fix t assume "now \<le> t"
  then have "live_at t (lookup e) \<subseteq>\<^sub>m live_at t m" using assms(1) by (simp add: cached_def)
  then have "live_at t ((lookup e)(k := x)) \<subseteq>\<^sub>m live_at t (m(k := x))"
    by (cases x) (auto simp: map_le_iff live_at_upd)
  with live_at_mono [OF assms(3), of t] show "live_at t (lookup e') \<subseteq>\<^sub>m live_at t (m(k := x))"
    by (rule map_le_trans)
qed (rule assms(2))

lemma cached_absent:
  assumes "cached now e m" and "live_at now (lookup e) k = None"
  shows "cached now e (m(k := x))"
  unfolding cached_def map_le_iff
proof (intro conjI allI impI)
  fix t q d assume t: "now \<le> t" and q: "live_at t (lookup e) q = Some d"
  then have "q \<noteq> k" using live_at_earlier [OF t q] assms(2) by auto
  have "live_at t m q = Some d" using t q assms(1) unfolding cached_def map_le_iff by blast
  with \<open>q \<noteq> k\<close> show "live_at t (m(k := x)) q = Some d" by (simp add: live_at_def)
qed (use assms(1) in \<open>simp add: cached_def\<close>)

lemma run_cmd_cached:
  assumes "cached now e m" and "run_cmd spec_kv now c m = Some (b, m')"
  shows "\<exists>a e'. run_cmd ops now c e = Some (a, e') \<and> cache_answer a b \<and> cached now e' m'"
proof -
  have inv: "inv e" using assms(1) by (simp add: cached_def)
  note live = cachedD [OF assms(1)]
  show ?thesis
  proof (cases c)
    case (Cmd_Get k)
    from get_law [OF inv, of now k] obtain e' where
      "op_get ops e now k = Some (Inr (map_option fst (live_at now (lookup e) k)), e')"
      "inv e'" "live_eq now (lookup e') (lookup e)" by blast
    with Cmd_Get assms(2) live [of k] cached_same [OF assms(1)] show ?thesis
      by (cases "live_at now (lookup e) k") (auto simp: spec_kv_def)
  next
    case (Cmd_Set k v)
    from set_law [OF inv, of now k v] obtain e' where
      "op_set ops e now k v = Some (Inr (), e')" "inv e'" "lookup e' \<subseteq>\<^sub>m (lookup e)(k \<mapsto> (v, None))" by blast
    with Cmd_Set assms(2) cached_upd [OF assms(1)] show ?thesis by (auto simp: spec_kv_def)
  next
    case (Cmd_Delete k)
    from delete_law [OF inv, of now k] obtain e' where
      "op_delete ops e now k = Some (Inr (live_at now (lookup e) k \<noteq> None), e')"
      "inv e'" "lookup e' = (lookup e)(k := None)" by blast
    with Cmd_Delete assms(2) live [of k] cached_upd [OF assms(1), of e' k None] show ?thesis
      by (cases "live_at now (lookup e) k") (auto simp: spec_kv_def)
  next
    case (Cmd_Ttl k)
    from ttl_law [OF inv, of now k] obtain e' where
      "op_ttl ops e now k = Some (Inr (ttl_status now (live_at now (lookup e) k)), e')"
      "inv e'" "live_eq now (lookup e') (lookup e)" by blast
    with Cmd_Ttl assms(2) live [of k] cached_same [OF assms(1)] show ?thesis
      by (cases "live_at now (lookup e) k") (auto simp: spec_kv_def ttl_status_def)
  next
    case (Cmd_Expire k dur)
    show ?thesis
    proof (cases "live_at now (lookup e) k")
      case (Some x)
      obtain v d where x: "x = (v, d)" by (cases x)
      with Cmd_Expire assms(2) live [OF Some] obtain t where t: "instant_add now dur = Some t"
        "b = Ans_Unit (Inr ())" "m' = m(k \<mapsto> (v, Some t))"
        by (auto simp: spec_kv_def)
      from expire_live [OF inv Some [unfolded x] t(1)] obtain e' where
        "op_expire ops e now k dur = Some (Inr (), e')" "inv e'" "lookup e' = (lookup e)(k \<mapsto> (v, Some t))"
        by blast
      with Cmd_Expire t cached_upd [OF assms(1), of e' k "Some (v, Some t)"] show ?thesis by auto
    next
      case None
      from expire_missing [OF inv None, of dur] obtain e' where
        e': "op_expire ops e now k dur = Some (Inl NotFound, e')" "inv e'" "live_eq now (lookup e') (lookup e)"
        by blast
      have "cached now e m'"
        using assms Cmd_Expire cached_absent [OF assms(1) None]
        by (auto simp: spec_kv_def split: option.splits)
      then have "cached now e' m'" using cached_same e'(2,3) by blast
      with e' Cmd_Expire assms(2) show ?thesis
        by (auto simp: spec_kv_def split: option.splits)
    qed
  qed
qed

lemma run_cmds_cached:
  "cached now e m \<Longrightarrow> time_ordered now cs \<Longrightarrow> run_cmds spec_kv cs m = Some (bs, m') \<Longrightarrow>
    \<exists>as e'. run_cmds ops cs e = Some (as, e') \<and> list_all2 cache_answer as bs \<and> inv e'"
proof (induction cs arbitrary: now e m bs)
  case Nil
  then show ?case by (simp add: cached_def)
next
  case (Cons tc cs)
  obtain t c where tc: "tc = (t, c)" by (cases tc)
  from Cons.prems tc obtain b m1 bs1 where spec: "run_cmd spec_kv t c m = Some (b, m1)"
    "run_cmds spec_kv cs m1 = Some (bs1, m')" "bs = b # bs1" and ord: "now \<le> t" "time_ordered t cs"
    by (auto simp: bind_eq_Some_conv)
  from run_cmd_cached [OF cached_later [OF Cons.prems(1) ord(1)] spec(1)] obtain a e1 where
    a: "run_cmd ops t c e = Some (a, e1)" "cache_answer a b" "cached t e1 m1" by blast
  from Cons.IH [OF a(3) ord(2) spec(2)] a spec(3) tc show ?case by auto
qed

end

text \<open>Without eviction the engine and the map answer alike.\<close>

locale kv_store_lossless = kv_store +
  assumes set_keeps: "inv e \<Longrightarrow> op_set ops e now k v = Some (r, e') \<Longrightarrow>
      lookup e' = (lookup e)(k \<mapsto> (v, None))"
begin

definition simulates :: "instant \<Rightarrow> 'a \<Rightarrow> kv_view \<Rightarrow> bool" where
  "simulates now e m \<longleftrightarrow> inv e \<and> live_eq now (lookup e) m"

lemma simulates_same:
  "simulates now e m \<Longrightarrow> inv e' \<Longrightarrow> live_eq now (lookup e') (lookup e) \<Longrightarrow> simulates now e' m"
  by (auto simp: simulates_def intro: live_eq_trans)

lemma simulates_upd:
  "simulates now e m \<Longrightarrow> inv e' \<Longrightarrow> lookup e' = (lookup e)(k := x) \<Longrightarrow> simulates now e' (m(k := x))"
  by (simp add: simulates_def live_eq_upd)

lemma run_cmd_simulates:
  assumes "simulates now e m"
  shows "case run_cmd spec_kv now c m of
      None \<Rightarrow> run_cmd ops now c e = None
    | Some (a, m') \<Rightarrow> \<exists>e'. run_cmd ops now c e = Some (a, e') \<and> simulates now e' m'"
proof -
  have inv: "inv e" and live: "live_at now (lookup e) = live_at now m"
    using assms by (auto simp: simulates_def intro: live_eq_now)
  show ?thesis
  proof (cases c)
    case (Cmd_Get k)
    with get_law [OF inv, of now k] simulates_same [OF assms] show ?thesis
      by (auto simp: spec_kv_def live)
  next
    case (Cmd_Set k v)
    with set_law [OF inv, of now k v] set_keeps [OF inv, of now k v] simulates_upd [OF assms] show ?thesis
      by (auto simp: spec_kv_def)
  next
    case (Cmd_Delete k)
    with delete_law [OF inv, of now k] simulates_upd [OF assms, of _ k None] show ?thesis
      by (auto simp: spec_kv_def live)
  next
    case (Cmd_Ttl k)
    with ttl_law [OF inv, of now k] simulates_same [OF assms] show ?thesis
      by (auto simp: spec_kv_def live)
  next
    case (Cmd_Expire k dur)
    show ?thesis
    proof (cases "live_at now m k")
      case None
      with Cmd_Expire expire_missing [OF inv, of now k dur] simulates_same [OF assms] show ?thesis
        by (auto simp: spec_kv_def live)
    next
      case (Some x)
      obtain v d where x: "x = (v, d)" by (cases x)
      with Some have le: "live_at now (lookup e) k = Some (v, d)" by (simp add: live)
      show ?thesis
      proof (cases "instant_add now dur")
        case None
        with Cmd_Expire Some x expire_panic [OF inv le, of dur] show ?thesis by (simp add: spec_kv_def)
      next
        case t: (Some t)
        from expire_live [OF inv le t] simulates_upd [OF assms, of _ k "Some (v, Some t)"]
        show ?thesis using Cmd_Expire Some x t by (auto simp: spec_kv_def)
      qed
    qed
  qed
qed

lemma run_cmds_simulates:
  "simulates now e m \<Longrightarrow> time_ordered now cs \<Longrightarrow>
    map_option fst (run_cmds ops cs e) = map_option fst (run_cmds spec_kv cs m)"
proof (induction cs arbitrary: now e m)
  case (Cons tc cs)
  obtain t c where tc: "tc = (t, c)" by (cases tc)
  with Cons.prems have ord: "now \<le> t" "time_ordered t cs" by simp_all
  have sim: "simulates t e m" using Cons.prems(1) ord(1) by (auto simp: simulates_def intro: live_eq_later)
  show ?case
  proof (cases "run_cmd spec_kv t c m")
    case None
    with run_cmd_simulates [OF sim, of c] tc show ?thesis by simp
  next
    case (Some am)
    then obtain a m1 where am: "run_cmd spec_kv t c m = Some (a, m1)" by (cases am) auto
    with run_cmd_simulates [OF sim, of c] obtain e1 where
      e1: "run_cmd ops t c e = Some (a, e1)" "simulates t e1 m1" by auto
    from Cons.IH [OF e1(2) ord(2)] am e1(1) tc show ?thesis
      by (cases "run_cmds ops cs e1"; cases "run_cmds spec_kv cs m1") auto
  qed
qed simp

end

section \<open>The in-memory engine implements the interface\<close>

definition unbounded_inv :: "memory_engine \<Rightarrow> bool" where
  "unbounded_inv e \<longleftrightarrow> engine_inv e \<and> e_max_bytes e = - 1"

lemma same_config_unbounded:
  "same_config e e' \<Longrightarrow> engine_inv e' \<Longrightarrow> unbounded_inv e \<Longrightarrow> unbounded_inv e'"
  by (simp add: same_config_def unbounded_inv_def)

lemma memory_kv_simps [simp]:
  "op_get memory_kv = kv_get" "op_set memory_kv = kv_set" "op_delete memory_kv = kv_delete"
  "op_expire memory_kv = kv_expire" "op_ttl memory_kv = kv_ttl"
  by (simp_all add: memory_kv_def)

lemma ttl_status_case:
  "(case x of None \<Rightarrow> Missing | Some (v, None) \<Rightarrow> NoExpiry | Some (v, Some t) \<Rightarrow> ExpiresIn (t - now)) =
    ttl_status now x"
  by (simp add: ttl_status_def)

lemmas engine_laws = kv_get_law kv_set_law kv_delete_law kv_expire_missing kv_expire_live
  kv_ttl_law [unfolded ttl_status_case]

interpretation memory: kv_store memory_kv engine_inv view
  by unfold_locales (simp_all only: memory_kv_simps, (blast dest: engine_laws kv_expire_panic)+)

interpretation memory_unbounded: kv_store_lossless memory_kv unbounded_inv view
proof unfold_locales
  fix e now k and v :: bytes and d :: "instant option" and dur t
  assume u: "unbounded_inv e"
  then have inv: "engine_inv e" by (simp add: unbounded_inv_def)
  note keep = same_config_unbounded [OF _ _ u]
  show "\<exists>e'. op_get memory_kv e now k = Some (Inr (map_option fst (live_at now (view e) k)), e') \<and>
      unbounded_inv e' \<and> live_eq now (view e') (view e)"
    using kv_get_law [OF inv] keep by (simp only: memory_kv_simps) blast
  show "\<exists>e'. op_set memory_kv e now k v = Some (Inr (), e') \<and> unbounded_inv e' \<and>
      view e' \<subseteq>\<^sub>m (view e)(k \<mapsto> (v, None))"
    using kv_set_law [OF inv] keep by (simp only: memory_kv_simps) blast
  show "view e' = (view e)(k \<mapsto> (v, None))"
    if "op_set memory_kv e now k v = Some (r, e')" for r e'
    using kv_set_law [OF inv, of now k v] u that by (auto simp: unbounded_inv_def)
  show "\<exists>e'. op_delete memory_kv e now k = Some (Inr (live_at now (view e) k \<noteq> None), e') \<and>
      unbounded_inv e' \<and> view e' = (view e)(k := None)"
    using kv_delete_law [OF inv] keep by (simp only: memory_kv_simps) blast
  show "\<exists>e'. op_ttl memory_kv e now k = Some (Inr (ttl_status now (live_at now (view e) k)), e') \<and>
      unbounded_inv e' \<and> live_eq now (view e') (view e)"
    using engine_laws(6) [OF inv] keep by (simp only: memory_kv_simps) blast
  show "\<exists>e'. op_expire memory_kv e now k dur = Some (Inl NotFound, e') \<and> unbounded_inv e' \<and>
      live_eq now (view e') (view e)" if "live_at now (view e) k = None"
    using kv_expire_missing [OF inv that] keep by (simp only: memory_kv_simps) blast
  show "\<exists>e'. op_expire memory_kv e now k dur = Some (Inr (), e') \<and> unbounded_inv e' \<and>
      view e' = (view e)(k \<mapsto> (v, Some t))"
    if "live_at now (view e) k = Some (v, d)" "instant_add now dur = Some t"
    using kv_expire_live [OF inv that] keep by (simp only: memory_kv_simps) blast
  show "op_expire memory_kv e now k dur = None"
    if "live_at now (view e) k = Some (v, d)" "instant_add now dur = None"
    using kv_expire_panic [OF inv that] by simp
qed

end
