(* ===== verification/Server_Programs.thy ===== *)
theory Server_Programs
  imports Server_Laws KV_Trait
begin

text \<open>
  The command handlers of the server (\<^verbatim>\<open>hkv-server/src/server.rs\<close>) as programs that stop at every call of the
  engine. A program is its final reply, the reply to \<^verbatim>\<open>INFO\<close>, or a call of the trait and what to do
  with its answer. Run without interruption, the program of a request is \<open>dispatch_command\<close>; the
  process runs the programs of its connections interleaved.
\<close>

datatype prog = Done bytes | Info_Reply | Call kv_cmd "kv_answer \<Rightarrow> prog"

abbreviation engine_error :: prog where
  "engine_error \<equiv> Done (resp_error (ascii ''engine error''))"

section \<open>The programs of the handlers\<close>

definition get_prog :: "bytes list \<Rightarrow> prog" where
  "get_prog args =
     (if length args \<noteq> 2 then Done (resp_error (ascii ''wrong number of arguments for GET''))
      else Call (Cmd_Get (args ! 1)) (\<lambda>a. case a of
          Ans_Value (Inr (Some value)) \<Rightarrow> Done (resp_bulk value)
        | Ans_Value (Inr None) \<Rightarrow> Done resp_null
        | _ \<Rightarrow> engine_error))"

definition ok_prog :: "kv_answer \<Rightarrow> prog" where
  "ok_prog a = (case a of Ans_Unit (Inr _) \<Rightarrow> Done (resp_simple (ascii ''OK'')) | _ \<Rightarrow> engine_error)"

definition set_prog :: "bytes list \<Rightarrow> prog" where
  "set_prog args =
     (if length args < 3 then Done (resp_error (ascii ''wrong number of arguments for SET''))
      else let key = args ! 1; value = args ! 2 in
        if length args = 3 then Call (Cmd_Set key value) ok_prog
        else if length args = 5 \<and> eq_ignore_ascii_case (args ! 3) (ascii ''EX'') then
          (case parse_u64 (args ! 4) of
             Inl resp \<Rightarrow> Done resp
           | Inr seconds \<Rightarrow> Call (Cmd_Set key value) (\<lambda>a. case a of
                 Ans_Unit (Inr _) \<Rightarrow> Call (Cmd_Expire (args ! 1) (from_secs seconds)) ok_prog
               | _ \<Rightarrow> engine_error))
        else Done (resp_error (ascii ''unsupported SET options'')))"

fun del_prog :: "bytes list \<Rightarrow> int \<Rightarrow> prog" where
  "del_prog [] removed = Done (resp_integer removed)"
| "del_prog (key # keys) removed = Call (Cmd_Delete key) (\<lambda>a. case a of
       Ans_Bool (Inr True) \<Rightarrow> del_prog keys (removed + 1)
     | Ans_Bool (Inr False) \<Rightarrow> del_prog keys removed
     | _ \<Rightarrow> engine_error)"

definition expire_prog :: "bytes list \<Rightarrow> prog" where
  "expire_prog args =
     (if length args \<noteq> 3 then Done (resp_error (ascii ''wrong number of arguments for EXPIRE''))
      else case parse_u64 (args ! 2) of
        Inl resp \<Rightarrow> Done resp
      | Inr seconds \<Rightarrow> Call (Cmd_Expire (args ! 1) (from_secs seconds)) (\<lambda>a. case a of
            Ans_Unit (Inr _) \<Rightarrow> Done (resp_integer 1)
          | Ans_Unit (Inl NotFound) \<Rightarrow> Done (resp_integer 0)
          | _ \<Rightarrow> engine_error))"

definition ttl_prog :: "bytes list \<Rightarrow> prog" where
  "ttl_prog args =
     (if length args \<noteq> 2 then Done (resp_error (ascii ''wrong number of arguments for TTL''))
      else Call (Cmd_Ttl (args ! 1)) (\<lambda>a. case a of
          Ans_Ttl (Inr Missing) \<Rightarrow> Done (resp_integer (- 2))
        | Ans_Ttl (Inr NoExpiry) \<Rightarrow> Done (resp_integer (- 1))
        | Ans_Ttl (Inr (ExpiresIn remaining)) \<Rightarrow> Done (resp_integer (sint (as_secs remaining)))
        | _ \<Rightarrow> engine_error))"

definition command_prog :: "bytes list \<Rightarrow> prog" where
  "command_prog args =
     (if args = [] then Done (resp_error (ascii ''empty command''))
      else let cmd = args ! 0 in
        if eq_ignore_ascii_case cmd (ascii ''PING'') then Done (handle_ping args)
        else if eq_ignore_ascii_case cmd (ascii ''GET'') then get_prog args
        else if eq_ignore_ascii_case cmd (ascii ''SET'') then set_prog args
        else if eq_ignore_ascii_case cmd (ascii ''DEL'') then
          (if length args < 2 then Done (resp_error (ascii ''wrong number of arguments for DEL''))
           else del_prog (tl args) 0)
        else if eq_ignore_ascii_case cmd (ascii ''EXPIRE'') then expire_prog args
        else if eq_ignore_ascii_case cmd (ascii ''TTL'') then ttl_prog args
        else if eq_ignore_ascii_case cmd (ascii ''INFO'') then Info_Reply
        else Done (resp_error (ascii ''unknown command'')))"

section \<open>Uninterrupted runs\<close>

primrec run_prog :: "metrics \<Rightarrow> prog \<Rightarrow> (nat \<Rightarrow> instant) \<Rightarrow> memory_engine \<Rightarrow> handler_result" where
  "run_prog m (Done response) = (\<lambda>clk e. Some (response, e))"
| "run_prog m Info_Reply = (\<lambda>clk e. Some (handle_info m (clk 0), e))"
| "run_prog m (Call c k) = (\<lambda>clk e. do {
     (a, e) \<leftarrow> run_cmd memory_kv (clk 0) c e;
     run_prog m (k a) (\<lambda>i. clk (Suc i)) e
   })"

lemma bind_map_prod:
  "Option.bind (map_option (map_prod f id) x) g = Option.bind x (\<lambda>(r, e). g (f r, e))"
  by (cases x) auto

lemma get_prog_run: "run_prog m (get_prog args) clk e = handle_get args clk e"
  by (auto simp: get_prog_def handle_get_def bind_map_prod intro!: Option.bind_cong split: sum.splits option.splits)

lemma ok_prog_run:
  "run_prog m (ok_prog (Ans_Unit r)) clk e =
    Some (case r of Inr _ \<Rightarrow> resp_simple (ascii ''OK'') | Inl _ \<Rightarrow> resp_error (ascii ''engine error''), e)"
  by (simp add: ok_prog_def split: sum.splits)

lemma set_prog_run: "run_prog m (set_prog args) clk e = handle_set args clk e"
  by (auto simp: set_prog_def handle_set_def bind_map_prod ok_prog_run Let_def intro!: Option.bind_cong
      split: sum.splits option.splits)

lemma del_prog_run:
  "run_prog m (del_prog ks removed) clk e =
    map_option (map_prod (\<lambda>r. case r of Inl resp \<Rightarrow> resp | Inr n \<Rightarrow> resp_integer n) id) (del_keys ks clk removed e)"
proof (induction ks arbitrary: removed clk e)
  case (Cons k ks)
  show ?case
    by (cases "kv_delete e (clk 0) k")
      (auto simp: bind_map_prod Cons.IH split: sum.splits bool.splits)
qed simp

lemma expire_prog_run: "run_prog m (expire_prog args) clk e = handle_expire args clk e"
  by (auto simp: expire_prog_def handle_expire_def bind_map_prod intro!: Option.bind_cong
      split: sum.splits option.splits HkvError.splits)

lemma ttl_prog_run: "run_prog m (ttl_prog args) clk e = handle_ttl args clk e"
  by (auto simp: ttl_prog_def handle_ttl_def bind_map_prod intro!: Option.bind_cong
      split: sum.splits TtlStatus.splits)

lemma handle_del_run:
  "handle_del args clk e =
    (if length args < 2 then Some (resp_error (ascii ''wrong number of arguments for DEL''), e)
     else run_prog m (del_prog (tl args) 0) clk e)"
  by (cases "del_keys (tl args) clk 0 e") (auto simp: handle_del_def del_prog_run)

lemma command_prog_run: "run_prog m (command_prog args) clk e = dispatch_command args clk e m"
  by (simp add: command_prog_def dispatch_command_def get_prog_run set_prog_run expire_prog_run ttl_prog_run
      handle_del_run [of args clk e m] Let_def)

end
