(* ===== verification/Engine_Concurrency.thy ===== *)
theory Engine_Concurrency
  imports KV_Trait
begin

text \<open>
  Threads that share one engine (\<^verbatim>\<open>hkv-engine/src/memory.rs\<close>). A thread runs an operation of the trait,
  evicts after a \<^verbatim>\<open>set\<close>, or sweeps; between two of its steps any other thread may run. The steps are
  the places where the sources touch shared state: what runs under one acquisition of a shard's lock,
  and each access to the atomics \<^verbatim>\<open>used_bytes\<close> and \<^verbatim>\<open>eviction_cursor\<close> outside the locks. A section under
  a lock only adds to and subtracts from the counter and is one step; the values the counter takes
  between two such updates of one section are not observed by the other threads of the model.

  The counter is exact up to the entries an evicting thread has unlinked and not yet subtracted; no
  thread ever panics; and every operation acts on the stored entries, at its section, as the
  corresponding operation of a map with deadlines does.
\<close>

unbundle bit_operations_syntax

section \<open>The section of each operation\<close>

fun cmd_key :: "kv_cmd \<Rightarrow> bytes" where
  "cmd_key (Cmd_Get k) = k"
| "cmd_key (Cmd_Set k v) = k"
| "cmd_key (Cmd_Delete k) = k"
| "cmd_key (Cmd_Expire k d) = k"
| "cmd_key (Cmd_Ttl k) = k"

definition answer_as :: "('r \<Rightarrow> kv_answer) \<Rightarrow> 'r locked \<Rightarrow> kv_answer locked" where
  "answer_as f sec inner used = map_option (map_prod f id) (sec inner used)"

fun op_section :: "instant \<Rightarrow> kv_cmd \<Rightarrow> kv_answer locked" where
  "op_section now (Cmd_Get k) = answer_as Ans_Value (get_section now k)"
| "op_section now (Cmd_Set k v) = answer_as (\<lambda>_. Ans_Unit (Inr ())) (set_section now k v)"
| "op_section now (Cmd_Delete k) = answer_as Ans_Bool (delete_section now k)"
| "op_section now (Cmd_Expire k d) = answer_as Ans_Unit (expire_section now k d)"
| "op_section now (Cmd_Ttl k) = answer_as Ans_Ttl (ttl_section now k)"

section \<open>Threads\<close>

text \<open>
  Where a thread stands: between two calls; in the loop of \<^verbatim>\<open>evict_if_needed\<close>, about to load the counter,
  to advance the cursor, to try the shard at an offset from \<open>start\<close>, or to subtract the size of an entry
  it has evicted; or in \<^verbatim>\<open>purge_expired\<close>, about to lock the shard with the given index.
\<close>

datatype task =
  Idle | Evict_Load | Evict_Cursor | Evict_Scan usize nat | Evict_Sub usize | Purging instant nat usize

definition after_cmd :: "memory_engine \<Rightarrow> kv_cmd \<Rightarrow> task" where
  "after_cmd e c = (case c of Cmd_Set k v \<Rightarrow> if e_max_bytes e = - 1 then Idle else Evict_Load | _ \<Rightarrow> Idle)"

text \<open>A step of an operation is labelled with the instant it read, the operation and its answer.\<close>

type_synonym event = "(instant \<times> kv_cmd \<times> kv_answer) option"

inductive thread_step :: "event \<Rightarrow> task \<times> memory_engine \<Rightarrow> task \<times> memory_engine \<Rightarrow> bool" where
  op: "under_lock e (cmd_key c) (op_section now c) = Some (a, e') \<Longrightarrow>
    thread_step (Some (now, c, a)) (Idle, e) (after_cmd e c, e')"
| load_stop: "e_used_bytes e \<le> e_max_bytes e \<Longrightarrow> thread_step None (Evict_Load, e) (Idle, e)"
| load_go: "e_max_bytes e < e_used_bytes e \<Longrightarrow> thread_step None (Evict_Load, e) (Evict_Cursor, e)"
| cursor: "thread_step None (Evict_Cursor, e)
    (Evict_Scan (e_eviction_cursor e) 0, e\<lparr>e_eviction_cursor := e_eviction_cursor e + 1\<rparr>)"
| scan_hit: "offset < length (e_shards e) \<Longrightarrow>
    evict_one_from_shard e ((start + of_nat offset) AND e_shard_mask e) = Some (Some sz, e') \<Longrightarrow>
    thread_step None (Evict_Scan start offset, e) (Evict_Sub sz, e')"
| scan_miss: "offset < length (e_shards e) \<Longrightarrow>
    evict_one_from_shard e ((start + of_nat offset) AND e_shard_mask e) = Some (None, e') \<Longrightarrow>
    thread_step None (Evict_Scan start offset, e) (Evict_Scan start (offset + 1), e')"
| scan_end: "length (e_shards e) \<le> offset \<Longrightarrow> thread_step None (Evict_Scan start offset, e) (Idle, e)"
| sub: "thread_step None (Evict_Sub sz, e) (Evict_Load, e\<lparr>e_used_bytes := e_used_bytes e - sz\<rparr>)"
| purge_start: "thread_step None (Idle, e) (Purging now 0 0, e)"
| purge_shard: "i < length (e_shards e) \<Longrightarrow> visits_values vals \<Longrightarrow>
    purge_section vals now removed (e_shards e ! i) (e_used_bytes e) = Some (removed', inner, used) \<Longrightarrow>
    thread_step None (Purging now i removed, e)
      (Purging now (i + 1) removed', e\<lparr>e_shards := (e_shards e)[i := inner], e_used_bytes := used\<rparr>)"
| purge_end: "length (e_shards e) \<le> i \<Longrightarrow> thread_step None (Purging now i removed, e) (Idle, e)"

text \<open>The threads take turns in any order.\<close>

inductive conc_step :: "event \<Rightarrow> task list \<times> memory_engine \<Rightarrow> task list \<times> memory_engine \<Rightarrow> bool" where
  "i < length ts \<Longrightarrow> thread_step ev (ts ! i, e) (u, e') \<Longrightarrow> conc_step ev (ts, e) (ts[i := u], e')"

lemma conc_stepI:
  "thread_step ev (t, e) (u, e') \<Longrightarrow> i < length ts \<Longrightarrow> ts ! i = t \<Longrightarrow> ts' = ts[i := u] \<Longrightarrow>
    conc_step ev (ts, e) (ts', e')"
  by (auto intro: conc_step.intros)

fun pending_bytes :: "task \<Rightarrow> usize" where
  "pending_bytes (Evict_Sub sz) = sz"
| "pending_bytes _ = 0"

fun settled_engine :: "task list \<times> memory_engine \<Rightarrow> memory_engine" where
  "settled_engine (ts, e) = e\<lparr>e_used_bytes := e_used_bytes e - sum_list (map pending_bytes ts)\<rparr>"

definition conc_inv :: "task list \<times> memory_engine \<Rightarrow> bool" where
  "conc_inv s \<longleftrightarrow> engine_inv (settled_engine s)"

definition conc_init :: "task list \<times> memory_engine \<Rightarrow> bool" where
  "conc_init s \<longleftrightarrow> engine_inv (snd s) \<and> (\<forall>t\<in>set (fst s). t = Idle)"

section \<open>Sections and the offset of the counter\<close>

lemma view_used [simp]: "view (e\<lparr>e_used_bytes := u\<rparr>) = view e"
  by (simp add: view_def abs_shards_def key_slot_def shard_index_def fun_eq_iff)

lemma view_cursor [simp]: "view (e\<lparr>e_eviction_cursor := c\<rparr>) = view e"
  by (simp add: view_def abs_shards_def key_slot_def shard_index_def fun_eq_iff)

lemma used_again [simp]: "e\<lparr>e_used_bytes := u, e_used_bytes := w\<rparr> = e\<lparr>e_used_bytes := w\<rparr>"
  by simp

text \<open>A section does the same whatever the counter holds, and shifts the counter by the same amount.\<close>

abbreviation settle :: "usize \<Rightarrow> memory_engine \<Rightarrow> memory_engine" where
  "settle p e \<equiv> e\<lparr>e_used_bytes := e_used_bytes e - p\<rparr>"

lemma abs_shards_used [simp]: "abs_shards (e\<lparr>e_used_bytes := u\<rparr>) = abs_shards e" "key_slot (e\<lparr>e_used_bytes := u\<rparr>) = key_slot e"
  by (simp_all add: abs_shards_def key_slot_def shard_index_def fun_eq_iff)

lemma section_at:
  assumes inv: "engine_inv (settle p e)" and i: "i < length (e_shards e)" and ref: "refines_section sec f"
    and run: "sec (e_shards e ! i) (e_used_bytes e) = Some (r, inner, used)"
    and keys: "\<And>r es. f (abs_shards e ! i) = Some (r, es) \<Longrightarrow> \<forall>k\<in>fst ` set es. key_slot e k = i"
  defines "e' \<equiv> e\<lparr>e_shards := (e_shards e)[i := inner], e_used_bytes := used\<rparr>"
  shows "\<exists>es. f (abs_shards e ! i) = Some (r, es) \<and> engine_inv (settle p e') \<and> same_config e e' \<and>
    abs_shards e' = (abs_shards e)[i := es]"
proof -
  have s: "shard_inv (e_shards e ! i)" using engine_shard_inv [OF inv, of i] i by simp
  obtain r0 es where f: "f (shard_abs (e_shards e ! i)) = Some (r0, es)"
    using refines_section_None [OF ref s] run by (cases "f (shard_abs (e_shards e ! i))") auto
  from refines_sectionD [OF ref s f, of "e_used_bytes e"] run
  have t: "r0 = r" "used = e_used_bytes e + total_bytes es - total_bytes (shard_abs (e_shards e ! i))"
    "shard_inv inner" "shard_abs inner = es" by auto
  have "\<And>k. k \<in> fst ` set (shard_abs inner) \<Longrightarrow> key_slot (settle p e) k = i"
    using keys [of r0 es] f i t(4) by auto
  moreover have "used - p = e_used_bytes (settle p e) + total_bytes (shard_abs inner) - total_bytes (abs_shards (settle p e) ! i)"
    using t(2,4) i by simp
  ultimately
  have "engine_inv (settle p e')" "same_config (settle p e) (settle p e')" "abs_shards (settle p e') = (abs_shards e)[i := es]"
    using engine_inv_update [OF inv _ t(3), of i "used - p"] i t(4) by (simp_all add: e'_def)
  with f i t(1) show ?thesis by (auto simp: same_config_def)
qed

lemma under_lock_settled:
  assumes inv: "engine_inv (settle p e)" and ref: "refines_section sec f" and loc: "local_op k f"
  shows "case under_lock (settle p e) k sec of
      None \<Rightarrow> under_lock e k sec = None
    | Some (r, g) \<Rightarrow> \<exists>e'. under_lock e k sec = Some (r, e') \<and> engine_inv (settle p e') \<and> same_config e e' \<and> view e' = view g"
proof -
  let ?i = "key_slot e k"
  have i: "?i < length (e_shards e)" using key_slot_bound [OF inv, of k] by simp
  have s: "shard_inv (e_shards e ! ?i)" using engine_shard_inv [OF inv, of ?i] i by simp
  have lock: "under_lock e k sec = map_option (\<lambda>(r, t, w). (r, e\<lparr>e_shards := (e_shards e)[?i := t], e_used_bytes := w\<rparr>))
      (sec (e_shards e ! ?i) (e_used_bytes e))"
    using i by (cases "sec (e_shards e ! ?i) (e_used_bytes e)")
      (auto simp: under_lock_def shard_for_def key_slot_def split: prod.splits)
  show ?thesis
  proof (cases "f (abs_shards e ! ?i)")
    case None
    then have "under_lock (settle p e) k sec = None" using under_lock_None [OF inv ref, of k] by simp
    with None i show ?thesis by (simp add: lock refines_section_None [OF ref s])
  next
    case (Some re)
    obtain r es where re: "re = (r, es)" by (cases re)
    obtain g where g: "under_lock (settle p e) k sec = Some (r, g)" "view g = (view e)(k := map_of es k)"
      using under_lock_refines [OF inv ref loc, of r es] Some re by auto
    obtain t where t: "sec (e_shards e ! ?i) (e_used_bytes e) =
        Some (r, t, e_used_bytes e + total_bytes es - total_bytes (shard_abs (e_shards e ! ?i)))"
      using refines_sectionD [OF ref s, of r es "e_used_bytes e"] Some re i by auto
    define e' where "e' = e\<lparr>e_shards := (e_shards e)[?i := t],
      e_used_bytes := e_used_bytes e + total_bytes es - total_bytes (shard_abs (e_shards e ! ?i))\<rparr>"
    have dist: "distinct (map fst (abs_shards e ! ?i))" using abs_shards_distinct [OF inv, of ?i] i by simp
    have keys: "\<forall>q\<in>fst ` set es'. key_slot e q = ?i" if "f (abs_shards e ! ?i) = Some (r', es')" for r' es'
    proof
      fix q assume "q \<in> fst ` set es'"
      then have "q = k \<or> q \<in> fst ` set (abs_shards e ! ?i)" using loc dist that unfolding local_op_def by blast
      then show "key_slot e q = ?i" using engine_inv_route [OF inv, of ?i q] i by auto
    qed
    from section_at [OF inv i ref t keys, folded e'_def] Some re
    have e': "engine_inv (settle p e')" "same_config e e'" "abs_shards e' = (abs_shards e)[?i := es]" by auto
    have "map_of es q = map_of (abs_shards e ! ?i) q" if "q \<noteq> k" for q
      using loc dist that Some re unfolding local_op_def by blast
    then have "view e' q = view g q" for q
      using g(2) i by (cases "key_slot e q = ?i") (auto simp: view_def e'(3) same_config_slot [OF e'(2)])
    then show ?thesis using g(1) lock t e'(1,2) by (auto simp: e'_def [symmetric])
  qed
qed

lemma under_lock_answer_as:
  "under_lock e k (answer_as f sec) = map_option (map_prod f id) (under_lock e k sec)"
  by (cases "shard_for e k") (auto simp: under_lock_def answer_as_def map_prod_def bind_map_option
      split: prod.splits Option.bind_split)

text \<open>The abstract operation of a command's section.\<close>

fun abs_op :: "instant \<Rightarrow> kv_cmd \<Rightarrow> kv_answer entries_op" where
  "abs_op now (Cmd_Get k) es = map_option (map_prod Ans_Value id) (abs_get now k es)"
| "abs_op now (Cmd_Set k v) es = map_option (map_prod (\<lambda>_. Ans_Unit (Inr ())) id) (abs_set k v es)"
| "abs_op now (Cmd_Delete k) es = map_option (map_prod Ans_Bool id) (abs_delete now k es)"
| "abs_op now (Cmd_Expire k d) es = map_option (map_prod Ans_Unit id) (abs_expire now k d es)"
| "abs_op now (Cmd_Ttl k) es = map_option (map_prod Ans_Ttl id) (abs_ttl now k es)"

lemma answer_as_refines:
  assumes "refines_section sec f"
  shows "refines_section (answer_as g sec) (\<lambda>es. map_option (map_prod g id) (f es))"
proof (rule refines_sectionI)
  fix s :: shard_inner and used
  assume "shard_inv s" "map_option (map_prod g id) (f (shard_abs s)) = None"
  then show "answer_as g sec s used = None" using refines_section_None [OF assms] by (simp add: answer_as_def)
next
  fix s :: shard_inner and used r es
  assume s: "shard_inv s" and f: "map_option (map_prod g id) (f (shard_abs s)) = Some (r, es)"
  then obtain r0 where r0: "f (shard_abs s) = Some (r0, es)" "r = g r0" by auto
  obtain t where "sec s used = Some (r0, t, used + total_bytes es - total_bytes (shard_abs s))"
    "shard_inv t" "shard_abs t = es" by (rule refines_sectionD [OF assms s r0(1)])
  with r0(2) show "\<exists>t. answer_as g sec s used = Some (r, t, used + total_bytes es - total_bytes (shard_abs s)) \<and>
      shard_inv t \<and> shard_abs t = es"
    by (auto simp: answer_as_def)
qed

lemma op_section_refines: "refines_section (op_section now c) (abs_op now c)"
  by (cases c) (simp_all add: answer_as_refines get_section_refines set_section_refines
      delete_section_refines expire_section_refines ttl_section_refines abs_op.simps [abs_def])

lemma local_answer: "local_op k f \<Longrightarrow> local_op k (\<lambda>es. map_option (map_prod g id) (f es))"
  unfolding local_op_def
proof (intro allI impI)
  fix es :: "entry list" and r es'
  assume loc: "\<forall>es r es'. distinct (map fst es) \<longrightarrow> f es = Some (r, es') \<longrightarrow>
      fst ` set es' \<subseteq> insert k (fst ` set es) \<and> (\<forall>q. q \<noteq> k \<longrightarrow> map_of es' q = map_of es q)"
    and d: "distinct (map fst es)" and "map_option (map_prod g id) (f es) = Some (r, es')"
  then obtain r0 where "f es = Some (r0, es')" by auto
  with loc d show "fst ` set es' \<subseteq> insert k (fst ` set es) \<and> (\<forall>q. q \<noteq> k \<longrightarrow> map_of es' q = map_of es q)"
    by blast
qed

lemma abs_op_local: "local_op (cmd_key c) (abs_op now c)"
  by (cases c) (simp_all add: local_answer local_expire abs_op.simps [abs_def])

section \<open>An operation acts as on a map with deadlines\<close>

definition acts_as :: "instant \<Rightarrow> kv_cmd \<Rightarrow> kv_answer \<Rightarrow> kv_view \<Rightarrow> kv_view \<Rightarrow> bool" where
  "acts_as now c a m n \<longleftrightarrow>
     (\<exists>m'. run_cmd spec_kv now c m = Some (a, m') \<and> n \<subseteq>\<^sub>m m' \<and> live_eq now n m')"

lemma op_law:
  assumes "engine_inv e"
  shows "case run_cmd spec_kv now c (view e) of
      None \<Rightarrow> under_lock e (cmd_key c) (op_section now c) = None
    | Some (a, m') \<Rightarrow> \<exists>e'. under_lock e (cmd_key c) (op_section now c) = Some (a, e') \<and>
        view e' \<subseteq>\<^sub>m m' \<and> live_eq now (view e') m'"
proof (cases c)
  case (Cmd_Get k)
  then show ?thesis using kv_get_law [OF assms, of now k]
    by (auto simp: kv_get_def under_lock_answer_as spec_kv_def)
next
  case (Cmd_Set k v)
  then show ?thesis using set_stored [OF assms, of k now v] by (auto simp: under_lock_answer_as spec_kv_def)
next
  case (Cmd_Delete k)
  then show ?thesis using kv_delete_law [OF assms, of now k]
    by (auto simp: kv_delete_def under_lock_answer_as spec_kv_def)
next
  case (Cmd_Ttl k)
  then show ?thesis using engine_laws(6) [OF assms, of now k]
    by (auto simp: kv_ttl_def under_lock_answer_as spec_kv_def)
next
  case (Cmd_Expire k d)
  note simps = Cmd_Expire kv_expire_def under_lock_answer_as spec_kv_def
  show ?thesis
  proof (cases "live_at now (view e) k")
    case None
    then show ?thesis using kv_expire_missing [OF assms None, of d] by (auto simp: simps)
  next
    case (Some x)
    obtain v t where x: "x = (v, t)" by (cases x)
    show ?thesis
      using kv_expire_live [OF assms Some [unfolded x], of d] kv_expire_panic [OF assms Some [unfolded x], of d]
        Some x by (cases "instant_add now d") (auto simp: simps)
  qed
qed

lemma op_settled:
  assumes "engine_inv (settle p e)"
  shows "case run_cmd spec_kv now c (view e) of
      None \<Rightarrow> under_lock e (cmd_key c) (op_section now c) = None
    | Some (a, m') \<Rightarrow> \<exists>e'. under_lock e (cmd_key c) (op_section now c) = Some (a, e') \<and>
        engine_inv (settle p e') \<and> same_config e e' \<and> acts_as now c a (view e) (view e')"
  using op_law [OF assms, of c now] under_lock_settled [OF assms op_section_refines [of now c] abs_op_local]
  by (auto simp: acts_as_def split: option.splits)

section \<open>The other steps\<close>

lemma evict_one_used:
  "evict_one_from_shard (e\<lparr>e_used_bytes := u\<rparr>) idx =
    map_option (\<lambda>(r, e'). (r, e'\<lparr>e_used_bytes := u\<rparr>)) (evict_one_from_shard e idx)"
  by (cases "index_at (e_shards e) (unat idx)")
    (auto simp: evict_one_from_shard_def map_option_case split: Option.bind_split)

lemma evict_one_keeps_used: "evict_one_from_shard e idx = Some (r, e') \<Longrightarrow> e_used_bytes e' = e_used_bytes e"
  by (auto simp: evict_one_from_shard_def bind_eq_Some_conv)

text \<open>
  Every step keeps the shards well formed and the counter exact up to the pending subtractions, the
  thread's own and those of the other threads (\<open>q\<close>).
\<close>

definition event_ok :: "event \<Rightarrow> kv_view \<Rightarrow> kv_view \<Rightarrow> bool" where
  "event_ok ev m n = (case ev of None \<Rightarrow> n \<subseteq>\<^sub>m m | Some (now, c, a) \<Rightarrow> acts_as now c a m n)"

lemma scan_hit_settled:
  assumes inv: "engine_inv (settle q e)"
    and run: "evict_one_from_shard e (w AND e_shard_mask e) = Some (Some sz, e')"
  shows "engine_inv (settle (sz + q) e') \<and> same_config e e' \<and> view e' \<subseteq>\<^sub>m view e"
proof -
  let ?idx = "w AND e_shard_mask e"
  have i: "unat ?idx < length (e_shards (settle q e))" using masked_bound [OF inv, of w] by simp
  have run': "evict_one_from_shard (settle q e) ?idx = Some (Some sz, e'\<lparr>e_used_bytes := e_used_bytes e - q\<rparr>)"
    by (simp add: evict_one_used run)
  have "drops_oldest (settle q e) (e'\<lparr>e_used_bytes := e_used_bytes e - q - sz\<rparr>)"
    using evict_one_refines [OF inv i] run' by (auto split: list.splits)
  then have t: "trimmed (settle q e) (e'\<lparr>e_used_bytes := e_used_bytes e - q - sz\<rparr>)" by (simp add: drops_oldest_def)
  have "e_used_bytes e - q - sz = e_used_bytes e' - (sz + q)"
    using evict_one_keeps_used [OF run] by (simp add: algebra_simps)
  with t trimmed_view [OF inv t] show ?thesis by (simp add: trimmed_def same_config_def)
qed

lemma live_part:
  assumes "\<And>k. n k = m k \<or> n k = live_at now m k"
  shows "n \<subseteq>\<^sub>m m \<and> live_eq now n m"
proof
  show "n \<subseteq>\<^sub>m m"
  proof (rule map_leI)
    fix k d assume "n k = Some d"
    then show "m k = Some d" using assms [of k] by (auto simp: live_at_def split: option.splits if_splits)
  qed
  show "live_eq now n m"
    unfolding live_eq_def
  proof (intro allI impI ext)
    fix t k assume "now \<le> t"
    then show "live_at t n k = live_at t m k"
      using assms [of k] by (auto simp: live_at_def dest: expired_at_mono split: option.splits if_splits)
  qed
qed

lemma purge_shard_settled:
  assumes inv: "engine_inv (settle q e)" and i: "i < length (e_shards e)" and vals: "visits_values vals"
    and run: "purge_section vals now removed (e_shards e ! i) (e_used_bytes e) = Some (removed', inner, used)"
  defines "e' \<equiv> e\<lparr>e_shards := (e_shards e)[i := inner], e_used_bytes := used\<rparr>"
  shows "engine_inv (settle q e') \<and> same_config e e' \<and> view e' \<subseteq>\<^sub>m view e \<and> live_eq now (view e') (view e)"
proof -
  have keys: "\<forall>k\<in>fst ` set es. key_slot e k = i" if "abs_purge now removed (abs_shards e ! i) = Some (r, es)" for r es
    using that engine_inv_route [OF inv, of i] i by (fastforce simp: abs_purge_def live_entries_def)
  from section_at [OF inv i purge_section_refines [OF vals] run, folded e'_def] keys
  obtain es where e': "abs_purge now removed (abs_shards e ! i) = Some (removed', es)"
    "engine_inv (settle q e')" "same_config e e'" "abs_shards e' = (abs_shards e)[i := es]" by blast
  have dist: "distinct (map fst (abs_shards e ! i))" using abs_shards_distinct [OF inv, of i] i by simp
  have es: "es = live_entries now (abs_shards e ! i)" using e'(1) by (simp add: abs_purge_def live_entries_def)
  have "view e' k = (if key_slot e k = i then live_at now (view e) k else view e k)" for k
    using i map_of_live_entries [OF dist, of now k]
    by (simp add: view_def e'(4) same_config_slot [OF e'(3)] es live_at_def)
  then have "view e' k = view e k \<or> view e' k = live_at now (view e) k" for k by simp
  from live_part [OF this] e' show ?thesis by simp
qed

lemma thread_step_settled:
  assumes "thread_step ev (t, e) (u, e')" and "engine_inv (settle (pending_bytes t + q) e)"
  shows "engine_inv (settle (pending_bytes u + q) e') \<and> same_config e e' \<and> event_ok ev (view e) (view e')"
  using assms
proof (cases rule: thread_step.cases)
  case (op c now a)
  have "pending_bytes u = 0" using op by (cases c) (simp_all add: after_cmd_def)
  with op assms(2) op_settled [of e q c now] show ?thesis by (auto simp: event_ok_def split: option.splits)
next
  case (scan_hit offset start sz)
  with assms(2) scan_hit_settled [of e q "start + of_nat offset" sz e'] show ?thesis by (simp add: event_ok_def)
next
  case (scan_miss offset start)
  then have "e' = e" using evict_one_None_same by blast
  with scan_miss(1,2,3) assms(2) show ?thesis by (simp add: event_ok_def)
next
  case (purge_shard i vals now removed removed' inner used)
  with assms(2) purge_shard_settled [of e q i vals now removed removed' inner used] show ?thesis
    by (simp add: event_ok_def)
next
  case cursor
  have "settle q e' = (settle q e)\<lparr>e_eviction_cursor := e_eviction_cursor e + 1\<rparr>" using cursor(4) by simp
  then have "engine_inv (settle q e')" using trimmed_cursor(2) assms(2) cursor(2) by simp
  with cursor show ?thesis by (simp add: event_ok_def same_config_def)
qed (use assms(2) in \<open>auto simp: event_ok_def same_config_def algebra_simps\<close>)

section \<open>All threads together\<close>

lemma conc_step_inv:
  assumes "conc_step ev s s'" and "conc_inv s"
  shows "conc_inv s' \<and> same_config (snd s) (snd s') \<and> event_ok ev (view (snd s)) (view (snd s'))"
  using assms
proof cases
  case (1 i ts e u e')
  let ?q = "sum_list (map pending_bytes ts) - pending_bytes (ts ! i)"
  have "engine_inv (settle (pending_bytes (ts ! i) + ?q) e)" using assms(2) 1 by (simp add: conc_inv_def)
  from thread_step_settled [OF 1(4) this] 1 show ?thesis
    by (simp add: conc_inv_def sum_map_update)
qed

lemma conc_init_inv:
  assumes "conc_init s"
  shows "conc_inv s"
proof -
  have "\<forall>t\<in>set ts. t = Idle \<Longrightarrow> sum_list (map pending_bytes ts) = 0" for ts
    by (induction ts) simp_all
  then show ?thesis using assms by (cases s) (simp add: conc_init_def conc_inv_def)
qed

interpretation threads: invariant_system conc_init "\<lambda>s s'. \<exists>ev. conc_step ev s s'" conc_inv
proof
  show "conc_inv s" if "conc_init s" for s using that by (rule conc_init_inv)
  show "conc_inv s'" if "\<exists>ev. conc_step ev s s'" "conc_inv s" for s s' using that conc_step_inv by blast
qed

text \<open>When no subtraction is outstanding the engine is as after a sequence of calls.\<close>

lemma conc_quiescent: "conc_inv (ts, e) \<Longrightarrow> \<forall>t\<in>set ts. \<forall>sz. t \<noteq> Evict_Sub sz \<Longrightarrow> engine_inv e"
proof -
  assume "conc_inv (ts, e)" and q: "\<forall>t\<in>set ts. \<forall>sz. t \<noteq> Evict_Sub sz"
  have "pending_bytes t = 0" if "t \<in> set ts" for t using q that by (cases t) auto
  then have "sum_list (map pending_bytes ts) = 0" by (induction ts) simp_all
  with \<open>conc_inv (ts, e)\<close> show ?thesis by (simp add: conc_inv_def)
qed

text \<open>A thread in the middle of an eviction or a sweep can always go on.\<close>

lemma visits_exist: "\<exists>vals. visits_values vals"
proof -
  have "\<exists>xs. \<exists>ks. distinct ks \<and> set ks = dom m \<and> xs = map (\<lambda>k. the (m k)) ks" if "finite (dom m)"
    for m :: "bytes \<rightharpoonup> nat"
    using finite_distinct_list [OF that] by blast
  then have "\<forall>m :: bytes \<rightharpoonup> nat. \<exists>xs. finite (dom m) \<longrightarrow> (\<exists>ks. distinct ks \<and> set ks = dom m \<and> xs = map (\<lambda>k. the (m k)) ks)"
    by blast
  then show ?thesis unfolding visits_values_def by (rule choice)
qed

lemma thread_goes_on:
  assumes "engine_inv (settle q e)" and "t \<noteq> Idle"
  shows "\<exists>u e'. thread_step None (t, e) (u, e')"
proof (cases t)
  case (Evict_Scan start offset)
  show ?thesis
  proof (cases "offset < length (e_shards e)")
    case True
    let ?idx = "(start + of_nat offset) AND e_shard_mask e"
    have "unat ?idx < length (e_shards (settle q e))" using masked_bound [OF assms(1), of "start + of_nat offset"] by simp
    from evict_one_refines [OF assms(1) this] have "evict_one_from_shard (settle q e) ?idx \<noteq> None"
      by (auto split: list.splits)
    then obtain r e' where "evict_one_from_shard e ?idx = Some (r, e')" by (auto simp: evict_one_used)
    with True Evict_Scan show ?thesis by (cases r) (blast intro: scan_hit scan_miss)+
  next
    case False
    then show ?thesis using Evict_Scan thread_step.scan_end [of e offset start] by auto
  qed
next
  case (Purging now i removed)
  show ?thesis
  proof (cases "i < length (e_shards e)")
    case True
    obtain vals where vals: "visits_values vals" using visits_exist by blast
    have s: "shard_inv (e_shards e ! i)" using engine_shard_inv [OF assms(1), of i] True by simp
    obtain r es where "abs_purge now removed (shard_abs (e_shards e ! i)) = Some (r, es)" by (simp add: abs_purge_def)
    from refines_sectionD [OF purge_section_refines [OF vals] s this, of "e_used_bytes e"]
    obtain inner used where "purge_section vals now removed (e_shards e ! i) (e_used_bytes e) = Some (r, inner, used)"
      by blast
    from thread_step.purge_shard [OF True vals this] Purging show ?thesis by blast
  next
    case False
    then show ?thesis using Purging thread_step.purge_end [of e i now removed] by auto
  qed
next
  case Evict_Load
  then show ?thesis using load_stop [of e] load_go [of e] by (cases "e_used_bytes e \<le> e_max_bytes e") (auto simp: not_le)
next
  case Evict_Cursor
  then show ?thesis using thread_step.cursor by blast
next
  case (Evict_Sub sz)
  then show ?thesis using thread_step.sub by blast
qed (use assms(2) in simp)

section \<open>Executions\<close>

definition written :: "bytes \<Rightarrow> bytes \<Rightarrow> event list \<Rightarrow> bool" where
  "written k v evs \<longleftrightarrow> (\<exists>now a. Some (now, Cmd_Set k v, a) \<in> set evs)"

text \<open>Where an entry comes from: it was there before, or the step wrote it.\<close>

lemma event_ok_origin:
  assumes "event_ok ev m n" and "n k = Some (v, d)"
  shows "(\<exists>d'. m k = Some (v, d')) \<or> (\<exists>now a. ev = Some (now, Cmd_Set k v, a))"
proof (cases ev)
  case None
  with assms show ?thesis by (auto simp: event_ok_def map_le_iff)
next
  case (Some nca)
  obtain now c a where nca: "nca = (now, c, a)" by (cases nca)
  with Some assms obtain m' where m': "run_cmd spec_kv now c m = Some (a, m')" "m' k = Some (v, d)"
    by (auto simp: event_ok_def acts_as_def map_le_iff)
  show ?thesis
  proof (cases c)
    case (Cmd_Expire q dur)
    with m' show ?thesis
      by (auto simp: spec_kv_def live_at_def split: option.splits if_splits)
  next
    case (Cmd_Set q w)
    with m' Some nca show ?thesis by (auto simp: spec_kv_def split: if_splits)
  qed (use m' in \<open>auto simp: spec_kv_def split: if_splits\<close>)
qed

text \<open>
  The interface of a system whose steps act on a store: every labelled step is the operation of its
  label on a map with deadlines, and the other steps at most drop entries.
\<close>

locale kv_history =
  fixes step :: "event \<Rightarrow> 's \<Rightarrow> 's \<Rightarrow> bool"
    and inv :: "'s \<Rightarrow> bool"
    and entries :: "'s \<Rightarrow> kv_view"
  assumes step_ok: "step ev s s' \<Longrightarrow> inv s \<Longrightarrow> inv s' \<and> event_ok ev (entries s) (entries s')"
begin

lemma run_inv: "labelled_run step evs s s' \<Longrightarrow> inv s \<Longrightarrow> inv s'"
  by (induction rule: labelled_run.induct) (blast dest: step_ok)+

lemma run_origin:
  "labelled_run step evs s s' \<Longrightarrow> inv s \<Longrightarrow> entries s' k = Some (v, d) \<Longrightarrow>
    (\<exists>d'. entries s k = Some (v, d')) \<or> written k v evs"
proof (induction arbitrary: d rule: labelled_run.induct)
  case (run_snoc evs s s' ev s'')
  have "event_ok ev (entries s') (entries s'')"
    using step_ok [OF run_snoc.hyps(2) run_inv [OF run_snoc.hyps(1) run_snoc.prems(1)]] by simp
  from event_ok_origin [OF this run_snoc.prems(2)] run_snoc.IH [OF run_snoc.prems(1)] show ?case
    by (auto simp: written_def)
qed blast

lemma read_written:
  assumes run: "labelled_run step (xs @ Some (now, Cmd_Get k, Ans_Value (Inr (Some v))) # ys) s s'"
    and inv: "inv s" and empty: "entries s = Map.empty"
  shows "written k v xs"
proof -
  obtain s1 s2 where s1: "labelled_run step xs s s1" "step (Some (now, Cmd_Get k, Ans_Value (Inr (Some v)))) s1 s2"
    using labelled_run_split [OF run] by blast
  have "acts_as now (Cmd_Get k) (Ans_Value (Inr (Some v))) (entries s1) (entries s2)"
    using step_ok [OF s1(2) run_inv [OF s1(1) inv]] by (simp add: event_ok_def)
  then obtain d where "entries s1 k = Some (v, d)"
    by (auto simp: acts_as_def spec_kv_def live_at_def split: option.splits if_splits)
  from run_origin [OF s1(1) inv this] show ?thesis by (simp add: empty)
qed

end

interpretation threads_history: kv_history conc_step conc_inv "\<lambda>s. view (snd s)"
  by unfold_locales (blast dest: conc_step_inv)

section \<open>A thread alone\<close>

text \<open>
  Without other threads the steps of an eviction are the loop of \<open>evict_if_needed\<close>; the thread stops where
  it is idle again.
\<close>

abbreviation alone :: "task \<times> memory_engine \<Rightarrow> task \<times> memory_engine \<Rightarrow> bool" where
  "alone \<equiv> (\<lambda>s s'. fst s \<noteq> Idle \<and> thread_step None s s')\<^sup>*\<^sup>*"

lemma alone_step: "thread_step None (t, e) (u, f) \<Longrightarrow> t \<noteq> Idle \<Longrightarrow> alone (u, f) s \<Longrightarrow> alone (t, e) s"
  by (rule converse_rtranclp_into_rtranclp) simp_all

lemma scan_alone:
  "evict_scan start [offset..<length (e_shards e)] e = Some (b, e') \<Longrightarrow>
    alone (Evict_Scan start offset, e) (if b then Evict_Load else Idle, e')"
proof (induction "length (e_shards e) - offset" arbitrary: offset)
  case 0
  then show ?case using thread_step.scan_end [of e offset start] by auto
next
  case (Suc n)
  then have o: "offset < length (e_shards e)" by simp
  let ?idx = "(start + of_nat offset) AND e_shard_mask e"
  from Suc.prems obtain freed e1 where e1: "evict_one_from_shard e ?idx = Some (freed, e1)"
    and rest: "(case freed of Some sz \<Rightarrow> Some (True, settle sz e1)
      | None \<Rightarrow> evict_scan start [Suc offset..<length (e_shards e)] e1) = Some (b, e')"
    by (auto simp: upt_conv_Cons [OF o] bind_eq_Some_conv)
  show ?case
  proof (cases freed)
    case None
    have "e1 = e" using e1 None evict_one_None_same by simp
    then have "alone (Evict_Scan start (Suc offset), e) (if b then Evict_Load else Idle, e')"
      using Suc.hyps(1) [of "Suc offset"] Suc.hyps(2) rest None by simp
    moreover have "thread_step None (Evict_Scan start offset, e) (Evict_Scan start (offset + 1), e)"
      using thread_step.scan_miss [OF o] e1 None \<open>e1 = e\<close> by simp
    ultimately show ?thesis by (simp add: alone_step)
  next
    case (Some sz)
    then have "b" "e' = settle sz e1" using rest by simp_all
    moreover have "thread_step None (Evict_Scan start offset, e) (Evict_Sub sz, e1)"
      using thread_step.scan_hit [OF o] e1 Some by simp
    ultimately show ?thesis using alone_step [OF thread_step.sub [of sz e1]] alone_step by simp
  qed
qed

lemma evict_alone: "evict_loop e = Some e' \<Longrightarrow> alone (Evict_Load, e) (Idle, e')"
proof (induction e rule: evict_loop.induct)
  case (1 e)
  show ?case
  proof (cases "e_used_bytes e \<le> e_max_bytes e")
    case True
    with 1(2) evict_loop.simps [of e] show ?thesis using thread_step.load_stop [OF True] by auto
  next
    case False
    let ?f = "e\<lparr>e_eviction_cursor := e_eviction_cursor e + 1\<rparr>"
    from 1(2) False obtain b g where g: "evict_scan (e_eviction_cursor e) [0..<length (e_shards e)] ?f = Some (b, g)"
      "(if b then evict_loop g else Some g) = Some e'"
      using evict_loop.simps [of e] by (auto simp: bind_eq_Some_conv)
    have "thread_step None (Evict_Load, e) (Evict_Cursor, e)" using False by (simp add: thread_step.load_go)
    moreover have "thread_step None (Evict_Cursor, e) (Evict_Scan (e_eviction_cursor e) 0, ?f)" by (rule thread_step.cursor)
    moreover have "alone (Evict_Scan (e_eviction_cursor e) 0, ?f) (if b then Evict_Load else Idle, g)"
      using scan_alone [of "e_eviction_cursor e" 0 ?f b g] g(1) by simp
    moreover have "alone (if b then Evict_Load else Idle, g) (Idle, e')"
    proof (cases b)
      case True
      have run: "evict_scan (e_eviction_cursor e) [0..<length (e_shards ?f)] ?f = Some (b, g)" using g(1) by simp
      show ?thesis using 1(1) [OF False refl refl run refl True] g(2) True by simp
    qed (use g(2) in simp)
    ultimately show ?thesis by (blast intro: alone_step rtranclp_trans)
  qed
qed

lemma under_lock_capacity: "under_lock e k sec = Some (r, e') \<Longrightarrow> e_max_bytes e' = e_max_bytes e"
  by (auto simp: under_lock_def bind_eq_Some_conv)

text \<open>An operation of the trait is its section and, after a \<^verbatim>\<open>set\<close>, the eviction.\<close>

lemma run_cmd_alone:
  assumes "run_cmd memory_kv now c e = Some (a, e')"
  shows "\<exists>e1. under_lock e (cmd_key c) (op_section now c) = Some (a, e1) \<and> alone (after_cmd e c, e1) (Idle, e')"
proof (cases c)
  case (Cmd_Set k v)
  with assms obtain e1 where e1: "under_lock e k (set_section now k v) = Some ((), e1)" "evict_if_needed e1 = Some e'"
    and a: "a = Ans_Unit (Inr ())"
    by (auto simp: kv_set_def bind_eq_Some_conv)
  have "alone (after_cmd e c, e1) (Idle, e')"
    using e1(2) evict_alone [of e1 e'] under_lock_capacity [OF e1(1)] Cmd_Set
    by (auto simp: evict_if_needed_def after_cmd_def split: if_splits)
  with e1(1) a Cmd_Set show ?thesis by (simp add: under_lock_answer_as)
qed (use assms in \<open>auto simp: under_lock_answer_as after_cmd_def kv_get_def kv_delete_def kv_expire_def kv_ttl_def\<close>)

end
