(* ===== verification/Engine_Linear.thy ===== *)
theory Engine_Linear
  imports Engine_Concurrency
begin

text \<open>
  Executions in which the operations on a shared engine answer like one map with deadlines that runs
  them one after the other, in the order of their sections. The steps carry the time of a clock that
  never goes back: an operation reads the time of its own step. The sources read the clock just before
  they lock the shard, so an execution is of this kind if no thread is overtaken between the two.
\<close>

section \<open>The map with deadlines sees live entries only\<close>

definition same_run :: "instant \<Rightarrow> (kv_answer \<times> kv_view) option \<Rightarrow> (kv_answer \<times> kv_view) option \<Rightarrow> bool" where
  "same_run now x y = rel_option (rel_prod (=) (live_eq now)) x y"

lemma run_cmd_live_eq:
  assumes "live_eq now m n"
  shows "same_run now (run_cmd spec_kv now c m) (run_cmd spec_kv now c n)"
proof -
  have "live_at now m = live_at now n" using assms by (rule live_eq_now)
  then show ?thesis using assms
    by (cases c) (auto simp: same_run_def spec_kv_def live_eq_upd option.rel_map option.rel_refl split: option.splits)
qed

lemma run_cmds_snoc:
  "run_cmds ops (cs @ [(now, c)]) e =
    Option.bind (run_cmds ops cs e) (\<lambda>(as, e). Option.bind (run_cmd ops now c e) (\<lambda>(a, e). Some (as @ [a], e)))"
proof (induction cs arbitrary: e)
  case (Cons tc cs)
  show ?case
    by (cases tc; cases "run_cmd ops (fst tc) (snd tc) e") (auto simp: Cons.IH split_def bind_assoc)
qed (simp add: split_def)

section \<open>Steps at the times of a clock\<close>

type_synonym timed_event = "instant \<times> event"

definition event_at :: "timed_event \<Rightarrow> kv_view \<Rightarrow> kv_view \<Rightarrow> bool" where
  "event_at l m n = (case l of
     (t, None) \<Rightarrow> live_eq t n m
   | (t, Some (now, c, a)) \<Rightarrow> now = t \<and> acts_as now c a m n)"

text \<open>The operations of an execution with the times they read, and their answers.\<close>

definition history_cmds :: "timed_event list \<Rightarrow> (instant \<times> kv_cmd) list" where
  "history_cmds ls = List.map_filter (map_option (\<lambda>(now, c, a). (now, c)) \<circ> snd) ls"

definition history_answers :: "timed_event list \<Rightarrow> kv_answer list" where
  "history_answers ls = List.map_filter (map_option (\<lambda>(now, c, a). a) \<circ> snd) ls"

lemma history_snoc [simp]:
  "history_cmds (ls @ [(t, None)]) = history_cmds ls"
  "history_cmds (ls @ [(t, Some (now, c, a))]) = history_cmds ls @ [(now, c)]"
  "history_answers (ls @ [(t, None)]) = history_answers ls"
  "history_answers (ls @ [(t, Some (now, c, a))]) = history_answers ls @ [a]"
  by (simp_all add: history_cmds_def history_answers_def List.map_filter_def)

lemma history_nil [simp]: "history_cmds [] = []" "history_answers [] = []"
  by (simp_all add: history_cmds_def history_answers_def List.map_filter_def)

locale kv_linear =
  fixes step :: "timed_event \<Rightarrow> 's \<Rightarrow> 's \<Rightarrow> bool"
    and inv :: "'s \<Rightarrow> bool"
    and entries :: "'s \<Rightarrow> kv_view"
  assumes step_law: "step l s s' \<Longrightarrow> inv s \<Longrightarrow> inv s' \<and> event_at l (entries s) (entries s')"
begin

lemma run_linear:
  assumes "labelled_run step ls s s'" and "inv s" and "sorted (map fst ls)" and "\<forall>l\<in>set ls. fst l \<le> now"
  shows "inv s' \<and> (\<exists>m. run_cmds spec_kv (history_cmds ls) (entries s) = Some (history_answers ls, m) \<and>
    live_eq now (entries s') m)"
  using assms
proof (induction arbitrary: now rule: labelled_run.induct)
  case (run_snoc ls s s' l s'')
  obtain t ev where l: "l = (t, ev)" by (cases l)
  have ls: "sorted (map fst ls)" "\<forall>l\<in>set ls. fst l \<le> t" and t: "t \<le> now"
    using run_snoc.prems l by (auto simp: sorted_append)
  from run_snoc.IH [OF run_snoc.prems(1) ls] obtain m where
    inv: "inv s'" and m: "run_cmds spec_kv (history_cmds ls) (entries s) = Some (history_answers ls, m)"
      "live_eq t (entries s') m" by blast
  have law: "inv s''" "event_at l (entries s') (entries s'')" using step_law [OF run_snoc.hyps(2) inv] by simp_all
  show ?case
  proof (cases ev)
    case None
    with law(2) l have "live_eq t (entries s'') (entries s')" by (simp add: event_at_def)
    then have "live_eq now (entries s'') m" using m(2) t by (blast intro: live_eq_trans live_eq_later)
    with None l m law(1) show ?thesis by auto
  next
    case (Some x)
    obtain c a where x: "ev = Some (t, c, a)" "acts_as t c a (entries s') (entries s'')"
      using law(2) l Some by (cases x) (auto simp: event_at_def)
    then obtain m1 where m1: "run_cmd spec_kv t c (entries s') = Some (a, m1)" "live_eq t (entries s'') m1"
      by (auto simp: acts_as_def)
    from run_cmd_live_eq [OF m(2), of c] m1(1) obtain m2 where m2: "run_cmd spec_kv t c m = Some (a, m2)" "live_eq t m1 m2"
      by (auto simp: same_run_def option_rel_Some1)
    have "live_eq now (entries s'') m2" using m1(2) m2(2) t by (blast intro: live_eq_trans live_eq_later)
    with x l m(1) m2(1) law(1) show ?thesis by (auto simp: run_cmds_snoc)
  qed
qed auto

end

end
