(* ===== verification/Expirer.thy ===== *)
theory Expirer
  imports Engine_Linear
begin

text \<open>
  The background sweeper (\<^verbatim>\<open>start_expirer\<close> and \<^verbatim>\<open>ExpirationHandle\<close> in \<^verbatim>\<open>hkv-engine/src/memory.rs\<close>): a thread that
  polls the flag shared with its handle, sleeps for the interval and sweeps; \<^verbatim>\<open>stop\<close> sets the flag and
  waits for the thread to end. Both run beside the other threads of the engine.
\<close>

section \<open>The thread and its handle\<close>

text \<open>
  The thread is at the test of its loop, asleep, in the sweep of \<^verbatim>\<open>purge_expired\<close>, or has returned; the
  handle is held by its owner, in \<^verbatim>\<open>join\<close>, or consumed.
\<close>

datatype expirer_pc = Checking | Asleep | Sweeping task | Ended

datatype handle_pc = Held | Joining | Stopped

record expirer =
  x_interval :: duration
  x_stop :: bool
  x_thread :: expirer_pc
  x_handle :: handle_pc

definition start_expirer :: "duration \<Rightarrow> expirer" where
  "start_expirer interval =
     \<lparr>x_interval = if interval = 0 then from_millis 1 else interval, x_stop = False, x_thread = Checking, x_handle = Held\<rparr>"

inductive expirer_step :: "expirer \<times> memory_engine \<Rightarrow> expirer \<times> memory_engine \<Rightarrow> bool" where
  go_on: "x_thread x = Checking \<Longrightarrow> \<not> x_stop x \<Longrightarrow> expirer_step (x, e) (x\<lparr>x_thread := Asleep\<rparr>, e)"
| leave: "x_thread x = Checking \<Longrightarrow> x_stop x \<Longrightarrow> expirer_step (x, e) (x\<lparr>x_thread := Ended\<rparr>, e)"
| wake: "x_thread x = Asleep \<Longrightarrow> expirer_step (x, e) (x\<lparr>x_thread := Sweeping (Purging now 0 0)\<rparr>, e)"
| sweep: "x_thread x = Sweeping t \<Longrightarrow> t \<noteq> Idle \<Longrightarrow> thread_step None (t, e) (u, e') \<Longrightarrow>
    expirer_step (x, e) (x\<lparr>x_thread := Sweeping u\<rparr>, e')"
| swept: "x_thread x = Sweeping Idle \<Longrightarrow> expirer_step (x, e) (x\<lparr>x_thread := Checking\<rparr>, e)"

text \<open>\<^verbatim>\<open>ExpirationHandle::stop\<close>: the store of the flag, then \<^verbatim>\<open>join\<close>, which waits for the thread.\<close>

inductive stop_step :: "expirer \<Rightarrow> expirer \<Rightarrow> bool" where
  store: "x_handle x = Held \<Longrightarrow> stop_step x (x\<lparr>x_stop := True, x_handle := Joining\<rparr>)"
| join: "x_handle x = Joining \<Longrightarrow> x_thread x = Ended \<Longrightarrow> stop_step x (x\<lparr>x_handle := Stopped\<rparr>)"

text \<open>The sweeper and its handle beside the other threads of the engine; the label tells whose step it is.\<close>

inductive expirer_system :: "bool \<Rightarrow> expirer \<times> memory_engine \<Rightarrow> expirer \<times> memory_engine \<Rightarrow> bool" where
  own: "expirer_step s s' \<Longrightarrow> expirer_system True s s'"
| handle: "stop_step x x' \<Longrightarrow> expirer_system True (x, e) (x', e)"
| other: "thread_step ev (t, e) (u, e') \<Longrightarrow> expirer_system False (x, e) (x, e')"

section \<open>What the thread keeps\<close>

fun sweeping :: "task \<Rightarrow> bool" where
  "sweeping Idle = True"
| "sweeping (Purging _ _ _) = True"
| "sweeping _ = False"

definition expirer_ok :: "expirer \<Rightarrow> bool" where
  "expirer_ok x \<longleftrightarrow>
     (case x_thread x of Sweeping t \<Rightarrow> sweeping t | Ended \<Rightarrow> x_stop x | _ \<Rightarrow> True) \<and>
     (x_stop x \<longleftrightarrow> x_handle x \<noteq> Held) \<and> (x_handle x = Stopped \<longrightarrow> x_thread x = Ended)"

lemma start_expirer_ok: "expirer_ok (start_expirer interval)"
  by (simp add: expirer_ok_def start_expirer_def)

lemma sweeping_step: "thread_step None (t, e) (u, e') \<Longrightarrow> sweeping t \<Longrightarrow> sweeping u"
  by (cases rule: thread_step.cases) auto

lemma expirer_step_ok: "expirer_step (x, e) (x', e') \<Longrightarrow> expirer_ok x \<Longrightarrow> expirer_ok x'"
  by (cases rule: expirer_step.cases) (auto simp: expirer_ok_def dest: sweeping_step)

lemma stop_step_ok: "stop_step x x' \<Longrightarrow> expirer_ok x \<Longrightarrow> expirer_ok x'"
  by (cases rule: stop_step.cases) (auto simp: expirer_ok_def split: expirer_pc.splits)

lemma expirer_system_ok: "expirer_system b s s' \<Longrightarrow> expirer_ok (fst s) \<Longrightarrow> expirer_ok (fst s')"
  by (erule expirer_system.cases) (use expirer_step_ok stop_step_ok in \<open>fastforce split: prod.splits\<close>)+

text \<open>The sweep under way was started no later than \<open>t\<close>.\<close>

definition swept_by :: "instant \<Rightarrow> expirer \<Rightarrow> bool" where
  "swept_by t x = (case x_thread x of Sweeping (Purging now _ _) \<Rightarrow> now \<le> t | _ \<Rightarrow> True)"

lemma sweep_step_engine:
  assumes "thread_step None (t, e) (u, e')" and "t \<noteq> Idle" and "sweeping t" and "engine_inv (settle q e)"
  shows "engine_inv (settle q e') \<and> same_config e e' \<and>
    (e' = e \<or> (\<exists>now i r. u = Purging now i r \<and> live_eq now (view e') (view e)))"
  using assms
proof (cases rule: thread_step.cases)
  case (purge_shard i vals now removed removed' inner used)
  with assms(4) purge_shard_settled [of e q i vals now removed removed' inner used] show ?thesis by simp
qed (auto simp: same_config_def)

lemma expirer_step_engine:
  assumes "expirer_step (x, e) (x', e')" and "engine_inv (settle q e)" and "expirer_ok x"
  shows "engine_inv (settle q e') \<and> same_config e e' \<and> (swept_by t x' \<longrightarrow> live_eq t (view e') (view e))"
  using assms
proof (cases rule: expirer_step.cases)
  case (sweep u w)
  with assms(3) have "sweeping u" by (simp add: expirer_ok_def)
  from sweep_step_engine [OF sweep(4,3) this assms(2)] sweep(1) show ?thesis
    by (auto simp: swept_by_def intro: live_eq_later)
qed (simp_all add: same_config_def)

section \<open>Stopping\<close>

text \<open>The steps the thread and \<^verbatim>\<open>join\<close> have left once the flag is set, for an engine of \<open>n\<close> shards.\<close>

fun thread_left :: "nat \<Rightarrow> expirer_pc \<Rightarrow> nat" where
  "thread_left n Ended = 0"
| "thread_left n Checking = 1"
| "thread_left n (Sweeping (Purging _ i _)) = 3 + (n - i)"
| "thread_left n (Sweeping _) = 2"
| "thread_left n Asleep = 4 + n"

definition steps_left :: "expirer \<times> memory_engine \<Rightarrow> nat" where
  "steps_left s = (case s of (x, e) \<Rightarrow>
     thread_left (length (e_shards e)) (x_thread x) + (if x_handle x = Joining then 1 else 0))"

lemma steps_left_bound: "steps_left (x, e) \<le> length (e_shards e) + 5"
  by (cases "(length (e_shards e), x_thread x)" rule: thread_left.cases) (auto simp: steps_left_def)

lemma thread_step_shards: "thread_step ev (t, e) (u, e') \<Longrightarrow> length (e_shards e') = length (e_shards e)"
  by (cases rule: thread_step.cases)
    (auto simp: under_lock_def evict_one_from_shard_def bind_eq_Some_conv)

lemma sweep_left:
  "thread_step None (t, e) (u, e') \<Longrightarrow> t \<noteq> Idle \<Longrightarrow> sweeping t \<Longrightarrow>
    thread_left (length (e_shards e')) (Sweeping u) < thread_left (length (e_shards e)) (Sweeping t)"
  by (cases rule: thread_step.cases) auto

text \<open>With the flag set, the sweeper's own steps run out, and the other threads do not add to them.\<close>

lemma expirer_system_left:
  assumes "expirer_system own s s'" and "expirer_ok (fst s)" and "x_stop (fst s)"
  shows "x_stop (fst s') \<and> (if own then steps_left s' < steps_left s else steps_left s' = steps_left s)"
  using assms
proof (cases rule: expirer_system.cases)
  case own
  from own(2) show ?thesis using own(1) assms(2,3)
    by (cases rule: expirer_step.cases) (auto simp: steps_left_def expirer_ok_def dest: sweep_left)
next
  case (handle x x' e)
  from handle(4) show ?thesis using handle assms(2,3)
    by (cases rule: stop_step.cases) (auto simp: steps_left_def expirer_ok_def)
qed (auto simp: steps_left_def dest: thread_step_shards)

lemma expirer_run_left:
  assumes "labelled_run expirer_system ls s s'" and "expirer_ok (fst s)" and "x_stop (fst s)"
  shows "expirer_ok (fst s') \<and> x_stop (fst s') \<and> count_list ls True + steps_left s' \<le> steps_left s"
  using assms
proof (induction rule: labelled_run.induct)
  case (run_snoc ls s s' l s'')
  then have IH: "expirer_ok (fst s')" "x_stop (fst s')" "count_list ls True + steps_left s' \<le> steps_left s" by blast+
  from expirer_system_left [OF run_snoc.hyps(2) IH(1,2)] expirer_system_ok [OF run_snoc.hyps(2) IH(1)] IH(3)
  show ?case by (cases l) auto
qed simp

text \<open>Neither is ever stuck.\<close>

lemma expirer_goes_on:
  assumes "engine_inv (settle q e)" and "expirer_ok x" and "x_thread x \<noteq> Ended"
  shows "\<exists>x' e'. expirer_step (x, e) (x', e')"
proof (cases "x_thread x")
  case (Sweeping t)
  then show ?thesis
    using expirer_step.swept [of x e] expirer_step.sweep [OF Sweeping] thread_goes_on [OF assms(1), of t] by blast
qed (use assms(3) expirer_step.go_on [of x e] expirer_step.leave [of x e] expirer_step.wake [of x e] in blast)+

lemma stop_goes_on:
  assumes "engine_inv (settle q e)" and "expirer_ok x" and "x_handle x = Joining"
  shows "\<exists>s'. expirer_system True (x, e) s'"
proof (cases "x_thread x = Ended")
  case True
  then show ?thesis using handle [OF join [OF assms(3)]] by blast
next
  case False
  then show ?thesis using expirer_goes_on [OF assms(1,2)] own by blast
qed

section \<open>The invariant of the system\<close>

text \<open>The engine is well formed up to the bytes that other threads have yet to subtract.\<close>

definition expirer_init :: "expirer \<times> memory_engine \<Rightarrow> bool" where
  "expirer_init s \<longleftrightarrow> (\<exists>interval. fst s = start_expirer interval) \<and> engine_inv (snd s)"

definition expirer_inv :: "expirer \<times> memory_engine \<Rightarrow> bool" where
  "expirer_inv s \<longleftrightarrow> expirer_ok (fst s) \<and> 0 < x_interval (fst s) \<and> (\<exists>q. engine_inv (settle q (snd s)))"

lemma expirer_interval_kept: "expirer_system b s s' \<Longrightarrow> x_interval (fst s') = x_interval (fst s)"
  by (erule expirer_system.cases) (auto elim: expirer_step.cases stop_step.cases)

lemma expirer_system_engine:
  assumes "expirer_system b s s'" and "expirer_ok (fst s)" and "engine_inv (settle q (snd s))"
  shows "\<exists>q. engine_inv (settle q (snd s'))"
  using assms(1)
proof (cases rule: expirer_system.cases)
  case own
  obtain x e where s: "s = (x, e)" by (cases s)
  obtain x' e' where s': "s' = (x', e')" by (cases s')
  have "engine_inv (settle q e')" using expirer_step_engine [of x e x' e' q] own assms(2,3) by (simp add: s s')
  then show ?thesis unfolding s' snd_conv by (rule exI)
next
  case (other ev t e u e' x)
  have "engine_inv (settle (pending_bytes t + (q - pending_bytes t)) e)" using assms(3) other by simp
  from thread_step_settled [OF other(4) this] have "engine_inv (settle (pending_bytes u + (q - pending_bytes t)) e')" by simp
  then show ?thesis unfolding other(3) snd_conv by (rule exI)
next
  case (handle x x' e)
  then show ?thesis using assms(3) by (intro exI [of _ q]) simp
qed

lemma expirer_system_inv:
  assumes "expirer_system b s s'" and "expirer_inv s"
  shows "expirer_inv s'"
proof -
  obtain q where s: "expirer_ok (fst s)" "0 < x_interval (fst s)" "engine_inv (settle q (snd s))"
    using assms(2) by (auto simp: expirer_inv_def)
  show ?thesis
    using expirer_system_ok [OF assms(1) s(1)] expirer_system_engine [OF assms(1) s(1,3)]
      expirer_interval_kept [OF assms(1)] s(2) by (simp add: expirer_inv_def)
qed

lemma expirer_init_inv:
  assumes "expirer_init s"
  shows "expirer_inv s"
proof -
  obtain interval where s: "fst s = start_expirer interval" "engine_inv (settle 0 (snd s))"
    using assms by (auto simp: expirer_init_def)
  have "0 < x_interval (fst s)" by (simp add: s(1) start_expirer_def from_millis_def)
  moreover have "expirer_ok (fst s)" by (simp add: s(1) start_expirer_ok)
  ultimately show ?thesis using s(2) unfolding expirer_inv_def by blast
qed

interpretation sweeper: invariant_system expirer_init "\<lambda>s s'. \<exists>b. expirer_system b s s'" expirer_inv
  by unfold_locales (use expirer_init_inv expirer_system_inv in blast)+

end
