(* ===== verification/Server_Process.thy ===== *)
theory Server_Process
  imports Server_Programs Server_Counters Expirer
begin

text \<open>
  The server process (\<^verbatim>\<open>hkv-server/src/main.rs\<close>): it accepts any number of connections, serves each in a task
  of its own (\<^verbatim>\<open>handle_connection_with_metrics\<close> in \<^verbatim>\<open>hkv-server/src/server.rs\<close>) and sweeps expired entries in
  the background. The tasks share the engine and the counters and are interleaved at every read and
  write of a socket, every section under a lock of the engine, and every step of an eviction or a
  sweep; what a task does to the counters between two of these points is one step.

  A task that panics, in the parser or in a handler, ends alone: the runtime drops it and the process
  goes on. The locks are not poisoned by a panic, and the one panic the engine has, a deadline beyond
  the range of the clock, comes before its section changes anything.
\<close>

section \<open>Connections\<close>

text \<open>
  Where the task of a connection stands: waiting for data; with data to parse; in a handler, with the
  instant the request started at, the rest of the handler and the eviction it is in; about to write a
  reply, after which the connection may be closed; returned, at the end of the stream or with the
  error of a read; crashed in the parser; or ended with a request in flight, by a failed write of
  the given reply or by a panic in a handler.
\<close>

datatype conn_pc =
  Reading | Parsing | Running instant prog task | Replying instant bool bytes
| Finished | Failed | Crashed | Lost "bytes option"

record conn =
  c_pc :: conn_pc
  c_parser :: resp_parser
  c_buffer :: bytes
  c_replies :: "bytes list"

definition conn_new :: conn where
  "conn_new = \<lparr>c_pc = Reading, c_parser = resp_parser_new, c_buffer = [], c_replies = []\<rparr>"

inductive conn_step ::
    "event \<Rightarrow> conn \<times> memory_engine \<times> metrics \<Rightarrow> conn \<times> memory_engine \<times> metrics \<Rightarrow> bool" where
  read_data: "c_pc c = Reading \<Longrightarrow> bs \<noteq> [] \<Longrightarrow>
    conn_step None (c, e, m) (c\<lparr>c_pc := Parsing, c_buffer := c_buffer c @ bs\<rparr>, e, m)"
| read_eof: "c_pc c = Reading \<Longrightarrow> conn_step None (c, e, m) (c\<lparr>c_pc := Finished\<rparr>, e, m)"
| read_failed: "c_pc c = Reading \<Longrightarrow> conn_step None (c, e, m) (c\<lparr>c_pc := Failed\<rparr>, e, m)"
| parse_request: "c_pc c = Parsing \<Longrightarrow> parse (c_parser c) (c_buffer c) = Some (Inr (Some args), p, b) \<Longrightarrow>
    conn_step None (c, e, m)
      (c\<lparr>c_pc := Running now (command_prog args) Idle, c_parser := p, c_buffer := b\<rparr>, e, record_request_start m)"
| parse_wait: "c_pc c = Parsing \<Longrightarrow> parse (c_parser c) (c_buffer c) = Some (Inr None, p, b) \<Longrightarrow>
    conn_step None (c, e, m) (c\<lparr>c_pc := Reading, c_parser := p, c_buffer := b\<rparr>, e, m)"
| parse_error: "c_pc c = Parsing \<Longrightarrow> parse (c_parser c) (c_buffer c) = Some (Inl err, p, b) \<Longrightarrow>
    conn_step None (c, e, m)
      (c\<lparr>c_pc := Replying now True (resp_error (ascii ''protocol error'')), c_parser := p, c_buffer := b\<rparr>,
       e, record_error (record_request_start m))"
| parse_panic: "c_pc c = Parsing \<Longrightarrow> parse (c_parser c) (c_buffer c) = None \<Longrightarrow>
    conn_step None (c, e, m) (c\<lparr>c_pc := Crashed\<rparr>, e, m)"
| call: "c_pc c = Running st (Call cmd k) Idle \<Longrightarrow> thread_step (Some (now, cmd, a)) (Idle, e) (t, e') \<Longrightarrow>
    conn_step (Some (now, cmd, a)) (c, e, m) (c\<lparr>c_pc := Running st (k a) t\<rparr>, e', m)"
| call_panic: "c_pc c = Running st (Call cmd k) Idle \<Longrightarrow>
    under_lock e (cmd_key cmd) (op_section now cmd) = None \<Longrightarrow>
    conn_step None (c, e, m) (c\<lparr>c_pc := Lost None\<rparr>, e, m)"
| evict: "c_pc c = Running st p t \<Longrightarrow> t \<noteq> Idle \<Longrightarrow> thread_step None (t, e) (t', e') \<Longrightarrow>
    conn_step None (c, e, m) (c\<lparr>c_pc := Running st p t'\<rparr>, e', m)"
| reply: "c_pc c = Running st (Done response) Idle \<Longrightarrow>
    conn_step None (c, e, m)
      (c\<lparr>c_pc := Replying st False response\<rparr>, e, if is_error_response response then record_error m else m)"
| info: "c_pc c = Running st Info_Reply Idle \<Longrightarrow> response = handle_info m now \<Longrightarrow>
    conn_step None (c, e, m)
      (c\<lparr>c_pc := Replying st False response\<rparr>, e, if is_error_response response then record_error m else m)"
| write_ok: "c_pc c = Replying st final response \<Longrightarrow> record_request_end m (elapsed st now) = Some m' \<Longrightarrow>
    conn_step None (c, e, m)
      (c\<lparr>c_pc := if final then Finished else Parsing, c_replies := c_replies c @ [response]\<rparr>, e, m')"
| write_failed: "c_pc c = Replying st final response \<Longrightarrow>
    conn_step None (c, e, m) (c\<lparr>c_pc := Lost (Some response)\<rparr>, e, m)"

section \<open>The process\<close>

record process =
  pr_engine :: memory_engine
  pr_metrics :: metrics
  pr_conns :: "conn list"
  pr_expirer :: expirer

text \<open>\<^verbatim>\<open>main\<close> up to its loop.\<close>

definition server_start ::
    "(nat \<Rightarrow> bool) \<Rightarrow> (bytes \<Rightarrow> u64) \<Rightarrow> usize option \<Rightarrow> instant \<Rightarrow> process exec" where
  "server_start alloc_shards hash_state parallelism now = do {
     engine \<leftarrow> engine_new alloc_shards hash_state parallelism;
     Some \<lparr>pr_engine = engine, pr_metrics = metrics_new now, pr_conns = [],
       pr_expirer = start_expirer (from_secs 1)\<rparr>
   }"

inductive process_step :: "event \<Rightarrow> process \<Rightarrow> process \<Rightarrow> bool" where
  accept: "process_step None s (s\<lparr>pr_conns := pr_conns s @ [conn_new]\<rparr>)"
| serve: "i < length (pr_conns s) \<Longrightarrow>
    conn_step ev (pr_conns s ! i, pr_engine s, pr_metrics s) (c, e, m) \<Longrightarrow>
    process_step ev s (s\<lparr>pr_engine := e, pr_metrics := m, pr_conns := (pr_conns s)[i := c]\<rparr>)"
| expire: "expirer_step (pr_expirer s, pr_engine s) (x, e) \<Longrightarrow>
    process_step None s (s\<lparr>pr_engine := e, pr_expirer := x\<rparr>)"

section \<open>The books of the process\<close>

text \<open>What a connection contributes to the counters.\<close>

definition in_flight :: "conn \<Rightarrow> bool" where
  "in_flight c = (case c_pc c of Running _ _ _ \<Rightarrow> True | Replying _ _ _ \<Rightarrow> True | Lost _ \<Rightarrow> True | _ \<Rightarrow> False)"

definition undelivered :: "conn \<Rightarrow> bytes list" where
  "undelivered c = (case c_pc c of Replying _ _ r \<Rightarrow> [r] | Lost (Some r) \<Rightarrow> [r] | _ \<Rightarrow> [])"

text \<open>The engine of the process has no byte limit, so no handler is ever in an eviction.\<close>

definition quiet :: "conn \<Rightarrow> bool" where
  "quiet c = (case c_pc c of Running _ _ t \<Rightarrow> t = Idle | _ \<Rightarrow> True)"

definition started :: "conn \<Rightarrow> nat" where
  "started c = length (c_replies c) + of_bool (in_flight c)"

definition error_replies :: "conn \<Rightarrow> nat" where
  "error_replies c = length (filter is_error_response (c_replies c @ undelivered c))"

definition tally :: "(conn \<Rightarrow> nat) \<Rightarrow> conn list \<Rightarrow> u64" where
  "tally f cs = of_nat (sum_list (map f cs))"

definition counters_ok :: "metrics \<Rightarrow> conn list \<Rightarrow> bool" where
  "counters_ok m cs \<longleftrightarrow>
     hist_ok (m_latency m) \<and>
     m_requests_total m = tally started cs \<and>
     m_errors_total m = tally error_replies cs \<and>
     m_inflight m = tally (\<lambda>c. of_bool (in_flight c)) cs \<and>
     h_samples (m_latency m) = tally (\<lambda>c. length (c_replies c)) cs"

definition process_inv :: "process \<Rightarrow> bool" where
  "process_inv s \<longleftrightarrow> unbounded_inv (pr_engine s) \<and> list_all quiet (pr_conns s) \<and>
     counters_ok (pr_metrics s) (pr_conns s) \<and> expirer_ok (pr_expirer s)"

section \<open>Every step keeps the books\<close>

lemma conn_new_books [simp]:
  "\<not> in_flight conn_new" "started conn_new = 0" "error_replies conn_new = 0" "quiet conn_new"
  "c_replies conn_new = []"
  by (simp_all add: conn_new_def in_flight_def started_def error_replies_def undelivered_def quiet_def)

lemma tally_snoc [simp]: "tally f (cs @ [c]) = tally f cs + of_nat (f c)"
  by (simp add: tally_def)

lemma tally_update:
  "i < length cs \<Longrightarrow> tally f (cs[i := c]) = tally f cs + (of_nat (f c) - of_nat (f (cs ! i)))"
  using sum_map_update [of i cs "\<lambda>c. of_nat (f c) :: u64" c] by (simp add: tally_def o_def flip: sum_list_of_nat)

text \<open>Every counter moves by what the connection's contribution moves.\<close>

definition counted :: "metrics \<Rightarrow> metrics \<Rightarrow> conn \<Rightarrow> conn \<Rightarrow> bool" where
  "counted m m' c c' \<longleftrightarrow>
     hist_ok (m_latency m') \<and>
     m_requests_total m' = m_requests_total m + (of_nat (started c') - of_nat (started c)) \<and>
     m_errors_total m' = m_errors_total m + (of_nat (error_replies c') - of_nat (error_replies c)) \<and>
     m_inflight m' = m_inflight m + (of_bool (in_flight c') - of_bool (in_flight c)) \<and>
     h_samples (m_latency m') = h_samples (m_latency m) + (of_nat (length (c_replies c')) - of_nat (length (c_replies c)))"

lemmas books_defs = counted_def started_def error_replies_def in_flight_def undelivered_def record_request_start_def
  record_error_def

lemma protocol_error_reply: "is_error_response (resp_error msg)"
  by (simp add: is_error_response_def resp_error_def ascii_simps)

lemma conn_step_counted:
  assumes "conn_step ev (c, e, m) (c', e', m')" and "hist_ok (m_latency m)"
  shows "counted m m' c c'"
  using assms
proof (cases rule: conn_step.cases)
  case (write_ok st final response now)
  obtain h' where "histogram_record (m_latency m) (elapsed st now) = Some h'" "hist_ok h'"
    "h_samples h' = h_samples (m_latency m) + 1"
    using histogram_record_ok [OF assms(2)] by blast
  with write_ok show ?thesis by (auto simp: books_defs record_request_end_def)
qed (simp_all add: books_defs protocol_error_reply split: option.splits)

lemma counters_ok_update:
  assumes "counters_ok m cs" and "i < length cs" and "counted m m' (cs ! i) c"
  shows "counters_ok m' (cs[i := c])"
  using assms by (simp add: counters_ok_def counted_def tally_update)

lemma call_engine:
  assumes "thread_step (Some (now, cmd, a)) (Idle, e) (t, e')" and "unbounded_inv e"
  shows "unbounded_inv e' \<and> t = Idle \<and> acts_as now cmd a (view e) (view e')"
proof -
  have "t = after_cmd e cmd" using assms(1) by (cases rule: thread_step.cases) auto
  then have "t = Idle" using assms(2) by (simp add: after_cmd_def unbounded_inv_def split: kv_cmd.splits)
  with thread_step_settled [OF assms(1), of 0] assms(2) show ?thesis
    by (simp add: unbounded_inv_def event_ok_def same_config_def)
qed

definition times_ok :: "timed_event \<Rightarrow> expirer \<Rightarrow> bool" where
  "times_ok l x \<longleftrightarrow> (case l of (t, ev) \<Rightarrow>
     swept_by t x \<and> (case ev of None \<Rightarrow> True | Some (now, c, a) \<Rightarrow> now = t))"

lemma conn_step_engine:
  assumes "conn_step ev (c, e, m) (c', e', m')" and "unbounded_inv e" and "quiet c"
  shows "unbounded_inv e' \<and> quiet c' \<and> (times_ok (t, ev) x \<longrightarrow> event_at (t, ev) (view e) (view e'))"
  using assms
proof (cases rule: conn_step.cases)
  case (call st cmd k now a u)
  with call_engine [OF call(5) assms(2)] show ?thesis by (auto simp: quiet_def event_at_def times_ok_def)
next
  case (evict st p u u')
  with assms(3) show ?thesis by (simp add: quiet_def)
qed (simp_all add: quiet_def event_at_def)

lemma process_step_inv:
  assumes "process_step ev s s'" and "process_inv s"
  shows "process_inv s' \<and> (times_ok (t, ev) (pr_expirer s') \<longrightarrow> event_at (t, ev) (view (pr_engine s)) (view (pr_engine s')))"
  using assms
proof (cases rule: process_step.cases)
  case accept
  with assms(2) show ?thesis by (simp add: process_inv_def counters_ok_def event_at_def)
next
  case (serve i c e m)
  have inv: "unbounded_inv (pr_engine s)" "hist_ok (m_latency (pr_metrics s))" "quiet (pr_conns s ! i)"
    using assms(2) serve(2) by (auto simp: process_inv_def counters_ok_def list_all_length)
  from conn_step_engine [OF serve(3) inv(1,3), of t "pr_expirer s"] serve
    counters_ok_update [OF _ serve(2) conn_step_counted [OF serve(3) inv(2)]] assms(2)
  show ?thesis by (auto simp: process_inv_def list_all_length nth_list_update)
next
  case (expire x e)
  have "engine_inv (settle 0 (pr_engine s))" "expirer_ok (pr_expirer s)"
    using assms(2) by (simp_all add: process_inv_def unbounded_inv_def)
  from expirer_step_engine [OF expire(3) this, of t] expirer_step_ok [OF expire(3) this(2)] expire assms(2) show ?thesis
    by (auto simp: process_inv_def unbounded_inv_def same_config_def event_at_def times_ok_def)
qed

text \<open>The states \<^verbatim>\<open>main\<close> starts in, on a machine whose thread count does not overflow the shard count.\<close>

definition process_init :: "process \<Rightarrow> bool" where
  "process_init s \<longleftrightarrow> (\<exists>alloc_shards hash_state parallelism now.
     unat (saturating_mul (case parallelism of Some c \<Rightarrow> c | None \<Rightarrow> 1) default_shard_multiplier) \<le> 2 ^ 63 \<and>
     server_start alloc_shards hash_state parallelism now = Some s)"

lemma process_init_inv: "process_init s \<Longrightarrow> process_inv s \<and> view (pr_engine s) = Map.empty"
  using engine_new_fresh hist_ok_new
  by (fastforce simp: process_init_def process_inv_def server_start_def bind_eq_Some_conv unbounded_inv_def counters_ok_def tally_def
      start_expirer_ok metrics_new_def with_latency_buckets_def histogram_new_def)

interpretation server: invariant_system process_init "\<lambda>s s'. \<exists>ev. process_step ev s s'" process_inv
  by unfold_locales (use process_init_inv process_step_inv in blast)+

text \<open>The steps of the process at the times of one clock.\<close>

definition timed_step :: "timed_event \<Rightarrow> process \<Rightarrow> process \<Rightarrow> bool" where
  "timed_step l s s' \<longleftrightarrow> process_step (snd l) s s' \<and> times_ok l (pr_expirer s')"

interpretation server_linear: kv_linear timed_step process_inv "\<lambda>s. view (pr_engine s)"
proof
  fix l s s' assume "timed_step l s s'" "process_inv s"
  with process_step_inv [of "snd l" s s' "fst l"]
  show "process_inv s' \<and> event_at l (view (pr_engine s)) (view (pr_engine s'))" by (simp add: timed_step_def)
qed

section \<open>No task is stuck\<close>

text \<open>\<^verbatim>\<open>main\<close> never stops its sweeper.\<close>

lemma sweeper_held:
  "reach process_init (\<lambda>s s'. \<exists>ev. process_step ev s s') s \<Longrightarrow> x_handle (pr_expirer s) = Held"
proof (induction rule: reach.induct)
  case (reach_step s s')
  then obtain ev where "process_step ev s s'" by blast
  then show ?case using reach_step.IH
    by (cases rule: process_step.cases) (auto elim: expirer_step.cases)
qed (auto simp: process_init_def server_start_def bind_eq_Some_conv start_expirer_def)

lemma sweeper_runs:
  assumes "reach process_init (\<lambda>s s'. \<exists>ev. process_step ev s s') s"
  shows "x_thread (pr_expirer s) \<noteq> Ended"
  using sweeper_held [OF assms] server.reach_inv [OF assms] by (auto simp: process_inv_def expirer_ok_def)

lemma sum_of_bool: "(\<Sum>c\<leftarrow>cs. of_bool (P c)) = length (filter P cs)"
  by (induction cs) simp_all

definition ended :: "conn \<Rightarrow> bool" where
  "ended c = (case c_pc c of Finished \<Rightarrow> True | Failed \<Rightarrow> True | Crashed \<Rightarrow> True | Lost _ \<Rightarrow> True | _ \<Rightarrow> False)"

lemma handler_goes_on:
  assumes "engine_inv (settle q e)" and "c_pc c = Running st p t"
  shows "\<exists>ev r. conn_step ev (c, e, m) r"
proof (cases "t = Idle")
  case False
  then show ?thesis using thread_goes_on [OF assms(1) False] conn_step.evict [OF assms(2) False] by blast
next
  case idle: True
  show ?thesis
  proof (cases p)
    case (Call cmd k)
    show ?thesis
    proof (cases "under_lock e (cmd_key cmd) (op_section 0 cmd)")
      case None
      then show ?thesis using conn_step.call_panic assms(2) Call idle by blast
    next
      case (Some r)
      obtain a e' where "r = (a, e')" by fastforce
      with Some thread_step.op [of e cmd 0 a e'] conn_step.call assms(2) Call idle show ?thesis by blast
    qed
  qed (use assms(2) idle conn_step.reply conn_step.info in blast)+
qed

lemma conn_goes_on:
  assumes "engine_inv (settle q e)" and "hist_ok (m_latency m)" and "\<not> ended c"
  shows "\<exists>ev r. conn_step ev (c, e, m) r"
proof (cases "c_pc c")
  case Reading
  then show ?thesis using conn_step.read_eof by blast
next
  case Parsing
  consider "parse (c_parser c) (c_buffer c) = None"
    | args p b where "parse (c_parser c) (c_buffer c) = Some (Inr (Some args), p, b)"
    | p b where "parse (c_parser c) (c_buffer c) = Some (Inr None, p, b)"
    | err p b where "parse (c_parser c) (c_buffer c) = Some (Inl err, p, b)"
    by (metis option.exhaust prod_cases3 sum.exhaust)
  then show ?thesis using Parsing
    by cases (blast intro: conn_step.parse_panic conn_step.parse_request conn_step.parse_wait conn_step.parse_error)+
next
  case (Replying st final response)
  obtain h' where "histogram_record (m_latency m) (elapsed st st) = Some h'"
    using histogram_record_ok [OF assms(2)] by blast
  then have "record_request_end m (elapsed st st) \<noteq> None" by (simp add: record_request_end_def)
  then show ?thesis using conn_step.write_ok [OF Replying] by blast
qed (use assms(3) handler_goes_on [OF assms(1)] in \<open>auto simp: ended_def\<close>)

section \<open>A connection alone\<close>

text \<open>
  Served without other tasks, a connection does what \<open>handle_connection_with_metrics\<close> computes: that
  function is one of the runs of the process.
\<close>

abbreviation conn_runs :: "conn \<times> memory_engine \<times> metrics \<Rightarrow> conn \<times> memory_engine \<times> metrics \<Rightarrow> bool" where
  "conn_runs \<equiv> (\<lambda>s s'. \<exists>ev. conn_step ev s s')\<^sup>*\<^sup>*"

lemma conn_runs_step: "conn_step ev s s' \<Longrightarrow> conn_runs s' s'' \<Longrightarrow> conn_runs s s''"
  by (rule converse_rtranclp_into_rtranclp) blast

lemmas conn_step_runs = conn_runs_step [OF _ rtranclp.rtrancl_refl]

lemma evict_runs:
  "alone (t, e) (u, e') \<Longrightarrow> c_pc c = Running st p t \<Longrightarrow> conn_runs (c, e, m) (c\<lparr>c_pc := Running st p u\<rparr>, e', m)"
proof (induction "(t, e)" arbitrary: t e c rule: converse_rtranclp_induct)
  case base
  then have "c\<lparr>c_pc := Running st p u\<rparr> = c" by simp
  then show ?case by simp
next
  case (step s)
  obtain t' e1 where s: "s = (t', e1)" by fastforce
  let ?c = "c\<lparr>c_pc := Running st p t'\<rparr>"
  have "conn_runs (?c, e1, m) (?c\<lparr>c_pc := Running st p u\<rparr>, e', m)" using step.hyps(3) [OF s, of ?c] by simp
  moreover have "t \<noteq> Idle" "thread_step None (t, e) (t', e1)" using step.hyps(1) s by simp_all
  then have "conn_step None (c, e, m) (?c, e1, m)" by (rule conn_step.evict [OF step.prems])
  ultimately show ?case using conn_runs_step by simp
qed

lemma call_runs:
  assumes "run_cmd memory_kv now cmd e = Some (a, e')" and "c_pc c = Running st (Call cmd k) Idle"
  shows "conn_runs (c, e, m) (c\<lparr>c_pc := Running st (k a) Idle\<rparr>, e', m)"
proof -
  obtain e1 where e1: "under_lock e (cmd_key cmd) (op_section now cmd) = Some (a, e1)"
    and ev: "alone (after_cmd e cmd, e1) (Idle, e')"
    using run_cmd_alone [OF assms(1)] by blast
  let ?c = "c\<lparr>c_pc := Running st (k a) (after_cmd e cmd)\<rparr>"
  have "conn_step (Some (now, cmd, a)) (c, e, m) (?c, e1, m)"
    by (rule conn_step.call [OF assms(2) thread_step.op [OF e1]])
  moreover have "conn_runs (?c, e1, m) (?c\<lparr>c_pc := Running st (k a) Idle\<rparr>, e', m)" by (rule evict_runs [OF ev]) simp
  ultimately show ?thesis using conn_runs_step by simp
qed

abbreviation count_reply :: "bytes \<Rightarrow> metrics \<Rightarrow> metrics" where
  "count_reply response m \<equiv> (if is_error_response response then record_error m else m)"

lemma prog_runs:
  "run_prog m p clk e = Some (response, e') \<Longrightarrow> c_pc c = Running st p Idle \<Longrightarrow>
    conn_runs (c, e, m) (c\<lparr>c_pc := Replying st False response\<rparr>, e', count_reply response m)"
proof (induction p arbitrary: clk e c)
  case (Done r)
  then show ?case using conn_step_runs [OF conn_step.reply [OF Done.prems(2), of e m]] by simp
next
  case Info_Reply
  then show ?case using conn_step_runs [OF conn_step.info [OF Info_Reply.prems(2) refl, of e m "clk 0"]] by simp
next
  case (Call cmd k)
  from Call.prems(1) obtain a e1 where a: "run_cmd memory_kv (clk 0) cmd e = Some (a, e1)"
    and rest: "run_prog m (k a) (\<lambda>i. clk (Suc i)) e1 = Some (response, e')"
    by (auto simp: bind_eq_Some_conv)
  have "conn_runs (c, e, m) (c\<lparr>c_pc := Running st (k a) Idle\<rparr>, e1, m)" by (rule call_runs [OF a Call.prems(2)])
  moreover have "conn_runs (c\<lparr>c_pc := Running st (k a) Idle\<rparr>, e1, m)
      (c\<lparr>c_pc := Replying st False response\<rparr>, e', count_reply response m)"
    using Call.IH [OF rangeI rest, of "c\<lparr>c_pc := Running st (k a) Idle\<rparr>"] by simp
  ultimately show ?case by (rule rtranclp_trans)
qed

text \<open>The state of the model of \<open>Server\<close> as a connection at \<open>pc\<close>.\<close>

definition conn_at :: "conn_pc \<Rightarrow> resp_parser \<Rightarrow> bytes \<Rightarrow> server_conn \<Rightarrow> conn \<times> memory_engine \<times> metrics" where
  "conn_at pc p b c =
     (\<lparr>c_pc = pc, c_parser = p, c_buffer = b, c_replies = sc_replies c\<rparr>, sc_engine c, sc_metrics c)"

fun status_of :: "conn_pc \<Rightarrow> conn_status \<Rightarrow> bool" where
  "status_of Reading status = (status = Waiting)"
| "status_of Finished status = (status = Closed)"
| "status_of Failed status = (status = ReadError)"
| "status_of (Lost (Some r)) status = (status = WriteError)"
| "status_of _ status = False"

lemma reply_runs:
  assumes "write_reply env response c = Some (ok, c')" and "st = rq_start (env_clock env (length (sc_replies c)))"
  shows "conn_runs (conn_at (Replying st final response) p b c)
    (conn_at (if ok then (if final then Finished else Parsing) else Lost (Some response)) p b c')"
proof -
  let ?d = "\<lparr>c_pc = Replying st final response, c_parser = p, c_buffer = b, c_replies = sc_replies c\<rparr>"
  show ?thesis
  proof (cases ok)
    case True
    with assms obtain m now where m: "record_request_end (sc_metrics c) (elapsed st now) = Some m"
      and c': "c' = c\<lparr>sc_replies := sc_replies c @ [response], sc_metrics := m\<rparr>"
      by (auto simp: write_reply_def Let_def bind_eq_Some_conv split: if_splits)
    show ?thesis using conn_step_runs [OF conn_step.write_ok [OF _ m, of ?d final response "sc_engine c"]] True
      by (simp add: conn_at_def c')
  next
    case False
    then have "c' = c" using assms(1) by (auto simp: write_reply_def Let_def bind_eq_Some_conv split: if_splits)
    with False show ?thesis
      using conn_step_runs [OF conn_step.write_failed [of ?d st final response "sc_engine c" "sc_metrics c"]]
      by (simp add: conn_at_def)
  qed
qed

lemmas reply_runs_next = reply_runs [where final = False, unfolded if_False]

lemmas reply_runs_last = reply_runs [where final = True, unfolded if_True]

lemma request_runs:
  assumes pa: "parse p b = Some (Inr (Some args), p', b')" and run: "serve_request env args c = Some (ok, c')"
  shows "\<exists>r. conn_runs (conn_at Parsing p b c) (conn_at (if ok then Parsing else Lost (Some r)) p' b' c')"
proof -
  let ?k = "env_clock env (length (sc_replies c))" and ?m = "record_request_start (sc_metrics c)"
  from run obtain r e where d: "dispatch_command args (rq_calls ?k) (sc_engine c) ?m = Some (r, e)"
    and w: "write_reply env r (c\<lparr>sc_engine := e, sc_metrics := count_reply r ?m\<rparr>) = Some (ok, c')"
    by (auto simp: serve_request_def Let_def bind_eq_Some_conv)
  let ?run = "\<lparr>c_pc = Running (rq_start ?k) (command_prog args) Idle, c_parser = p', c_buffer = b', c_replies = sc_replies c\<rparr>"
  have "conn_runs (conn_at Parsing p b c) (?run, sc_engine c, ?m)"
    using conn_step_runs [OF conn_step.parse_request [of "fst (conn_at Parsing p b c)" args p' b' "sc_engine c" "sc_metrics c"]] pa
    by (simp add: conn_at_def)
  also have "conn_runs (?run, sc_engine c, ?m)
      (conn_at (Replying (rq_start ?k) False r) p' b' (c\<lparr>sc_engine := e, sc_metrics := count_reply r ?m\<rparr>))"
    using prog_runs [of ?m "command_prog args" "rq_calls ?k" "sc_engine c" r e ?run "rq_start ?k"] d
    by (simp add: conn_at_def command_prog_run)
  also have "conn_runs (conn_at (Replying (rq_start ?k) False r) p' b' (c\<lparr>sc_engine := e, sc_metrics := count_reply r ?m\<rparr>))
      (conn_at (if ok then Parsing else Lost (Some r)) p' b' c')"
    by (rule reply_runs_next [OF w]) simp
  finally show ?thesis by blast
qed

lemma error_runs:
  assumes pa: "parse p b = Some (Inl err, p', b')" and run: "serve_protocol_error env c = Some (ok, c')"
  shows "\<exists>r. conn_runs (conn_at Parsing p b c) (conn_at (if ok then Finished else Lost (Some r)) p' b' c')"
proof -
  define r where "r = resp_error (ascii ''protocol error'')"
  define d where "d = c\<lparr>sc_metrics := record_error (record_request_start (sc_metrics c))\<rparr>"
  define st where "st = rq_start (env_clock env (length (sc_replies c)))"
  have "conn_step None (conn_at Parsing p b c) (conn_at (Replying st True r) p' b' d)"
    using conn_step.parse_error [of "fst (conn_at Parsing p b c)" err p' b' "sc_engine c" "sc_metrics c" st, folded r_def] pa
    by (simp add: conn_at_def d_def)
  moreover have w: "write_reply env r d = Some (ok, c')" "st = rq_start (env_clock env (length (sc_replies d)))"
    using run by (simp_all add: serve_protocol_error_def r_def d_def st_def)
  ultimately show ?thesis using conn_runs_step reply_runs_last [OF w] by blast
qed

lemma serve_buffer_runs:
  "serve_buffer env p b c = Some (status, p', b', c') \<Longrightarrow>
    \<exists>pc. conn_runs (conn_at Parsing p b c) (conn_at pc p' b' c') \<and> status_of pc status"
proof (induction env p b c rule: serve_buffer.induct)
  case (1 env p b c)
  from 1(2) obtain r q bq where pa: "parse p b = Some (r, q, bq)"
    and rest: "(case r of
        Inr (Some args) \<Rightarrow> do {
          (ok, c) \<leftarrow> serve_request env args c;
          (if ok then serve_buffer env q bq c else Some (WriteError, q, bq, c))
        }
      | Inr None \<Rightarrow> Some (Waiting, q, bq, c)
      | Inl _ \<Rightarrow> do {
          (ok, c) \<leftarrow> serve_protocol_error env c;
          Some (if ok then Closed else WriteError, q, bq, c)
        }) = Some (status, p', b', c')"
    by (subst (asm) serve_buffer.simps) (auto simp: bind_eq_Some_conv)
  consider (wait) "r = Inr None" | (req) args where "r = Inr (Some args)" | (err) err where "r = Inl err"
    by (metis option.exhaust sum.exhaust)
  then show ?case
  proof cases
    case wait
    have "conn_runs (conn_at Parsing p b c) (conn_at Reading q bq c)"
      using conn_step_runs [OF conn_step.parse_wait [of "fst (conn_at Parsing p b c)" q bq]] pa wait
      by (simp add: conn_at_def)
    with rest wait show ?thesis by (auto intro: exI [of _ Reading])
  next
    case (err err)
    with rest obtain ok where ok: "serve_protocol_error env c = Some (ok, c')"
      and st: "status = (if ok then Closed else WriteError)" "p' = q" "b' = bq"
      by (auto simp: bind_eq_Some_conv)
    from error_runs [OF _ ok] pa err
    obtain r where "conn_runs (conn_at Parsing p b c) (conn_at (if ok then Finished else Lost (Some r)) q bq c')" by blast
    moreover have "status_of (if ok then Finished else Lost (Some r)) status" using st(1) by simp
    ultimately show ?thesis using st by blast
  next
    case (req args)
    with rest obtain ok c1 where sr: "serve_request env args c = Some (ok, c1)"
      and cont: "(if ok then serve_buffer env q bq c1 else Some (WriteError, q, bq, c1)) = Some (status, p', b', c')"
      by (auto simp: bind_eq_Some_conv)
    from request_runs [OF _ sr] pa req
    obtain r where r: "conn_runs (conn_at Parsing p b c) (conn_at (if ok then Parsing else Lost (Some r)) q bq c1)" by blast
    show ?thesis
    proof (cases ok)
      case True
      from 1(1) [OF pa refl refl req refl sr refl True] cont True
      obtain pc where "conn_runs (conn_at Parsing q bq c1) (conn_at pc p' b' c')" "status_of pc status" by auto
      with r True show ?thesis by (auto intro: rtranclp_trans)
    next
      case False
      with r cont show ?thesis by (auto intro!: exI [of _ "Lost (Some r)"])
    qed
  qed
qed

lemma handle_connection_runs:
  "handle_connection env reads p b c = Some (status, p', b', c') \<Longrightarrow>
    \<exists>pc. conn_runs (conn_at Reading p b c) (conn_at pc p' b' c') \<and> status_of pc status \<and> status \<noteq> Waiting"
proof (induction env reads p b c rule: handle_connection.induct)
  case (1 env p b c)
  then show ?case using conn_step_runs [OF conn_step.read_eof [of "fst (conn_at Reading p b c)"]]
    by (auto simp: conn_at_def intro!: exI [of _ Finished])
next
  case (2 env reads p b c)
  then show ?case using conn_step_runs [OF conn_step.read_failed [of "fst (conn_at Reading p b c)"]]
    by (auto simp: conn_at_def intro!: exI [of _ Failed])
next
  case (3 env bs reads p b c)
  show ?case
  proof (cases "bs = []")
    case True
    then show ?thesis using 3(2) conn_step_runs [OF conn_step.read_eof [of "fst (conn_at Reading p b c)"]]
      by (auto simp: conn_at_def intro!: exI [of _ Finished])
  next
    case False
    with 3(2) obtain st q bq c1 where sb: "serve_buffer env p (b @ bs) c = Some (st, q, bq, c1)"
      and cont: "(if st = Waiting then handle_connection env reads q bq c1 else Some (st, q, bq, c1)) =
        Some (status, p', b', c')"
      by (auto simp: bind_eq_Some_conv)
    have "conn_runs (conn_at Reading p b c) (conn_at Parsing p (b @ bs) c)"
      using conn_step_runs [OF conn_step.read_data [of "fst (conn_at Reading p b c)" bs]] False by (simp add: conn_at_def)
    with serve_buffer_runs [OF sb] obtain pc where pc: "conn_runs (conn_at Reading p b c) (conn_at pc q bq c1)"
      "status_of pc st" by (blast intro: rtranclp_trans)
    show ?thesis
    proof (cases "st = Waiting")
      case True
      with pc(2) have "pc = Reading" by (cases "(pc, st)" rule: status_of.cases) auto
      with 3(1) [OF False sb refl refl refl True] cont True pc(1) show ?thesis by (auto intro: rtranclp_trans)
    next
      case False
      with cont pc show ?thesis by auto
    qed
  qed
qed

abbreviation process_runs :: "process \<Rightarrow> process \<Rightarrow> bool" where
  "process_runs \<equiv> (\<lambda>s s'. \<exists>ev. process_step ev s s')\<^sup>*\<^sup>*"

definition with_conn :: "process \<Rightarrow> nat \<Rightarrow> conn \<times> memory_engine \<times> metrics \<Rightarrow> process" where
  "with_conn s i r = (case r of (c, e, m) \<Rightarrow> s\<lparr>pr_engine := e, pr_metrics := m, pr_conns := (pr_conns s)[i := c]\<rparr>)"

lemma with_conn_step:
  assumes "conn_step ev r r'" and "i < length (pr_conns s)"
  shows "process_step ev (with_conn s i r) (with_conn s i r')"
proof -
  obtain c e m where r: "r = (c, e, m)" by (cases r)
  obtain c' e' m' where r': "r' = (c', e', m')" by (cases r')
  show ?thesis
    using process_step.serve [of i "with_conn s i r" ev c' e' m'] assms by (simp add: r r' with_conn_def)
qed

lemma conn_runs_process:
  "conn_runs r r' \<Longrightarrow> i < length (pr_conns s) \<Longrightarrow> process_runs (with_conn s i r) (with_conn s i r')"
  by (induction rule: rtranclp_induct) (blast intro: with_conn_step rtranclp.rtrancl_into_rtrancl)+

lemma status_of_ended: "status_of pc status \<Longrightarrow> status \<noteq> Waiting \<Longrightarrow> ended (fst (conn_at pc p b c))"
  by (cases "(pc, status)" rule: status_of.cases) (simp_all add: ended_def conn_at_def)

lemma process_serves:
  assumes "handle_connection_with_metrics env reads (pr_engine s) (pr_metrics s) = Some (status, p, b, d)"
  shows "\<exists>c. process_runs s (s\<lparr>pr_engine := sc_engine d, pr_metrics := sc_metrics d, pr_conns := pr_conns s @ [c]\<rparr>) \<and>
    c_replies c = sc_replies d \<and> status_of (c_pc c) status \<and> ended c"
proof -
  define d0 where "d0 = \<lparr>sc_engine = pr_engine s, sc_metrics = pr_metrics s, sc_replies = []\<rparr>"
  obtain pc where pc: "conn_runs (conn_at Reading resp_parser_new [] d0) (conn_at pc p b d)"
    "status_of pc status" "status \<noteq> Waiting"
    using handle_connection_runs [of env reads resp_parser_new "[]" d0 status p b d] assms
    by (auto simp: handle_connection_with_metrics_def d0_def)
  let ?t = "s\<lparr>pr_conns := pr_conns s @ [conn_new]\<rparr>" and ?i = "length (pr_conns s)" and ?c = "fst (conn_at pc p b d)"
  have "with_conn ?t ?i (conn_at Reading resp_parser_new [] d0) = ?t"
    by (simp add: with_conn_def conn_at_def d0_def conn_new_def)
  then have "process_runs ?t (with_conn ?t ?i (conn_at pc p b d))"
    using conn_runs_process [OF pc(1), of ?i ?t] by simp
  moreover have "with_conn ?t ?i (conn_at pc p b d) =
      s\<lparr>pr_engine := sc_engine d, pr_metrics := sc_metrics d, pr_conns := pr_conns s @ [?c]\<rparr>"
    by (simp add: with_conn_def conn_at_def)
  moreover have "process_runs s ?t" using process_step.accept by blast
  ultimately have "process_runs s (s\<lparr>pr_engine := sc_engine d, pr_metrics := sc_metrics d, pr_conns := pr_conns s @ [?c]\<rparr>)"
    by (simp add: rtranclp_trans)
  then show ?thesis using pc status_of_ended [OF pc(2,3), of p b d]
    by (intro exI [of _ ?c]) (simp add: conn_at_def)
qed

end
