(* ===== verification/C_Layout.thy ===== *)
theory C_Layout
  imports HKV_Prelude
begin

text \<open>
  The memory layout of \<^verbatim>\<open>#[repr(C)]\<close> structures on the 64-bit little-endian target. A layout is a tree of
  integers, arrays and structures; \<open>c_size\<close> and \<open>c_align\<close> are \<^verbatim>\<open>size_of\<close> and \<^verbatim>\<open>align_of\<close>, \<open>c_encode\<close> is
  the memory image of a value with a chosen padding byte. Every field lies at an offset that its
  alignment divides. \<open>c_decode\<close>, which stands for no code of the repository, takes an image apart again and
  serves to show that an image determines its value, whatever the padding holds.
\<close>

section \<open>Sizes and alignments\<close>

text \<open>\<open>CInt n\<close> is an unsigned integer of \<open>n\<close> bytes, aligned to its size.\<close>

datatype c_type = CInt nat | CArr nat c_type | CStruct "c_type list"

definition round_up :: "nat \<Rightarrow> nat \<Rightarrow> nat" where
  "round_up n a = (if n mod a = 0 then n else n + (a - n mod a))"

fun c_align :: "c_type \<Rightarrow> nat" where
  "c_align (CInt n) = n"
| "c_align (CArr n t) = c_align t"
| "c_align (CStruct ts) = fold max (map c_align ts) 1"

fun c_size :: "c_type \<Rightarrow> nat" and c_end :: "nat \<Rightarrow> c_type list \<Rightarrow> nat" where
  "c_size (CInt n) = n"
| "c_size (CArr n t) = n * c_size t"
| "c_size (CStruct ts) = round_up (c_end 0 ts) (c_align (CStruct ts))"
| "c_end off [] = off"
| "c_end off (t # ts) = c_end (round_up off (c_align t) + c_size t) ts"

text \<open>The offsets of the fields of a structure.\<close>

fun c_offsets :: "nat \<Rightarrow> c_type list \<Rightarrow> nat list" where
  "c_offsets off [] = []"
| "c_offsets off (t # ts) =
     (let o' = round_up off (c_align t) in o' # c_offsets (o' + c_size t) ts)"

fun c_wf :: "c_type \<Rightarrow> bool" where
  "c_wf (CInt n) \<longleftrightarrow> 0 < n"
| "c_wf (CArr n t) \<longleftrightarrow> c_wf t"
| "c_wf (CStruct ts) \<longleftrightarrow> list_all c_wf ts"

lemma round_up_ge: "n \<le> round_up n a"
  by (simp add: round_up_def)

text \<open>Evaluation on numerals.\<close>

lemma round_up_eval [hkv_defs]:
  "round_up 0 a = 0" "round_up n 1 = n" "round_up n (Suc 0) = n"
  "round_up n (Suc (Suc 0)) = round_up n 2"
  "round_up 1 (numeral k) = numeral k"
  "round_up (numeral m) (numeral k) =
     (if numeral m mod numeral k = (0 :: nat) then numeral m else numeral m + (numeral k - numeral m mod numeral k))"
  by (simp_all add: round_up_def mod_Suc numeral_2_eq_2)

lemma round_up_dvd: "0 < a \<Longrightarrow> a dvd round_up n a"
proof -
  assume "0 < a"
  then have "n mod a < a" by simp
  moreover have "n = a * (n div a) + n mod a" by simp
  ultimately have "n + (a - n mod a) = a * (n div a) + a" by linarith
  then show ?thesis by (auto simp: round_up_def dvd_add mod_eq_0_iff_dvd)
qed

lemma c_align_pos: "c_wf t \<Longrightarrow> 0 < c_align t"
proof (induction t)
  case (CStruct ts)
  have "a \<le> fold max xs a" for a and xs :: "nat list"
    by (induction xs arbitrary: a) (auto intro: order_trans [OF max.cobounded2])
  from this [of 1 "map c_align ts"] show ?case by simp
qed simp_all

lemma c_align_dvd_size: "c_wf t \<Longrightarrow> c_align t dvd c_size t"
proof (induction t)
  case (CStruct ts)
  then show ?case using round_up_dvd c_align_pos by (metis c_size.simps(3))
qed simp_all

text \<open>Fields are aligned, follow one another without overlap, and end before the structure does.\<close>

lemma c_end_ge: "off \<le> c_end off ts"
proof (induction ts arbitrary: off)
  case (Cons t ts)
  show ?case
    using round_up_ge [of off "c_align t"] Cons.IH [of "round_up off (c_align t) + c_size t"] by simp
qed simp

lemma c_offsets_length [simp]: "length (c_offsets off ts) = length ts"
  by (induction ts arbitrary: off) (simp_all add: Let_def)

lemma c_offsets_aligned:
  "list_all c_wf ts \<Longrightarrow> i < length ts \<Longrightarrow> c_align (ts ! i) dvd c_offsets off ts ! i"
proof (induction ts arbitrary: off i)
  case (Cons t ts)
  then show ?case by (cases i) (simp_all add: Let_def round_up_dvd c_align_pos)
qed simp

lemma c_offsets_disjoint:
  "i < length ts \<Longrightarrow> off \<le> c_offsets off ts ! i \<and> c_offsets off ts ! i + c_size (ts ! i) \<le> c_end off ts \<and>
    (\<forall>j. i < j \<longrightarrow> j < length ts \<longrightarrow> c_offsets off ts ! i + c_size (ts ! i) \<le> c_offsets off ts ! j)"
proof (induction ts arbitrary: off i)
  case (Cons t ts)
  let ?o = "round_up off (c_align t)"
  show ?case
  proof (cases i)
    case 0
    have "\<forall>j. 0 < j \<longrightarrow> j < Suc (length ts) \<longrightarrow> ?o + c_size t \<le> c_offsets (?o + c_size t) ts ! (j - 1)"
      using Cons.IH [of _ "?o + c_size t"] by auto
    with 0 show ?thesis
      using round_up_ge [of off "c_align t"] c_end_ge [of "?o + c_size t" ts] by (simp add: Let_def)
  next
    case (Suc m)
    with Cons.prems have m: "m < length ts" by simp
    note IH = Cons.IH [OF m, of "?o + c_size t"]
    have "c_offsets (?o + c_size t) ts ! m + c_size (ts ! m) \<le> c_offsets (?o + c_size t) ts ! (j - 1)"
      if "Suc m < j" "j < Suc (length ts)" for j
      using IH that by (cases j) auto
    with IH Suc show ?thesis
      using round_up_ge [of off "c_align t"] by (auto simp: Let_def nth_Cons')
  qed
qed simp

section \<open>Memory images\<close>

datatype c_val = VInt nat | VList "c_val list"

fun le_bytes :: "nat \<Rightarrow> nat \<Rightarrow> bytes" where
  "le_bytes 0 w = []"
| "le_bytes (Suc n) w = of_nat (w mod 256) # le_bytes n (w div 256)"

fun le_value :: "bytes \<Rightarrow> nat" where
  "le_value [] = 0"
| "le_value (b # bs) = unat b + 256 * le_value bs"

lemma le_bytes_length [simp]: "length (le_bytes n w) = n"
  by (induction n arbitrary: w) simp_all

lemma le_value_bytes: "w < 256 ^ n \<Longrightarrow> le_value (le_bytes n w) = w"
proof (induction n arbitrary: w)
  case (Suc n)
  then have "w div 256 < 256 ^ n" by (simp add: less_mult_imp_div_less mult.commute)
  with Suc.IH show ?case by (simp add: unat_of_nat)
qed simp

fun c_typed :: "c_type \<Rightarrow> c_val \<Rightarrow> bool" where
  "c_typed (CInt n) (VInt w) \<longleftrightarrow> w < 256 ^ n"
| "c_typed (CArr n t) (VList vs) \<longleftrightarrow> length vs = n \<and> list_all (c_typed t) vs"
| "c_typed (CStruct ts) (VList vs) \<longleftrightarrow> list_all2 c_typed ts vs"
| "c_typed _ _ \<longleftrightarrow> False"

fun c_encode :: "byte \<Rightarrow> c_type \<Rightarrow> c_val \<Rightarrow> bytes"
  and c_fields :: "byte \<Rightarrow> nat \<Rightarrow> c_type list \<Rightarrow> c_val list \<Rightarrow> bytes" where
  "c_encode pad (CInt n) (VInt w) = le_bytes n w"
| "c_encode pad (CArr n t) (VList vs) = concat (map (c_encode pad t) vs)"
| "c_encode pad (CStruct ts) (VList vs) =
     c_fields pad 0 ts vs @ replicate (c_size (CStruct ts) - c_end 0 ts) pad"
| "c_encode pad _ _ = []"
| "c_fields pad off (t # ts) (v # vs) =
     replicate (round_up off (c_align t) - off) pad @ c_encode pad t v @
     c_fields pad (round_up off (c_align t) + c_size t) ts vs"
| "c_fields pad off _ _ = []"

text \<open>
  The inverse of \<open>c_encode\<close>, for the proof that images are distinct: \<open>c_decode t\<close> reads a value of layout \<open>t\<close>
  from the start of the memory it is given.
\<close>

fun c_decode :: "c_type \<Rightarrow> bytes \<Rightarrow> c_val"
  and c_items :: "nat \<Rightarrow> c_type \<Rightarrow> bytes \<Rightarrow> c_val list"
  and c_slots :: "nat \<Rightarrow> c_type list \<Rightarrow> bytes \<Rightarrow> c_val list" where
  "c_decode (CInt n) bs = VInt (le_value (take n bs))"
| "c_decode (CArr n t) bs = VList (c_items n t bs)"
| "c_decode (CStruct ts) bs = VList (c_slots 0 ts bs)"
| "c_items 0 t bs = []"
| "c_items (Suc n) t bs = c_decode t bs # c_items n t (drop (c_size t) bs)"
| "c_slots off [] bs = []"
| "c_slots off (t # ts) bs =
     (let pad = round_up off (c_align t) - off in
      c_decode t (drop pad bs) #
      c_slots (round_up off (c_align t) + c_size t) ts (drop (pad + c_size t) bs))"

lemma c_fields_length:
  "list_all2 c_typed ts vs \<Longrightarrow>
    (\<And>t v. t \<in> set ts \<Longrightarrow> c_typed t v \<Longrightarrow> length (c_encode pad t v) = c_size t) \<Longrightarrow>
    off + length (c_fields pad off ts vs) = c_end off ts"
proof (induction ts vs arbitrary: off rule: list_all2_induct)
  case (Cons t ts v vs)
  let ?o = "round_up off (c_align t)"
  have "?o + c_size t + length (c_fields pad (?o + c_size t) ts vs) = c_end (?o + c_size t) ts"
    using Cons by simp
  moreover have "length (c_encode pad t v) = c_size t" using Cons by simp
  ultimately show ?case using round_up_ge [of off "c_align t"] by simp
qed simp

lemma c_encode_length: "c_typed t v \<Longrightarrow> length (c_encode pad t v) = c_size t"
proof (induction t arbitrary: v)
  case (CInt n)
  then show ?case by (cases v) simp_all
next
  case (CArr n t)
  then obtain vs where vs: "v = VList vs" "length vs = n" "list_all (c_typed t) vs" by (cases v) auto
  have "list_all (c_typed t) vs \<Longrightarrow> length (concat (map (c_encode pad t) vs)) = length vs * c_size t"
    by (induction vs) (simp_all add: CArr.IH)
  with vs show ?case by simp
next
  case (CStruct ts)
  then obtain vs where vs: "v = VList vs" "list_all2 c_typed ts vs" by (cases v) auto
  have "length (c_fields pad 0 ts vs) = c_end 0 ts"
    using c_fields_length [OF vs(2), of pad 0] CStruct.IH by simp
  with vs show ?case using round_up_ge [of "c_end 0 ts" "c_align (CStruct ts)"] by simp
qed

lemma c_slots_fields:
  "list_all2 c_typed ts vs \<Longrightarrow>
    (\<And>t v rest. t \<in> set ts \<Longrightarrow> c_typed t v \<Longrightarrow> c_decode t (c_encode pad t v @ rest) = v) \<Longrightarrow>
    c_slots off ts (c_fields pad off ts vs @ rest) = vs"
proof (induction ts vs arbitrary: off rule: list_all2_induct)
  case (Cons t ts v vs)
  let ?o = "round_up off (c_align t)"
  have "c_slots (?o + c_size t) ts (c_fields pad (?o + c_size t) ts vs @ rest) = vs"
    using Cons by simp
  moreover have "c_decode t (c_encode pad t v @ c_fields pad (?o + c_size t) ts vs @ rest) = v"
    using Cons by simp
  ultimately show ?case using Cons.hyps(1) by (simp add: Let_def c_encode_length)
qed simp

lemma c_decode_encode: "c_typed t v \<Longrightarrow> c_decode t (c_encode pad t v @ rest) = v"
proof (induction t arbitrary: v rest)
  case (CInt n)
  then show ?case by (cases v) (simp_all add: le_value_bytes)
next
  case (CArr n t)
  then obtain vs where vs: "v = VList vs" "length vs = n" "list_all (c_typed t) vs" by (cases v) auto
  have "list_all (c_typed t) vs \<Longrightarrow> c_items (length vs) t (concat (map (c_encode pad t) vs) @ rest) = vs"
    by (induction vs) (simp_all add: CArr.IH c_encode_length)
  with vs show ?case by simp
next
  case (CStruct ts)
  then obtain vs where vs: "v = VList vs" "list_all2 c_typed ts vs" by (cases v) auto
  have "c_slots 0 ts (c_fields pad 0 ts vs @ more) = vs" for more
    by (rule c_slots_fields [OF vs(2)]) (simp add: CStruct.IH)
  with vs show ?case by simp
qed

end
