(* ===== verification/Bench_Engine.thy ===== *)
theory Bench_Engine
  imports KV_Trait Metrics C_Layout Utf8_Text
begin

text \<open>
  The benchmark harness of the engine (\<^verbatim>\<open>hkv-engine/src/bin/bench_engine.rs\<close>): its configuration,
  its pseudo-random generator, the keys and values it prepares, and its three phases. The theorems
  say that the generator never gets stuck, that the prepared keys are distinct when there are enough
  bytes for them, and that a run ends without a panic and finds every key it looks up.

  The instants that the harness and the engine read are the argument \<open>clk\<close>, in the order of the readings;
  \<open>alloc\<close> says which allocations of buffers succeed, by their size in bytes, and \<open>alloc_shards\<close> for how many
  shards the engine can allocate its vector. \<open>argv\<close> is the argument vector of the process.
\<close>

unbundle bit_operations_syntax

section \<open>Configuration\<close>

definition DEFAULT_KEY_COUNT :: usize where
  "DEFAULT_KEY_COUNT = push_bit 16 1"

definition DEFAULT_OP_COUNT :: usize where
  "DEFAULT_OP_COUNT = 1000000"

definition DEFAULT_KEY_SIZE :: usize where
  "DEFAULT_KEY_SIZE = 16"

definition DEFAULT_VALUE_SIZE :: usize where
  "DEFAULT_VALUE_SIZE = 128"

record BenchConfig =
  bc_requested_keys :: usize
  bc_key_count :: usize
  bc_key_mask :: usize
  bc_op_count :: usize
  bc_key_size :: usize
  bc_value_size :: usize

text \<open>
  \<^verbatim>\<open>str::parse::<usize>\<close>: an optional plus sign and at least one digit, refused when the number has
  more than 64 bits.
\<close>

definition usize_from_str :: "bytes \<Rightarrow> usize option" where
  "usize_from_str raw =
     (let digits = (case raw of [] \<Rightarrow> [] | b # bs \<Rightarrow> if b = 43 then bs else raw) in
      if digits = [] \<or> \<not> list_all is_digit digits \<or> dec_value digits > u64_max then None
      else Some (of_nat (dec_value digits)))"

definition bench_parse_usize :: "bytes option \<Rightarrow> usize \<Rightarrow> usize" where
  "bench_parse_usize value fallback =
     (case Option.bind value usize_from_str of Some n \<Rightarrow> n | None \<Rightarrow> fallback)"

definition is_power_of_two :: "usize \<Rightarrow> bool" where
  "is_power_of_two w = list_ex (\<lambda>n. w = 2 ^ n) [0..<64]"

definition normalize_power_of_two :: "usize \<Rightarrow> usize" where
  "normalize_power_of_two value =
     (let value = max value 1 in
      if is_power_of_two value then value else next_power_of_two value)"

text \<open>
  \<^verbatim>\<open>Args::next\<close>: the next argument of the process, and a panic if its bytes are not valid UTF-8, which is
  when the lossy decoding has something to replace. \<^verbatim>\<open>skip(1)\<close> takes the program's name the same way.
\<close>

definition next_arg :: "bytes list \<Rightarrow> (bytes option \<times> bytes list) exec" where
  "next_arg args = (case args of
     [] \<Rightarrow> Some (None, [])
   | a # as \<Rightarrow> if from_utf8_lossy a = a then Some (Some a, as) else None)"

definition from_args :: "bytes list \<Rightarrow> BenchConfig exec" where
  "from_args argv = do {
     (_, args) \<leftarrow> next_arg argv;
     (a, args) \<leftarrow> next_arg args;
     let requested_keys = bench_parse_usize a DEFAULT_KEY_COUNT;
     (a, args) \<leftarrow> next_arg args;
     let op_count = bench_parse_usize a DEFAULT_OP_COUNT;
     (a, args) \<leftarrow> next_arg args;
     let key_size = bench_parse_usize a DEFAULT_KEY_SIZE;
     (a, args) \<leftarrow> next_arg args;
     let value_size = bench_parse_usize a DEFAULT_VALUE_SIZE;
     let key_count = normalize_power_of_two requested_keys;
     let key_mask = key_count - 1;
     Some \<lparr>bc_requested_keys = requested_keys, bc_key_count = key_count, bc_key_mask = key_mask,
       bc_op_count = op_count, bc_key_size = key_size, bc_value_size = value_size\<rparr>
   }"

section \<open>The generator\<close>

record XorShift64 =
  x_state :: u64

definition xorshift_new :: "u64 \<Rightarrow> XorShift64" where
  "xorshift_new seed = \<lparr>x_state = seed\<rparr>"

definition next_u64 :: "XorShift64 \<Rightarrow> u64 \<times> XorShift64" where
  "next_u64 r =
     (let x = x_state r;
          x = x XOR push_bit 13 x;
          x = x XOR drop_bit 7 x;
          x = x XOR push_bit 17 x
      in (x, r\<lparr>x_state := x\<rparr>))"

definition next_index :: "XorShift64 \<Rightarrow> usize \<Rightarrow> usize \<times> XorShift64" where
  "next_index r m = (let (x, r) = next_u64 r in (x AND m, r))"

section \<open>Keys and values\<close>

definition write_u64_le :: "u64 \<Rightarrow> bytes \<Rightarrow> bytes" where
  "write_u64_le value buffer =
     (let bs = le_bytes 8 (unat value);
          copy_len = min (length buffer) (length bs)
      in take copy_len bs @ drop copy_len buffer)"

fun build_from :: "(nat \<Rightarrow> bool) \<Rightarrow> usize \<Rightarrow> u64 \<Rightarrow> nat list \<Rightarrow> bytes list exec" where
  "build_from alloc sz seed [] = Some []"
| "build_from alloc sz seed (i # is) =
     (if \<not> alloc (unat sz) then None
      else do {
        let buffer = write_u64_le (seed XOR of_nat i) (replicate (unat sz) 0);
        buffers \<leftarrow> build_from alloc sz seed is;
        Some (buffer # buffers)
      })"

text \<open>The vector of buffers takes 24 bytes for each of them.\<close>

definition build_buffers :: "(nat \<Rightarrow> bool) \<Rightarrow> usize \<Rightarrow> usize \<Rightarrow> u64 \<Rightarrow> bytes list exec" where
  "build_buffers alloc cnt sz seed =
     (if \<not> alloc (24 * unat cnt) then None else build_from alloc sz seed [0..<unat cnt])"

section \<open>The run\<close>

text \<open>The loading loop, over the indices that are left; \<open>t\<close> counts the clock's readings.\<close>

fun load_all ::
    "(nat \<Rightarrow> instant) \<Rightarrow> bytes list \<Rightarrow> bytes list \<Rightarrow> nat list \<Rightarrow> nat \<Rightarrow> memory_engine \<Rightarrow>
      (unit HkvResult \<times> nat \<times> memory_engine) exec" where
  "load_all clk ks vs [] t e = Some (Inr (), t, e)"
| "load_all clk ks vs (idx # is) t e = do {
     k \<leftarrow> index_at ks idx;
     v \<leftarrow> index_at vs idx;
     (r, e) \<leftarrow> kv_set e (clk t) k v;
     (case r of
        Inl err \<Rightarrow> Some (Inl err, t + 1, e)
      | Inr _ \<Rightarrow> load_all clk ks vs is (t + 1) e)
   }"

text \<open>The GET loop; its result is the values it passes to \<^verbatim>\<open>black_box\<close>.\<close>

fun get_phase ::
    "(nat \<Rightarrow> instant) \<Rightarrow> bytes list \<Rightarrow> usize \<Rightarrow> nat \<Rightarrow> XorShift64 \<Rightarrow> nat \<Rightarrow> memory_engine \<Rightarrow>
      (bytes option list HkvResult \<times> nat \<times> memory_engine) exec" where
  "get_phase clk ks m 0 rng t e = Some (Inr [], t, e)"
| "get_phase clk ks m (Suc ops) rng t e = do {
     let (idx, rng) = next_index rng m;
     k \<leftarrow> index_at ks (unat idx);
     (r, e) \<leftarrow> kv_get e (clk t) k;
     (case r of
        Inl err \<Rightarrow> Some (Inl err, t + 1, e)
      | Inr value \<Rightarrow> do {
          (r, t, e) \<leftarrow> get_phase clk ks m ops rng (t + 1) e;
          Some (map_sum id (\<lambda>seen. value # seen) r, t, e)
        })
   }"

fun set_phase ::
    "(nat \<Rightarrow> instant) \<Rightarrow> bytes list \<Rightarrow> bytes list \<Rightarrow> usize \<Rightarrow> nat \<Rightarrow> XorShift64 \<Rightarrow> nat \<Rightarrow> memory_engine \<Rightarrow>
      (unit HkvResult \<times> nat \<times> memory_engine) exec" where
  "set_phase clk ks vs m 0 rng t e = Some (Inr (), t, e)"
| "set_phase clk ks vs m (Suc ops) rng t e = do {
     let (idx, rng) = next_index rng m;
     value \<leftarrow> index_at vs (unat idx);
     let value = (case value of [] \<Rightarrow> [] | b # bs \<Rightarrow> (b XOR 0xFF) # bs);
     k \<leftarrow> index_at ks (unat idx);
     (r, e) \<leftarrow> kv_set e (clk t) k value;
     (case r of
        Inl err \<Rightarrow> Some (Inl err, t + 1, e)
      | Inr _ \<Rightarrow> set_phase clk ks vs m ops rng (t + 1) e)
   }"

text \<open>What is printed: the configuration, and a line for each of the two measured phases.\<close>

definition usize_text :: "usize \<Rightarrow> bytes" where
  "usize_text w = dec_digits (unat w)"

definition config_line :: "BenchConfig \<Rightarrow> bytes" where
  "config_line config =
     ascii ''keys: requested='' @ usize_text (bc_requested_keys config) @
     ascii '', actual='' @ usize_text (bc_key_count config) @
     ascii '', ops='' @ usize_text (bc_op_count config) @
     ascii '', key_size='' @ usize_text (bc_key_size config) @
     ascii '', value_size='' @ usize_text (bc_value_size config) @ [10]"

definition report :: "string \<Rightarrow> usize \<Rightarrow> duration \<Rightarrow> bytes" where
  "report label ops d =
     (let secs = as_secs_f64 d;
          ops_per_sec = f64_quot (f64_of_u64 ops) secs;
          nanos_per_op = f64_quot (f64_mul secs 1000000000) (f64_of_u64 ops)
      in ascii label @ ascii '': '' @ usize_text ops @ ascii '' ops in '' @ fmt_fixed 3 secs @ ascii ''s ('' @
         fmt_quotient 0 ops_per_sec @ ascii '' ops/s, '' @ fmt_quotient 1 nanos_per_op @ ascii '' ns/op)'' @ [10])"

definition bench_run ::
    "(nat \<Rightarrow> bool) \<Rightarrow> (nat \<Rightarrow> bool) \<Rightarrow> (nat \<Rightarrow> instant) \<Rightarrow> (bytes \<Rightarrow> u64) \<Rightarrow> usize option \<Rightarrow> bytes list \<Rightarrow>
      (bytes option list HkvResult \<times> bytes \<times> memory_engine) exec" where
  "bench_run alloc alloc_shards clk hash_state parallelism argv = do {
     config \<leftarrow> from_args argv;
     engine \<leftarrow> engine_new alloc_shards hash_state parallelism;
     ks \<leftarrow> build_buffers alloc (bc_key_count config) (bc_key_size config) 0xA5A5A5A5A5A5A5A5;
     vs \<leftarrow> build_buffers alloc (bc_key_count config) (bc_value_size config) 0x5A5A5A5A5A5A5A5A;
     (r, t, engine) \<leftarrow> load_all clk ks vs [0..<unat (bc_key_count config)] 0 engine;
     (case r of
        Inl err \<Rightarrow> Some (Inl err, [], engine)
      | Inr _ \<Rightarrow> do {
          let out = config_line config;
          let rng = xorshift_new 0x123456789ABCDEF0;
          let start = clk t;
          (r, t, engine) \<leftarrow> get_phase clk ks (bc_key_mask config) (unat (bc_op_count config)) rng (t + 1) engine;
          (case r of
             Inl err \<Rightarrow> Some (Inl err, out, engine)
           | Inr seen \<Rightarrow> do {
               let out = out @ report ''GET'' (bc_op_count config) (elapsed start (clk t));
               let rng = xorshift_new 0x0FEDCBA987654321;
               let start = clk (t + 1);
               (r, t, engine) \<leftarrow>
                 set_phase clk ks vs (bc_key_mask config) (unat (bc_op_count config)) rng (t + 2) engine;
               (case r of
                  Inl err \<Rightarrow> Some (Inl err, out, engine)
                | Inr _ \<Rightarrow> Some (Inr seen, out @ report ''SET'' (bc_op_count config) (elapsed start (clk t)), engine))
             })
        })
   }"

text \<open>\<^verbatim>\<open>main\<close>: the exit code, what is printed, and the message of a failure.\<close>

definition bench_main ::
    "(nat \<Rightarrow> bool) \<Rightarrow> (nat \<Rightarrow> bool) \<Rightarrow> (nat \<Rightarrow> instant) \<Rightarrow> (bytes \<Rightarrow> u64) \<Rightarrow> usize option \<Rightarrow> bytes list \<Rightarrow>
      (nat \<times> bytes \<times> bytes) exec" where
  "bench_main alloc alloc_shards clk hash_state parallelism argv = do {
     (r, out, _) \<leftarrow> bench_run alloc alloc_shards clk hash_state parallelism argv;
     Some (case r of
         Inl err \<Rightarrow> (1, out, ascii ''bench_engine failed: '' @ ascii (error_label err) @ [10])
       | Inr _ \<Rightarrow> (0, out, []))
   }"

section \<open>The generator is a permutation of the nonzero states\<close>

lemma xor_push_inject:
  fixes x y :: "'a::len word"
  assumes "0 < k" and "x XOR push_bit k x = y XOR push_bit k y"
  shows "x = y"
proof (rule bit_word_eqI)
  fix n assume "n < LENGTH('a)"
  then show "bit x n \<longleftrightarrow> bit y n"
  proof (induction n rule: less_induct)
    case (less n)
    have "bit (x XOR push_bit k x) n = bit (y XOR push_bit k y) n" by (simp add: assms(2))
    with less assms(1) show ?case by (cases "k \<le> n") (auto simp: bit_xor_iff bit_push_bit_iff)
  qed
qed

lemma xor_drop_inject:
  fixes x y :: "'a::len word"
  assumes "0 < k" and "x XOR drop_bit k x = y XOR drop_bit k y"
  shows "x = y"
proof (rule bit_word_eqI)
  fix n
  show "bit x n \<longleftrightarrow> bit y n"
  proof (induction "LENGTH('a) - n" arbitrary: n rule: less_induct)
    case less
    have "bit (x XOR drop_bit k x) n = bit (y XOR drop_bit k y) n" by (simp add: assms(2))
    moreover have "bit x (k + n) \<longleftrightarrow> bit y (k + n)"
    proof (cases "n < LENGTH('a)")
      case True
      then show ?thesis using assms(1) by (intro less) simp
    next
      case False
      then have "LENGTH('a) \<le> k + n" by simp
      then show ?thesis using bit_imp_le_length [of x "k + n"] bit_imp_le_length [of y "k + n"] by auto
    qed
    ultimately show ?case by (auto simp: bit_xor_iff bit_drop_bit_eq)
  qed
qed

lemma next_u64_inject:
  assumes "snd (next_u64 r) = snd (next_u64 s)"
  shows "r = s"
proof -
  let ?a = "\<lambda>q. x_state q XOR push_bit 13 (x_state q)"
  let ?b = "\<lambda>q. ?a q XOR drop_bit 7 (?a q)"
  have out: "x_state (snd (next_u64 q)) = ?b q XOR push_bit 17 (?b q)" for q
    by (simp add: next_u64_def Let_def)
  have "?b r XOR push_bit 17 (?b r) = ?b s XOR push_bit 17 (?b s)"
    unfolding out [symmetric] by (simp only: assms)
  then have "?b r = ?b s" by (rule xor_push_inject [rotated]) simp
  then have "?a r = ?a s" by (rule xor_drop_inject [rotated]) simp
  then have "x_state r = x_state s" by (rule xor_push_inject [rotated]) simp
  then show ?thesis by simp
qed

lemma next_u64_zero: "snd (next_u64 \<lparr>x_state = 0\<rparr>) = \<lparr>x_state = 0\<rparr>"
  by (simp add: next_u64_def)

lemma next_u64_nonzero: "x_state r \<noteq> 0 \<Longrightarrow> x_state (snd (next_u64 r)) \<noteq> 0"
  using next_u64_inject [of r "\<lparr>x_state = 0\<rparr>"] next_u64_zero by (metis XorShift64.cases XorShift64.select_convs(1))

lemma states_nonzero: "x_state r \<noteq> 0 \<Longrightarrow> x_state (((\<lambda>r. snd (next_u64 r)) ^^ n) r) \<noteq> 0"
  by (induction n) (simp_all add: next_u64_nonzero)

lemma finite_states: "finite (UNIV :: XorShift64 set)"
proof (rule finite_surj)
  show "finite (UNIV :: u64 set)" by simp
  show "UNIV \<subseteq> range xorshift_new"
    by (metis XorShift64.cases subsetI rangeI xorshift_new_def)
qed

lemma states_return: "\<exists>n>0. ((\<lambda>r. snd (next_u64 r)) ^^ n) r = r"
proof -
  have "inj (\<lambda>r. snd (next_u64 r))" by (auto intro: injI next_u64_inject)
  then show ?thesis
    by (rule funpow_inj_finite) (auto intro: finite_subset [OF subset_UNIV finite_states])
qed

lemma next_index_bound: "n < 64 \<Longrightarrow> unat (fst (next_index r (2 ^ n - 1))) < 2 ^ n"
  by (simp add: next_index_def case_prod_beta take_bit_eq_mask [symmetric] mask_eq_exp_minus_1 [symmetric]
      unsigned_take_bit_eq)

section \<open>The prepared buffers\<close>

definition bench_buffer :: "u64 \<Rightarrow> nat \<Rightarrow> nat \<Rightarrow> bytes" where
  "bench_buffer seed sz i = write_u64_le (seed XOR of_nat i) (replicate sz 0)"

lemma build_from_ok:
  "is = [] \<or> alloc (unat sz) \<Longrightarrow> build_from alloc sz seed is = Some (map (bench_buffer seed (unat sz)) is)"
  by (induction "is") (auto simp: bench_buffer_def)

lemma take_le_bytes: "m \<le> n \<Longrightarrow> take m (le_bytes n w) = le_bytes m w"
proof (induction n arbitrary: m w)
  case (Suc n)
  then show ?case by (cases m) simp_all
qed simp

lemma bench_buffer_eq: "bench_buffer seed sz i =
    le_bytes (min sz 8) (unat (seed XOR of_nat i :: u64)) @ replicate (sz - 8) 0"
  by (simp add: bench_buffer_def write_u64_le_def take_le_bytes min_def)

lemma le_value_le_bytes: "le_value (le_bytes n w) = w mod 256 ^ n"
proof (induction n arbitrary: w)
  case (Suc n)
  then show ?case by (simp add: unat_of_nat mod_mult2_eq)
qed simp

lemma bench_buffer_inject:
  assumes "i < 256 ^ min sz 8" and "j < 256 ^ min sz 8" and "bench_buffer seed sz i = bench_buffer seed sz j"
  shows "i = j"
proof -
  define m where "m = min sz 8"
  have "8 * m \<le> 64" by (simp add: m_def)
  then have "(2 :: nat) ^ (8 * m) \<le> 2 ^ 64" by (rule power_increasing) simp
  then have b: "(256 :: nat) ^ m = 2 ^ (8 * m)" "(2 :: nat) ^ (8 * m) \<le> 2 ^ 64"
    by (simp_all add: power_mult)
  have small: "i < 2 ^ (8 * m)" "j < 2 ^ (8 * m)" using assms(1,2) b(1) by (simp_all add: m_def)
  have u: "unat (seed XOR of_nat k :: u64) = unat seed XOR k" if "k < 2 ^ (8 * m)" for k
    using that b(2) by (simp add: unsigned_xor_eq unat_of_nat take_bit_nat_eq_self)
  have "le_bytes m (unat (seed XOR of_nat i :: u64)) = le_bytes m (unat (seed XOR of_nat j :: u64))"
    using assms(3) by (simp add: bench_buffer_eq m_def)
  then have "unat (seed XOR of_nat i :: u64) mod 256 ^ m = unat (seed XOR of_nat j :: u64) mod 256 ^ m"
    unfolding le_value_le_bytes [symmetric] by (rule arg_cong)
  then have "take_bit (8 * m) (unat seed XOR i) = take_bit (8 * m) (unat seed XOR j)"
    by (simp only: u [OF small(1)] u [OF small(2)] b(1) take_bit_eq_mod)
  then have "take_bit (8 * m) (unat seed) XOR i = take_bit (8 * m) (unat seed) XOR j"
    using small by (simp add: take_bit_nat_eq_self)
  then have "s XOR (s XOR i) = s XOR (s XOR j)" if "s = take_bit (8 * m) (unat seed)" for s
    using that by simp
  then show ?thesis by (simp flip: xor.assoc)
qed

section \<open>The run\<close>

text \<open>The engine of the harness has no byte limit, and no entry of it has a deadline.\<close>

definition permanent :: "kv_view \<Rightarrow> bool" where
  "permanent m \<longleftrightarrow> (\<forall>k v d. m k = Some (v, d) \<longrightarrow> d = None)"

lemma permanent_upd: "permanent m \<Longrightarrow> permanent (m(k \<mapsto> (v, None)))"
  by (auto simp: permanent_def)

lemma permanent_live: "permanent m \<Longrightarrow> live_at now m = m"
  by (auto simp: permanent_def live_at_def fun_eq_iff expired_at_def split: option.splits)

lemma permanent_submap: "permanent m \<Longrightarrow> n \<subseteq>\<^sub>m m \<Longrightarrow> permanent n"
  unfolding permanent_def map_le_iff by blast

lemma bench_get:
  assumes "unbounded_inv e" and "permanent (view e)"
  shows "\<exists>e'. kv_get e now k = Some (Inr (map_option fst (view e k)), e') \<and> unbounded_inv e' \<and> view e' = view e"
proof -
  have "engine_inv e" using assms(1) by (simp add: unbounded_inv_def)
  from kv_get_law [OF this, of now k] obtain e' where
    e': "kv_get e now k = Some (Inr (map_option fst (live_at now (view e) k)), e')" "engine_inv e'"
      "same_config e e'" "live_eq now (view e') (view e)" "view e' \<subseteq>\<^sub>m view e" by blast
  have "view e' = view e"
    using live_eq_now [OF e'(4)] permanent_live [OF assms(2)] permanent_live [OF permanent_submap [OF assms(2) e'(5)]]
    by simp
  with e' same_config_unbounded [OF e'(3,2) assms(1)] permanent_live [OF assms(2)] show ?thesis by auto
qed

lemma bench_set:
  assumes "unbounded_inv e"
  shows "\<exists>e'. kv_set e now k v = Some (Inr (), e') \<and> unbounded_inv e' \<and> view e' = (view e)(k \<mapsto> (v, None))"
  using memory_unbounded.set_law [OF assms, of now k v] memory_unbounded.set_keeps [OF assms, of now k v] by auto

text \<open>The loading loop stores the buffers in the order of their indices.\<close>

lemma load_all_ok:
  "unbounded_inv e \<Longrightarrow> \<forall>i\<in>set is. i < length ks \<and> i < length vs \<Longrightarrow>
    \<exists>t' e'. load_all clk ks vs is t e = Some (Inr (), t', e') \<and> unbounded_inv e' \<and>
      view e' = fold (\<lambda>i m. m(ks ! i \<mapsto> (vs ! i, None))) is (view e)"
proof (induction "is" arbitrary: t e)
  case (Cons i "is")
  from bench_set [OF Cons.prems(1), of "clk t" "ks ! i" "vs ! i"] obtain e1 where
    e1: "kv_set e (clk t) (ks ! i) (vs ! i) = Some (Inr (), e1)" "unbounded_inv e1"
      "view e1 = (view e)(ks ! i \<mapsto> (vs ! i, None))" by blast
  from Cons.IH [OF e1(2), of "t + 1"] Cons.prems(2) e1 show ?case by simp
qed simp

lemma fold_upd_permanent: "permanent m \<Longrightarrow> permanent (fold (\<lambda>i m. m(f i \<mapsto> (g i, None))) is m)"
  by (induction "is" arbitrary: m) (simp_all add: permanent_upd)

lemma fold_upd_dom: "dom (fold (\<lambda>i m. m(f i \<mapsto> g i)) is m) = dom m \<union> f ` set is"
  by (induction "is" arbitrary: m) auto

lemma fold_upd_value: "fold (\<lambda>i m. m(f i \<mapsto> g i)) is m k = Some x \<Longrightarrow> m k = Some x \<or> (\<exists>i\<in>set is. k = f i \<and> x = g i)"
  by (induction "is" arbitrary: m) (fastforce split: if_splits)+

definition loaded :: "bytes list \<Rightarrow> bytes list \<Rightarrow> kv_view" where
  "loaded ks vs = fold (\<lambda>i m. m(ks ! i \<mapsto> (vs ! i, None))) [0..<length ks] Map.empty"

lemma loaded_permanent: "permanent (loaded ks vs)"
  unfolding loaded_def by (rule fold_upd_permanent) (simp add: permanent_def)

lemma loaded_dom: "dom (loaded ks vs) = set ks"
  by (simp add: loaded_def fold_upd_dom nth_image)

lemma loaded_value:
  assumes "length ks = length vs" and "k \<in> set ks"
  shows "map_option fst (loaded ks vs k) \<in> Some ` set vs"
proof -
  obtain x where x: "loaded ks vs k = Some x" using loaded_dom [of ks vs] assms(2) by blast
  then obtain i where "i < length ks" "x = (vs ! i, None)"
    using fold_upd_value [of "\<lambda>i. ks ! i" "\<lambda>i. (vs ! i, None)" "[0..<length ks]" Map.empty k x]
    by (auto simp: loaded_def)
  with x assms(1) show ?thesis by simp
qed

lemma load_buffers:
  assumes "unbounded_inv e" and "view e = Map.empty" and "length ks = length vs"
  shows "\<exists>t' e'. load_all clk ks vs [0..<length ks] t e = Some (Inr (), t', e') \<and> unbounded_inv e' \<and>
    view e' = loaded ks vs"
  using load_all_ok [OF assms(1), of "[0..<length ks]" ks vs clk t] assms(2,3) by (simp add: loaded_def)

text \<open>The values read are values stored under the keys.\<close>

lemma get_phase_ok:
  "n < 64 \<Longrightarrow> length ks = 2 ^ n \<Longrightarrow> unbounded_inv e \<Longrightarrow> permanent (view e) \<Longrightarrow> set ks \<subseteq> dom (view e) \<Longrightarrow>
    \<exists>seen t' e'. get_phase clk ks (2 ^ n - 1) ops rng t e = Some (Inr seen, t', e') \<and> unbounded_inv e' \<and>
      view e' = view e \<and> length seen = ops \<and> set seen \<subseteq> (\<lambda>k. map_option fst (view e k)) ` set ks"
proof (induction ops arbitrary: rng t e)
  case (Suc ops)
  obtain idx rng1 where idx: "next_index rng (2 ^ n - 1) = (idx, rng1)" by fastforce
  have i: "unat idx < length ks" using next_index_bound [OF Suc.prems(1), of rng] idx Suc.prems(2) by simp
  from bench_get [OF Suc.prems(3,4), of "clk t" "ks ! unat idx"] obtain e1 where
    e1: "kv_get e (clk t) (ks ! unat idx) = Some (Inr (map_option fst (view e (ks ! unat idx))), e1)"
      "unbounded_inv e1" "view e1 = view e" by blast
  from Suc.IH [OF Suc.prems(1,2) e1(2), of rng1 "t + 1"] Suc.prems(4,5) e1(3) obtain seen t' e' where
    "get_phase clk ks (2 ^ n - 1) ops rng1 (t + 1) e1 = Some (Inr seen, t', e')" "unbounded_inv e'"
    "view e' = view e" "length seen = ops" "set seen \<subseteq> (\<lambda>k. map_option fst (view e k)) ` set ks" by auto
  with idx i e1 show ?case by (auto simp: Let_def)
qed simp

lemma set_phase_ok:
  "n < 64 \<Longrightarrow> length ks = 2 ^ n \<Longrightarrow> length vs = 2 ^ n \<Longrightarrow> unbounded_inv e \<Longrightarrow> permanent (view e) \<Longrightarrow>
    dom (view e) = set ks \<Longrightarrow>
    \<exists>t' e'. set_phase clk ks vs (2 ^ n - 1) ops rng t e = Some (Inr (), t', e') \<and> unbounded_inv e' \<and>
      permanent (view e') \<and> dom (view e') = set ks"
proof (induction ops arbitrary: rng t e)
  case (Suc ops)
  obtain idx rng1 where idx: "next_index rng (2 ^ n - 1) = (idx, rng1)" by fastforce
  have i: "unat idx < length ks" "unat idx < length vs"
    using next_index_bound [OF Suc.prems(1), of rng] idx Suc.prems(2,3) by simp_all
  define v where "v = (case vs ! unat idx of [] \<Rightarrow> [] | b # bs \<Rightarrow> (b XOR 0xFF) # bs)"
  from bench_set [OF Suc.prems(4), of "clk t" "ks ! unat idx" v] obtain e1 where
    e1: "kv_set e (clk t) (ks ! unat idx) v = Some (Inr (), e1)" "unbounded_inv e1"
      "view e1 = (view e)(ks ! unat idx \<mapsto> (v, None))" by blast
  have "permanent (view e1)" "dom (view e1) = set ks"
    using e1(3) Suc.prems(5,6) i by (auto simp: permanent_upd)
  from Suc.IH [OF Suc.prems(1-3) e1(2) this, of rng1 "t + 1"] idx i e1(1) show ?case
    by (simp add: v_def Let_def)
qed simp

lemma unat_exp: "n < 64 \<Longrightarrow> unat ((2 :: usize) ^ n) = 2 ^ n"
proof -
  assume "n < 64"
  then have "(2 :: nat) ^ n < 2 ^ 64" by (intro power_strict_increasing) auto
  then show ?thesis using unat_of_nat [of "2 ^ n", where ?'a = 64] by simp
qed

lemma normalize_power:
  assumes "unat v \<le> 2 ^ 63"
  shows "\<exists>n<64. normalize_power_of_two v = 2 ^ n \<and> unat v \<le> 2 ^ n"
proof (cases "is_power_of_two (max v 1)")
  case True
  then obtain n where n: "n < 64" "max v 1 = 2 ^ n" by (auto simp: is_power_of_two_def list_ex_iff)
  have "unat v \<le> unat (max v 1)" by (simp add: max_def word_le_nat_alt)
  then have "unat v \<le> 2 ^ n" using n unat_exp by simp
  with n True show ?thesis by (auto simp: normalize_power_of_two_def Let_def)
next
  case False
  with normalize_shard_count_power [OF assms] show ?thesis
    by (auto simp: normalize_power_of_two_def normalize_shard_count_def Let_def)
qed

lemma next_arg_None: "next_arg args = None \<longleftrightarrow> \<not> list_all is_text (take 1 args)"
proof (cases args)
  case (Cons a as)
  then show ?thesis using lossy_is_text [of a] lossy_text [of a] by (auto simp: next_arg_def)
qed (simp add: next_arg_def)

lemma next_arg_Some: "next_arg args = Some (a, rest) \<Longrightarrow> list_all is_text (take 1 args) \<and> rest = drop 1 args"
  using next_arg_None [of args] by (auto simp: next_arg_def split: list.splits if_splits)

lemma list_all_take_Suc: "list_all P (take (Suc n) xs) \<longleftrightarrow> list_all P (take 1 xs) \<and> list_all P (take n (drop 1 xs))"
  by (cases xs) simp_all

text \<open>Reading the arguments panics exactly when one of the first five, the program's name included, is no text.\<close>

lemma from_args_None: "from_args argv = None \<longleftrightarrow> \<not> list_all is_text (take 5 argv)"
proof -
  have next_arg: "Option.bind (next_arg xs) (\<lambda>(a, rest). f a rest) = None \<longleftrightarrow> \<not> list_all is_text (take (Suc n) xs)"
    if "\<And>a. f a (drop 1 xs) = None \<longleftrightarrow> \<not> list_all is_text (take n (drop 1 xs))"
    for xs n and f :: "bytes option \<Rightarrow> bytes list \<Rightarrow> BenchConfig exec"
  proof (cases "next_arg xs")
    case None
    with next_arg_None [of xs] show ?thesis unfolding list_all_take_Suc [of is_text n xs] by simp
  next
    case (Some q)
    with next_arg_Some [of xs "fst q" "snd q"] that show ?thesis
      unfolding list_all_take_Suc [of is_text n xs] by (cases q) simp
  qed
  have five: "5 = Suc (Suc (Suc (Suc (Suc 0))))" by simp
  show ?thesis unfolding from_args_def Let_def five by (intro next_arg) simp
qed

lemma from_args_key_count:
  "from_args argv = Some c \<Longrightarrow>
    bc_key_count c = normalize_power_of_two (bc_requested_keys c) \<and> bc_key_mask c = bc_key_count c - 1"
  by (auto simp: from_args_def bind_eq_Some_conv Let_def)

lemma bench_engine_fresh:
  assumes "unat (saturating_mul (case parallelism of Some c \<Rightarrow> c | None \<Rightarrow> 1) default_shard_multiplier) \<le> 2 ^ 63"
    and "engine_new alloc_shards h parallelism = Some e"
  shows "unbounded_inv e \<and> view e = Map.empty"
  using engine_new_fresh [OF assms] by (simp add: unbounded_inv_def)

lemma bench_run_ok:
  fixes c
  defines "ks \<equiv> map (bench_buffer 0xA5A5A5A5A5A5A5A5 (unat (bc_key_size c))) [0..<unat (bc_key_count c)]"
  defines "vs \<equiv> map (bench_buffer 0x5A5A5A5A5A5A5A5A (unat (bc_value_size c))) [0..<unat (bc_key_count c)]"
  assumes c: "from_args argv = Some c" and eng: "engine_new alloc_shards h parallelism = Some e"
    and req: "unat (bc_requested_keys c) \<le> 2 ^ 63"
    and par: "unat (saturating_mul (case parallelism of Some c \<Rightarrow> c | None \<Rightarrow> 1) default_shard_multiplier) \<le> 2 ^ 63"
    and mem: "alloc (24 * unat (bc_key_count c))" "alloc (unat (bc_key_size c))" "alloc (unat (bc_value_size c))"
  shows "\<exists>seen d1 d2 e'. bench_run alloc alloc_shards clk h parallelism argv =
      Some (Inr seen, config_line c @ report ''GET'' (bc_op_count c) d1 @ report ''SET'' (bc_op_count c) d2, e') \<and>
    unbounded_inv e' \<and> length seen = unat (bc_op_count c) \<and> set seen \<subseteq> Some ` set vs \<and> dom (view e') = set ks"
proof -
  from normalize_power [OF req] from_args_key_count [OF c]
  obtain n where n: "n < 64" "bc_key_count c = 2 ^ n" "bc_key_mask c = 2 ^ n - 1" by auto
  have len: "length ks = 2 ^ n" "length vs = 2 ^ n" using n unat_exp by (simp_all add: ks_def vs_def)
  have bufs: "build_buffers alloc (bc_key_count c) (bc_key_size c) 0xA5A5A5A5A5A5A5A5 = Some ks"
    "build_buffers alloc (bc_key_count c) (bc_value_size c) 0x5A5A5A5A5A5A5A5A = Some vs"
    using mem by (simp_all add: build_buffers_def build_from_ok ks_def vs_def)
  note fresh = bench_engine_fresh [OF par eng]
  have cnt: "unat (bc_key_count c) = length ks" and eqlen: "length ks = length vs" using len n unat_exp by simp_all
  from load_buffers [OF conjunct1 [OF fresh] conjunct2 [OF fresh] eqlen, of clk 0] obtain t1 e1 where
    e1: "load_all clk ks vs [0..<unat (bc_key_count c)] 0 e = Some (Inr (), t1, e1)"
      "unbounded_inv e1" "view e1 = loaded ks vs" unfolding cnt by blast
  have perm: "permanent (view e1)" and dom: "dom (view e1) = set ks"
    by (simp_all add: e1(3) loaded_permanent loaded_dom)
  have vals: "map_option fst (view e1 k) \<in> Some ` set vs" if "k \<in> set ks" for k
    using loaded_value [OF eqlen that] by (simp add: e1(3))
  from get_phase_ok [OF n(1) len(1) e1(2) perm, of clk "unat (bc_op_count c)" "xorshift_new 0x123456789ABCDEF0" "t1 + 1"] dom
  obtain seen t2 e2 where e2: "get_phase clk ks (2 ^ n - 1) (unat (bc_op_count c)) (xorshift_new 0x123456789ABCDEF0) (t1 + 1) e1 =
      Some (Inr seen, t2, e2)" "unbounded_inv e2" "view e2 = view e1" "length seen = unat (bc_op_count c)"
      "set seen \<subseteq> (\<lambda>k. map_option fst (view e1 k)) ` set ks" by auto
  from set_phase_ok [OF n(1) len e2(2), of clk "unat (bc_op_count c)" "xorshift_new 0x0FEDCBA987654321" "t2 + 2"] e2(3) perm dom
  obtain t3 e3 where e3: "set_phase clk ks vs (2 ^ n - 1) (unat (bc_op_count c)) (xorshift_new 0x0FEDCBA987654321) (t2 + 2) e2 =
      Some (Inr (), t3, e3)" "unbounded_inv e3" "dom (view e3) = set ks" by auto
  have "bench_run alloc alloc_shards clk h parallelism argv =
      Some (Inr seen, config_line c @ report ''GET'' (bc_op_count c) (elapsed (clk t1) (clk t2)) @
        report ''SET'' (bc_op_count c) (elapsed (clk (t2 + 1)) (clk t3)), e3)"
    using e2(1) e3(1) unfolding bench_run_def c eng Let_def bufs n(3) bind.bind_lunit e1(1) by simp
  with e2(4,5) e3(2,3) vals show ?thesis by (intro exI conjI) auto
qed

text \<open>
  The generator of the benchmark never gets stuck: from a seed other than 0 no state is ever 0,
  different states have different successors, and the sequence returns to its seed.
\<close>
lemma generator_never_stuck:
  assumes "seed \<noteq> 0"
  shows "x_state (((\<lambda>r. snd (next_u64 r)) ^^ n) (xorshift_new seed)) \<noteq> 0 \<and>
    (\<exists>p>0. ((\<lambda>r. snd (next_u64 r)) ^^ p) (xorshift_new seed) = xorshift_new seed) \<and>
    inj (\<lambda>r. snd (next_u64 r))"
  using states_nonzero [of "xorshift_new seed" n] states_return [of "xorshift_new seed"] assms
  by (auto simp: xorshift_new_def intro: injI next_u64_inject)

end
