(* ===== verification/HKV_Types.thy ===== *)
theory HKV_Types
  imports HKV_Time HKV_Error C_Layout Utf8_Text
begin

text \<open>
  The types shared by user space and kernel (\<^verbatim>\<open>hkv-common/src/types.rs\<close>): keys and values in buffers of
  fixed capacity, versions, expiration times, flags, and cache entries with their metadata. The
  wall clock is an argument of the operations that read it.
\<close>

unbundle bit_operations_syntax

section \<open>Buffers of fixed capacity\<close>

text \<open>\<^verbatim>\<open>buf[..n]\<close>, and \<^verbatim>\<open>buf[..data.len()].copy_from_slice(data)\<close>.\<close>

definition slice_to :: "bytes \<Rightarrow> nat \<Rightarrow> bytes exec" where
  "slice_to buf n = (if n \<le> length buf then Some (take n buf) else None)"

definition copy_prefix :: "bytes \<Rightarrow> bytes \<Rightarrow> bytes exec" where
  "copy_prefix buf data = (if length data \<le> length buf then Some (data @ drop (length data) buf) else None)"

definition max_key_size :: nat where
  "max_key_size = 256"

definition max_value_size :: nat where
  "max_value_size = 1024"

record key =
  k_len :: u16
  k_data :: bytes

definition key_new :: "bytes \<Rightarrow> key HkvResult exec" where
  "key_new data =
     (if length data > max_key_size then Some (Inl KeyTooLong)
      else do {
        let key = \<lparr>k_len = of_nat (length data), k_data = replicate max_key_size 0\<rparr>;
        buf \<leftarrow> copy_prefix (k_data key) data;
        Some (Inr (key\<lparr>k_data := buf\<rparr>))
      })"

definition key_as_bytes :: "key \<Rightarrow> bytes exec" where
  "key_as_bytes k = slice_to (k_data k) (unat (k_len k))"

definition key_length :: "key \<Rightarrow> usize" where
  "key_length k = ucast (k_len k)"

definition key_is_empty :: "key \<Rightarrow> bool" where
  "key_is_empty k \<longleftrightarrow> k_len k = 0"

definition key_eq :: "key \<Rightarrow> key \<Rightarrow> bool exec" where
  "key_eq a b =
     (if k_len a = k_len b then do {
        x \<leftarrow> key_as_bytes a;
        y \<leftarrow> key_as_bytes b;
        Some (x = y)
      } else Some False)"

text \<open>What \<^verbatim>\<open>hash\<close> feeds to the hasher.\<close>

definition key_hash :: "key \<Rightarrow> (u16 \<times> bytes) exec" where
  "key_hash k = do { bs \<leftarrow> key_as_bytes k; Some (k_len k, bs) }"

text \<open>\<^verbatim>\<open>impl Display for Key\<close>.\<close>

definition key_display :: "key \<Rightarrow> bytes exec" where
  "key_display k = map_option from_utf8_lossy (key_as_bytes k)"

record val =
  v_len :: u16
  v_data :: bytes

definition value_new :: "bytes \<Rightarrow> val HkvResult exec" where
  "value_new data =
     (if length data > max_value_size then Some (Inl ValueTooLong)
      else do {
        let v = \<lparr>v_len = of_nat (length data), v_data = replicate max_value_size 0\<rparr>;
        buf \<leftarrow> copy_prefix (v_data v) data;
        Some (Inr (v\<lparr>v_data := buf\<rparr>))
      })"

definition value_as_bytes :: "val \<Rightarrow> bytes exec" where
  "value_as_bytes v = slice_to (v_data v) (unat (v_len v))"

definition value_length :: "val \<Rightarrow> usize" where
  "value_length v = ucast (v_len v)"

definition value_is_empty :: "val \<Rightarrow> bool" where
  "value_is_empty v \<longleftrightarrow> v_len v = 0"

definition value_eq :: "val \<Rightarrow> val \<Rightarrow> bool exec" where
  "value_eq a b =
     (if v_len a = v_len b then do {
        x \<leftarrow> value_as_bytes a;
        y \<leftarrow> value_as_bytes b;
        Some (x = y)
      } else Some False)"

definition value_hash :: "val \<Rightarrow> (u16 \<times> bytes) exec" where
  "value_hash v = do { bs \<leftarrow> value_as_bytes v; Some (v_len v, bs) }"

section \<open>The interface of a bounded buffer\<close>

text \<open>
  What keys and values promise: construction succeeds exactly within the capacity and stores the
  data, and on well-formed buffers equality compares the contents and the hash depends on them
  only.
\<close>

locale bounded_buffer =
  fixes cap :: nat
    and too_long :: HkvError
    and wf :: "'k \<Rightarrow> bool"
    and make :: "bytes \<Rightarrow> 'k HkvResult exec"
    and contents :: "'k \<Rightarrow> bytes exec"
    and same :: "'k \<Rightarrow> 'k \<Rightarrow> bool exec"
    and hashed :: "'k \<Rightarrow> (u16 \<times> bytes) exec"
  assumes make_long: "cap < length d \<Longrightarrow> make d = Some (Inl too_long)"
    and make_short: "length d \<le> cap \<Longrightarrow> \<exists>k. make d = Some (Inr k) \<and> wf k \<and> contents k = Some d"
    and contents_wf: "wf k \<Longrightarrow> \<exists>d. contents k = Some d \<and> length d \<le> cap"
    and same_contents: "wf a \<Longrightarrow> wf b \<Longrightarrow> same a b = Some (contents a = contents b)"
    and hash_contents: "wf k \<Longrightarrow> contents k = Some d \<Longrightarrow> hashed k = Some (of_nat (length d), d)"
begin

lemma make_cases:
  "\<exists>r. make d = Some r \<and> (case r of
     Inl err \<Rightarrow> err = too_long \<and> cap < length d
   | Inr k \<Rightarrow> wf k \<and> contents k = Some d \<and> length d \<le> cap)"
  using make_long [of d] make_short [of d] by (cases "length d \<le> cap") auto

lemma make_spec:
  "case make d of
     None \<Rightarrow> False
   | Some (Inl err) \<Rightarrow> err = too_long \<and> cap < length d
   | Some (Inr k) \<Rightarrow> length d \<le> cap \<and> wf k \<and> contents k = Some d \<and> hashed k = Some (of_nat (length d), d) \<and>
       (\<forall>l. wf l \<longrightarrow> same k l = Some (contents l = Some d))"
proof (cases "length d \<le> cap")
  case True
  from make_short [OF True] obtain k where k: "make d = Some (Inr k)" "wf k" "contents k = Some d" by blast
  then have "same k l = Some (contents l = Some d)" if "wf l" for l
    using same_contents [OF k(2) that] by auto
  with k True hash_contents [OF k(2,3)] show ?thesis by simp
qed (simp add: make_long)

lemma made_same:
  "make c = Some (Inr k) \<Longrightarrow> make d = Some (Inr l) \<Longrightarrow> same k l = Some (c = d)"
  using make_cases [of c] make_cases [of d] same_contents [of k l] by auto

lemma same_hash:
  assumes "wf a" and "wf b" and "same a b = Some True"
  shows "hashed a = hashed b"
proof -
  obtain d where d: "contents a = Some d" using contents_wf [OF assms(1)] by blast
  then have "contents b = Some d" using same_contents [OF assms(1,2)] assms(3) by simp
  with d show ?thesis using hash_contents [OF assms(1) d] hash_contents [OF assms(2)] by simp
qed

lemma same_equiv:
  "wf a \<Longrightarrow> same a a = Some True"
  "wf a \<Longrightarrow> wf b \<Longrightarrow> same a b = same b a"
  "wf a \<Longrightarrow> wf b \<Longrightarrow> wf c \<Longrightarrow> same a b = Some True \<Longrightarrow> same b c = Some True \<Longrightarrow> same a c = Some True"
  by (auto simp: same_contents)

end

text \<open>A well-formed buffer: the fixed array, and a length within it.\<close>

definition key_wf :: "key \<Rightarrow> bool" where
  "key_wf k \<longleftrightarrow> length (k_data k) = max_key_size \<and> unat (k_len k) \<le> max_key_size"

definition value_wf :: "val \<Rightarrow> bool" where
  "value_wf v \<longleftrightarrow> length (v_data v) = max_value_size \<and> unat (v_len v) \<le> max_value_size"

lemma unat_of_nat_u16: "n \<le> 1024 \<Longrightarrow> unat (of_nat n :: u16) = n"
  by (simp add: unat_of_nat)

lemma slice_to_length: "slice_to xs n = Some d \<Longrightarrow> n = length d"
  by (auto simp: slice_to_def split: if_splits)

lemma slice_to_len: "slice_to xs (unat w) = Some d \<Longrightarrow> w = of_nat (length d)"
  by (drule slice_to_length) (metis of_nat_unat ucast_id)

lemma slice_same_length:
  fixes a b :: u16
  assumes "slice_to xs (unat a) = Some d" and "slice_to ys (unat b) = Some d"
  shows "a = b"
proof -
  have "unat a = length d" "unat b = length d" using assms by (auto dest: slice_to_length)
  then show ?thesis by (simp add: word_unat_eq_iff)
qed

interpretation keys: bounded_buffer max_key_size KeyTooLong key_wf key_new key_as_bytes key_eq key_hash
proof unfold_locales
  fix d :: bytes assume "length d \<le> max_key_size"
  then show "\<exists>k. key_new d = Some (Inr k) \<and> key_wf k \<and> key_as_bytes k = Some d"
    by (simp add: key_new_def copy_prefix_def key_wf_def key_as_bytes_def slice_to_def unat_of_nat_u16
        max_key_size_def)
next
  fix a b assume "key_wf a" "key_wf b"
  then obtain x y where "key_as_bytes a = Some x" "key_as_bytes b = Some y"
    by (simp add: key_as_bytes_def slice_to_def key_wf_def)
  then show "key_eq a b = Some (key_as_bytes a = key_as_bytes b)"
    using slice_same_length [of "k_data a" "k_len a" x "k_data b" "k_len b"]
    by (auto simp: key_eq_def key_as_bytes_def)
next
  fix k d assume "key_wf k" "key_as_bytes k = Some d"
  then show "key_hash k = Some (of_nat (length d), d)"
    using slice_to_len [of "k_data k" "k_len k" d] by (simp add: key_hash_def key_as_bytes_def)
qed (simp_all add: key_new_def key_as_bytes_def slice_to_def key_wf_def)

interpretation vals: bounded_buffer max_value_size ValueTooLong value_wf value_new value_as_bytes value_eq value_hash
proof unfold_locales
  fix d :: bytes assume "length d \<le> max_value_size"
  then show "\<exists>k. value_new d = Some (Inr k) \<and> value_wf k \<and> value_as_bytes k = Some d"
    by (simp add: value_new_def copy_prefix_def value_wf_def value_as_bytes_def slice_to_def unat_of_nat_u16
        max_value_size_def)
next
  fix a b assume "value_wf a" "value_wf b"
  then obtain x y where "value_as_bytes a = Some x" "value_as_bytes b = Some y"
    by (simp add: value_as_bytes_def slice_to_def value_wf_def)
  then show "value_eq a b = Some (value_as_bytes a = value_as_bytes b)"
    using slice_same_length [of "v_data a" "v_len a" x "v_data b" "v_len b"]
    by (auto simp: value_eq_def value_as_bytes_def)
next
  fix k d assume "value_wf k" "value_as_bytes k = Some d"
  then show "value_hash k = Some (of_nat (length d), d)"
    using slice_to_len [of "v_data k" "v_len k" d] by (simp add: value_hash_def value_as_bytes_def)
qed (simp_all add: value_new_def value_as_bytes_def slice_to_def value_wf_def)

section \<open>Versions\<close>

datatype Version = Version (version_get: u64)

definition version_zero :: Version where
  "version_zero = Version 0"

definition version_new :: "u64 \<Rightarrow> Version" where
  "version_new v = Version v"

text \<open>\<^verbatim>\<open>increment\<close> returns the new value and leaves it in place.\<close>

definition version_increment :: "Version \<Rightarrow> Version \<times> Version" where
  "version_increment v = (let v = Version (version_get v + 1) in (v, v))"

definition version_next :: "Version \<Rightarrow> Version" where
  "version_next v = Version (version_get v + 1)"

text \<open>The derived order.\<close>

instantiation Version :: linorder
begin

definition less_eq_Version :: "Version \<Rightarrow> Version \<Rightarrow> bool" where
  "v \<le> w \<longleftrightarrow> version_get v \<le> version_get w"

definition less_Version :: "Version \<Rightarrow> Version \<Rightarrow> bool" where
  "v < w \<longleftrightarrow> version_get v < version_get w"

instance
  by standard (auto simp: less_eq_Version_def less_Version_def intro: Version.expand)

end

lemma version_next_greater: "v < version_next v \<longleftrightarrow> v \<noteq> Version (- 1)"
proof -
  have "w < w + 1 \<longleftrightarrow> w \<noteq> - 1" for w :: u64
  proof (cases "w = - 1")
    case False
    then have "1 + w \<noteq> 0" by (simp add: add_eq_0_iff)
    from unatSuc [OF this] False show ?thesis by (simp add: word_less_nat_alt add.commute)
  qed simp
  then show ?thesis by (cases v) (simp add: less_Version_def version_next_def)
qed

section \<open>Expiration times\<close>

datatype Ttl = Ttl (ttl_as_nanos: u64)

instantiation Ttl :: linorder
begin

definition less_eq_Ttl :: "Ttl \<Rightarrow> Ttl \<Rightarrow> bool" where
  "s \<le> t \<longleftrightarrow> ttl_as_nanos s \<le> ttl_as_nanos t"

definition less_Ttl :: "Ttl \<Rightarrow> Ttl \<Rightarrow> bool" where
  "s < t \<longleftrightarrow> ttl_as_nanos s < ttl_as_nanos t"

instance
  by standard (auto simp: less_eq_Ttl_def less_Ttl_def intro: Ttl.expand)

end

definition ttl_infinite :: Ttl where
  "ttl_infinite = Ttl (- 1)"

definition ttl_from_nanos :: "u64 \<Rightarrow> Ttl" where
  "ttl_from_nanos nanos = Ttl nanos"

definition ttl_from_duration :: "wall_clock \<Rightarrow> duration \<Rightarrow> Ttl exec" where
  "ttl_from_duration clock d = do {
     deadline \<leftarrow> duration_add (unix_now clock) d;
     Some (Ttl (of_nat deadline))
   }"

definition ttl_is_infinite :: "Ttl \<Rightarrow> bool" where
  "ttl_is_infinite t \<longleftrightarrow> ttl_as_nanos t = - 1"

definition ttl_is_expired :: "Ttl \<Rightarrow> u64 \<Rightarrow> bool" where
  "ttl_is_expired t current_nanos \<longleftrightarrow> \<not> ttl_is_infinite t \<and> current_nanos \<ge> ttl_as_nanos t"

section \<open>Flags\<close>

datatype EntryFlags = EntryFlags (flag_bits: byte)

definition flag_VALID :: byte where
  "flag_VALID = 1"

definition flag_EVICTING :: byte where
  "flag_EVICTING = 2"

definition flag_INVALIDATED :: byte where
  "flag_INVALIDATED = 4"

definition flags_empty :: EntryFlags where
  "flags_empty = EntryFlags 0"

definition flags_valid :: EntryFlags where
  "flags_valid = EntryFlags flag_VALID"

definition is_valid :: "EntryFlags \<Rightarrow> bool" where
  "is_valid f \<longleftrightarrow> flag_bits f AND flag_VALID \<noteq> 0"

definition is_evicting :: "EntryFlags \<Rightarrow> bool" where
  "is_evicting f \<longleftrightarrow> flag_bits f AND flag_EVICTING \<noteq> 0"

definition is_invalidated :: "EntryFlags \<Rightarrow> bool" where
  "is_invalidated f \<longleftrightarrow> flag_bits f AND flag_INVALIDATED \<noteq> 0"

definition flags_set :: "EntryFlags \<Rightarrow> byte \<Rightarrow> EntryFlags" where
  "flags_set f flag = EntryFlags (flag_bits f OR flag)"

definition flags_clear :: "EntryFlags \<Rightarrow> byte \<Rightarrow> EntryFlags" where
  "flags_clear f flag = EntryFlags (flag_bits f AND NOT flag)"

text \<open>The three tests read the bits 0, 1 and 2; setting and clearing act on the chosen bits alone.\<close>

lemma and_exp_neq_0: "w AND 2 ^ n \<noteq> 0 \<longleftrightarrow> bit w n" for w :: byte
  by (metis and_exp_eq_0_iff_not_bit)

lemma flag_tests:
  "is_valid f \<longleftrightarrow> bit (flag_bits f) 0" "is_evicting f \<longleftrightarrow> bit (flag_bits f) 1"
  "is_invalidated f \<longleftrightarrow> bit (flag_bits f) 2"
  using and_exp_neq_0 [of "flag_bits f" 0] and_exp_neq_0 [of "flag_bits f" 1] and_exp_neq_0 [of "flag_bits f" 2]
  by (simp_all add: is_valid_def is_evicting_def is_invalidated_def flag_VALID_def flag_EVICTING_def
      flag_INVALIDATED_def)

lemma flag_updates:
  "n < 8 \<Longrightarrow> bit (flag_bits (flags_set f m)) n \<longleftrightarrow> bit (flag_bits f) n \<or> bit m n"
  "n < 8 \<Longrightarrow> bit (flag_bits (flags_clear f m)) n \<longleftrightarrow> bit (flag_bits f) n \<and> \<not> bit m n"
  by (simp_all add: flags_set_def flags_clear_def bit_or_iff bit_and_iff bit_not_iff)

section \<open>Entries\<close>

record entry_metadata =
  md_version :: Version
  md_ttl :: Ttl
  md_created_at :: u64
  md_accessed_at :: u64
  md_flags :: EntryFlags
  md_key_len :: u16
  md_value_len :: u16

definition metadata_new :: "wall_clock \<Rightarrow> Version \<Rightarrow> Ttl \<Rightarrow> u16 \<Rightarrow> u16 \<Rightarrow> entry_metadata" where
  "metadata_new clock version ttl key_len value_len =
     (let now = unix_nanos clock in
      \<lparr>md_version = version, md_ttl = ttl, md_created_at = now, md_accessed_at = now,
       md_flags = flags_valid, md_key_len = key_len, md_value_len = value_len\<rparr>)"

definition metadata_touch :: "wall_clock \<Rightarrow> entry_metadata \<Rightarrow> entry_metadata" where
  "metadata_touch clock m = m\<lparr>md_accessed_at := unix_nanos clock\<rparr>"

definition metadata_is_expired :: "wall_clock \<Rightarrow> entry_metadata \<Rightarrow> bool" where
  "metadata_is_expired clock m = ttl_is_expired (md_ttl m) (unix_nanos clock)"

definition age_nanos :: "wall_clock \<Rightarrow> entry_metadata \<Rightarrow> u64" where
  "age_nanos clock m = saturating_sub (unix_nanos clock) (md_created_at m)"

record cache_entry =
  ce_key :: key
  ce_value :: val
  ce_metadata :: entry_metadata

definition entry_new :: "wall_clock \<Rightarrow> key \<Rightarrow> val \<Rightarrow> Version \<Rightarrow> Ttl \<Rightarrow> cache_entry" where
  "entry_new clock key value version ttl =
     (let metadata = metadata_new clock version ttl (ucast (key_length key)) (ucast (value_length value)) in
      \<lparr>ce_key = key, ce_value = value, ce_metadata = metadata\<rparr>)"

definition entry_is_valid :: "wall_clock \<Rightarrow> cache_entry \<Rightarrow> bool" where
  "entry_is_valid clock e \<longleftrightarrow>
     is_valid (md_flags (ce_metadata e)) \<and> \<not> metadata_is_expired clock (ce_metadata e) \<and>
     \<not> is_invalidated (md_flags (ce_metadata e))"

definition entry_touch :: "wall_clock \<Rightarrow> cache_entry \<Rightarrow> cache_entry" where
  "entry_touch clock e = e\<lparr>ce_metadata := metadata_touch clock (ce_metadata e)\<rparr>"

lemma ttl_exact:
  assumes "unix_now clock + d < 2 ^ 64"
  shows "ttl_from_duration clock d = Some (Ttl (of_nat (unix_now clock + d)))"
proof -
  have "unix_now clock + d < 2 ^ 64 * nanos_per_sec" using assms by (simp add: nanos_per_sec_def)
  then show ?thesis by (simp add: ttl_from_duration_def duration_add_def)
qed

text \<open>The nanoseconds are cut to 64 bits: a deadline at \<open>2 ^ 64\<close> has always passed.\<close>

lemma ttl_from_duration_wraps:
  assumes "unix_now clock + d = 2 ^ 64"
  shows "\<exists>t. ttl_from_duration clock d = Some t \<and> ttl_is_expired t now"
proof -
  have "(of_nat (2 ^ 64) :: u64) = 0" by (simp only: word_unat_eq_iff unat_of_nat) simp
  then have "ttl_from_duration clock d = Some (Ttl 0)"
    unfolding ttl_from_duration_def duration_add_def assms nanos_per_sec_def by simp
  then show ?thesis by (simp add: ttl_is_expired_def ttl_is_infinite_def)
qed

text \<open>A new entry is valid until its time is over; the mark of invalidation ends its validity at once.\<close>

lemma entry_new_valid:
  "entry_is_valid later (entry_new clock k v ver ttl) \<longleftrightarrow> \<not> ttl_is_expired ttl (unix_nanos later)"
  by (simp add: entry_is_valid_def entry_new_def metadata_new_def metadata_is_expired_def flag_tests
      flags_valid_def flag_VALID_def Let_def)

lemma invalidated_not_valid:
  "\<not> entry_is_valid clock (e\<lparr>ce_metadata := (ce_metadata e)
    \<lparr>md_flags := flags_set (md_flags (ce_metadata e)) flag_INVALIDATED\<rparr>\<rparr>)"
  by (simp add: entry_is_valid_def is_invalidated_def flags_set_def flag_INVALIDATED_def
      and_exp_neq_0 [of _ 2, simplified] bit_or_iff)

lemma touch_valid: "entry_is_valid clock (entry_touch now e) = entry_is_valid clock e"
  by (simp add: entry_is_valid_def entry_touch_def metadata_touch_def metadata_is_expired_def)

text \<open>The derived equality.\<close>

definition entry_eq :: "cache_entry \<Rightarrow> cache_entry \<Rightarrow> bool exec" where
  "entry_eq a b = do {
     k \<leftarrow> key_eq (ce_key a) (ce_key b);
     (if k then do {
        v \<leftarrow> value_eq (ce_value a) (ce_value b);
        Some (v \<and> ce_metadata a = ce_metadata b)
      } else Some False)
   }"

text \<open>The layouts of the structures, and \<^verbatim>\<open>size_of::<Entry>()\<close>.\<close>

definition key_layout :: c_type where
  "key_layout = CStruct [CInt 2, CArr max_key_size (CInt 1)]"

definition value_layout :: c_type where
  "value_layout = CStruct [CInt 2, CArr max_value_size (CInt 1)]"

definition metadata_layout :: c_type where
  "metadata_layout = CStruct [CStruct [CInt 8], CStruct [CInt 8], CInt 8, CInt 8, CStruct [CInt 1], CInt 2, CInt 2]"

definition entry_layout :: c_type where
  "entry_layout = CStruct [key_layout, value_layout, metadata_layout]"

definition entry_size_of :: "cache_entry \<Rightarrow> nat" where
  "entry_size_of e = c_size entry_layout"

lemmas layout_defs [hkv_defs] = key_layout_def value_layout_def metadata_layout_def entry_layout_def
  max_key_size_def max_value_size_def

lemma type_sizes:
  "c_size key_layout = 258" "c_align key_layout = 2"
  "c_size value_layout = 1026" "c_align value_layout = 2"
  "c_size metadata_layout = 40" "c_align metadata_layout = 8"
  "c_size entry_layout = 1328" "c_align entry_layout = 8"
  by (simp_all add: hkv_defs)

text \<open>
  \<^verbatim>\<open>increment\<close> and \<^verbatim>\<open>next\<close> agree, and the next version is greater except after the greatest one, where
  it is the initial version again.
\<close>
lemma version_successor:
  "version_increment v = (version_next v, version_next v) \<and>
    (v < version_next v \<longleftrightarrow> version_get v \<noteq> - 1) \<and>
    version_next (version_new (- 1)) = version_zero"
proof (intro conjI)
  show "version_increment v = (version_next v, version_next v)"
    by (simp add: version_increment_def version_next_def Let_def)
  show "v < version_next v \<longleftrightarrow> version_get v \<noteq> - 1"
    by (cases v) (simp add: version_next_greater)
  show "version_next (version_new (- 1)) = version_zero"
    by (simp add: version_next_def version_new_def version_zero_def)
qed

end
