(* ===== verification/HKV_Ioctl.thy ===== *)
theory HKV_Ioctl
  imports HKV_Prelude
begin

text \<open>
  The commands of the device \<^verbatim>\<open>/dev/hybridkv\<close> (\<^verbatim>\<open>hkv-common/src/ioctl.rs\<close>): their numbers, the
  conversion from and to a byte, their names and their classification.
\<close>

definition IOCTL_MAGIC :: byte where
  "IOCTL_MAGIC = of_char CHR ''H''"

definition DEVICE_PATH :: string where
  "DEVICE_PATH = ''/dev/hybridkv''"

definition DEVICE_NAME :: string where
  "DEVICE_NAME = ''hybridkv''"

definition CMD_READ :: byte where
  "CMD_READ = 0"

definition CMD_PROMOTE :: byte where
  "CMD_PROMOTE = 1"

definition CMD_BATCH_PROMOTE :: byte where
  "CMD_BATCH_PROMOTE = 2"

definition CMD_DEMOTE :: byte where
  "CMD_DEMOTE = 3"

definition CMD_INVALIDATE :: byte where
  "CMD_INVALIDATE = 4"

definition CMD_STATS :: byte where
  "CMD_STATS = 5"

definition CMD_CONFIG :: byte where
  "CMD_CONFIG = 6"

definition CMD_FLUSH :: byte where
  "CMD_FLUSH = 7"

lemmas cmd_defs [hkv_defs] = IOCTL_MAGIC_def CMD_READ_def CMD_PROMOTE_def CMD_BATCH_PROMOTE_def
  CMD_DEMOTE_def CMD_INVALIDATE_def CMD_STATS_def CMD_CONFIG_def CMD_FLUSH_def

datatype IoctlCommand =
  Read | Promote | BatchPromote | Demote | Invalidate | Stats | Config | Flush

fun as_u8 :: "IoctlCommand \<Rightarrow> byte" where
  "as_u8 Read = CMD_READ"
| "as_u8 Promote = CMD_PROMOTE"
| "as_u8 BatchPromote = CMD_BATCH_PROMOTE"
| "as_u8 Demote = CMD_DEMOTE"
| "as_u8 Invalidate = CMD_INVALIDATE"
| "as_u8 Stats = CMD_STATS"
| "as_u8 Config = CMD_CONFIG"
| "as_u8 Flush = CMD_FLUSH"

definition from_u8 :: "byte \<Rightarrow> IoctlCommand option" where
  "from_u8 value =
     (if value = CMD_READ then Some Read
      else if value = CMD_PROMOTE then Some Promote
      else if value = CMD_BATCH_PROMOTE then Some BatchPromote
      else if value = CMD_DEMOTE then Some Demote
      else if value = CMD_INVALIDATE then Some Invalidate
      else if value = CMD_STATS then Some Stats
      else if value = CMD_CONFIG then Some Config
      else if value = CMD_FLUSH then Some Flush
      else None)"

fun command_name :: "IoctlCommand \<Rightarrow> string" where
  "command_name Read = ''READ''"
| "command_name Promote = ''PROMOTE''"
| "command_name BatchPromote = ''BATCH_PROMOTE''"
| "command_name Demote = ''DEMOTE''"
| "command_name Invalidate = ''INVALIDATE''"
| "command_name Stats = ''STATS''"
| "command_name Config = ''CONFIG''"
| "command_name Flush = ''FLUSH''"

definition is_readonly :: "IoctlCommand \<Rightarrow> bool" where
  "is_readonly c = (case c of Read \<Rightarrow> True | Stats \<Rightarrow> True | _ \<Rightarrow> False)"

definition is_write :: "IoctlCommand \<Rightarrow> bool" where
  "is_write c = (case c of Promote \<Rightarrow> True | BatchPromote \<Rightarrow> True | Demote \<Rightarrow> True | Invalidate \<Rightarrow> True
     | Flush \<Rightarrow> True | _ \<Rightarrow> False)"

definition is_config :: "IoctlCommand \<Rightarrow> bool" where
  "is_config c = (case c of Config \<Rightarrow> True | _ \<Rightarrow> False)"

definition command_display :: "IoctlCommand \<Rightarrow> string" where
  "command_display c = command_name c"

lemma from_u8_as_u8: "from_u8 (as_u8 c) = Some c"
  by (cases c) (simp_all add: from_u8_def hkv_defs)

lemma from_u8_SomeD: "from_u8 b = Some c \<Longrightarrow> b = as_u8 c"
  by (auto simp: from_u8_def split: if_splits)

lemma as_u8_inject: "as_u8 c = as_u8 d \<longleftrightarrow> c = d"
  by (metis from_u8_as_u8 option.inject)

lemma from_u8_None_iff: "from_u8 b = None \<longleftrightarrow> 7 < b"
proof -
  have "7 < b \<longleftrightarrow> b \<noteq> 0 \<and> b \<noteq> 1 \<and> b \<noteq> 2 \<and> b \<noteq> 3 \<and> b \<noteq> 4 \<and> b \<noteq> 5 \<and> b \<noteq> 6 \<and> b \<noteq> 7"
    by (auto simp: word_less_nat_alt word_unat_eq_iff)
  then show ?thesis by (simp add: from_u8_def hkv_defs)
qed

lemma command_name_inject: "command_name c = command_name d \<longleftrightarrow> c = d"
  by (cases c; cases d) simp_all

lemma command_classes:
  "is_readonly c \<or> is_write c \<or> is_config c"
  "\<not> (is_readonly c \<and> is_write c)" "\<not> (is_readonly c \<and> is_config c)" "\<not> (is_write c \<and> is_config c)"
  by (cases c; simp add: is_readonly_def is_write_def is_config_def)+

text \<open>
  Command numbers and commands correspond one to one: a byte is decoded exactly when it is the number
  of a command, and every byte above 7 is refused. Names are distinct, and every command is of exactly
  one class: read-only, write or configuration.
\<close>
lemma command_bytes_round_trip:
  "from_u8 (as_u8 c) = Some c \<and> (from_u8 b = Some d \<longleftrightarrow> b = as_u8 d) \<and> (from_u8 b = None \<longleftrightarrow> 7 < b) \<and>
    (command_display c = command_display d \<longleftrightarrow> c = d) \<and>
    (is_readonly c, is_write c, is_config c) \<in> {(True, False, False), (False, True, False), (False, False, True)}"
  using from_u8_as_u8 from_u8_SomeD [of b d] from_u8_None_iff [of b] command_name_inject [of c d] command_classes [of c]
  by (auto simp: command_display_def)

end
