(* ===== verification/HKV_Protocol.thy ===== *)
theory HKV_Protocol
  imports HKV_Types HKV_Ioctl
begin

text \<open>
  The payloads that user space and the kernel module exchange through the device
  (\<^verbatim>\<open>hkv-common/src/protocol.rs\<close>): one record per structure, its constructor, and its layout and memory
  image in the calculus of \<open>C_Layout\<close>. The lemmas give the bytes of the parts of a payload, and show that
  every payload a constructor builds carries the header of its command, has the size of its layout,
  and is determined by its memory image, whatever the padding bytes hold.
\<close>

section \<open>The structures and their constructors\<close>

definition PROTOCOL_VERSION :: byte where
  "PROTOCOL_VERSION = 1"

definition STATUS_OK :: u16 where
  "STATUS_OK = 0"

definition MAX_BATCH_SIZE :: nat where
  "MAX_BATCH_SIZE = 1000"

definition BATCH_RESULT_BYTES :: nat where
  "BATCH_RESULT_BYTES = (MAX_BATCH_SIZE + 7) div 8"

record IoctlHeader =
  ih_magic :: byte
  ih_version :: byte
  ih_command :: byte
  ih_reserved :: byte

definition header_new :: "IoctlCommand \<Rightarrow> IoctlHeader" where
  "header_new command =
     \<lparr>ih_magic = IOCTL_MAGIC, ih_version = PROTOCOL_VERSION, ih_command = as_u8 command, ih_reserved = 0\<rparr>"

record ReadRequest =
  rq_header :: IoctlHeader
  rq_key :: key

definition read_request_new :: "key \<Rightarrow> ReadRequest" where
  "read_request_new key = \<lparr>rq_header = header_new Read, rq_key = key\<rparr>"

record ReadResponse =
  rs_header :: IoctlHeader
  rs_status :: u16
  rs_value :: val

definition read_response_new :: "u16 \<Rightarrow> val \<Rightarrow> ReadResponse" where
  "read_response_new status value = \<lparr>rs_header = header_new Read, rs_status = status, rs_value = value\<rparr>"

record PromoteRequest =
  pq_header :: IoctlHeader
  pq_key :: key
  pq_value :: val
  pq_version :: Version
  pq_ttl :: Ttl

definition promote_request_new :: "key \<Rightarrow> val \<Rightarrow> Version \<Rightarrow> Ttl \<Rightarrow> PromoteRequest" where
  "promote_request_new key value version ttl =
     \<lparr>pq_header = header_new Promote, pq_key = key, pq_value = value, pq_version = version, pq_ttl = ttl\<rparr>"

record PromoteResponse =
  pr_header :: IoctlHeader
  pr_status :: u16
  pr_reserved :: u16

definition promote_response_new :: "u16 \<Rightarrow> PromoteResponse" where
  "promote_response_new status = \<lparr>pr_header = header_new Promote, pr_status = status, pr_reserved = 0\<rparr>"

record BatchPromoteEntry =
  be_key :: key
  be_value :: val
  be_version :: Version
  be_ttl :: Ttl

definition batch_entry_new :: "key \<Rightarrow> val \<Rightarrow> Version \<Rightarrow> Ttl \<Rightarrow> BatchPromoteEntry" where
  "batch_entry_new key value version ttl =
     \<lparr>be_key = key, be_value = value, be_version = version, be_ttl = ttl\<rparr>"

record BatchPromoteRequest =
  bq_header :: IoctlHeader
  bq_count :: u16
  bq_reserved :: u16
  bq_entries :: "BatchPromoteEntry list"

text \<open>
  The array type of the argument fixes the number of entries; \<open>batch_entries_wf\<close> below states it.
  The check of \<open>count\<close> is a \<^verbatim>\<open>debug_assert!\<close>, which a release build does not execute.
\<close>

definition batch_request_new :: "BatchPromoteEntry list \<Rightarrow> u16 \<Rightarrow> BatchPromoteRequest" where
  "batch_request_new entries cnt =
     \<lparr>bq_header = header_new BatchPromote, bq_count = cnt, bq_reserved = 0, bq_entries = entries\<rparr>"

record BatchPromoteResponse =
  br_header :: IoctlHeader
  br_count :: u16
  br_reserved :: u16
  br_results :: bytes

definition batch_response_new :: "u16 \<Rightarrow> BatchPromoteResponse" where
  "batch_response_new cnt =
     \<lparr>br_header = header_new BatchPromote, br_count = cnt, br_reserved = 0,
      br_results = replicate BATCH_RESULT_BYTES 0\<rparr>"

record DemoteRequest =
  dq_header :: IoctlHeader
  dq_key :: key

definition demote_request_new :: "key \<Rightarrow> DemoteRequest" where
  "demote_request_new key = \<lparr>dq_header = header_new Demote, dq_key = key\<rparr>"

record InvalidateRequest =
  iq_header :: IoctlHeader
  iq_key :: key
  iq_version :: Version

definition invalidate_request_new :: "key \<Rightarrow> Version \<Rightarrow> InvalidateRequest" where
  "invalidate_request_new key version =
     \<lparr>iq_header = header_new Invalidate, iq_key = key, iq_version = version\<rparr>"

record CacheStats =
  cs_lookups :: u64
  cs_hits :: u64
  cs_misses :: u64
  cs_stale_hits :: u64
  cs_promotions :: u64
  cs_demotions :: u64
  cs_evictions :: u64
  cs_invalidations :: u64
  cs_used_bytes :: u64
  cs_max_bytes :: u64
  cs_entry_count :: u64
  cs_lock_contentions :: u64
  cs_rcu_grace_periods :: u64

record StatsRequest =
  tq_header :: IoctlHeader

definition stats_request_new :: StatsRequest where
  "stats_request_new = \<lparr>tq_header = header_new Stats\<rparr>"

record StatsResponse =
  tr_header :: IoctlHeader
  tr_status :: u16
  tr_reserved :: u16
  tr_stats :: CacheStats

definition stats_response_new :: "u16 \<Rightarrow> CacheStats \<Rightarrow> StatsResponse" where
  "stats_response_new status stats =
     \<lparr>tr_header = header_new Stats, tr_status = status, tr_reserved = 0, tr_stats = stats\<rparr>"

record ConfigRequest =
  cq_header :: IoctlHeader
  cq_max_bytes :: u64
  cq_max_entries :: u64
  cq_high_watermark :: u32
  cq_low_watermark :: u32
  cq_reserved :: u64

definition config_request_new :: "u64 \<Rightarrow> u64 \<Rightarrow> u32 \<Rightarrow> u32 \<Rightarrow> ConfigRequest" where
  "config_request_new max_bytes max_entries high_watermark low_watermark =
     \<lparr>cq_header = header_new Config, cq_max_bytes = max_bytes, cq_max_entries = max_entries,
      cq_high_watermark = high_watermark, cq_low_watermark = low_watermark, cq_reserved = 0\<rparr>"

record FlushRequest =
  fq_header :: IoctlHeader

definition flush_request_new :: FlushRequest where
  "flush_request_new = \<lparr>fq_header = header_new Flush\<rparr>"

section \<open>Memory images\<close>

definition header_layout :: c_type where
  "header_layout = CStruct [CInt 1, CInt 1, CInt 1, CInt 1]"

definition word_val :: "'w::len word \<Rightarrow> c_val" where
  "word_val w = VInt (unat w)"

definition bytes_val :: "bytes \<Rightarrow> c_val" where
  "bytes_val bs = VList (map word_val bs)"

definition header_val :: "IoctlHeader \<Rightarrow> c_val" where
  "header_val h = VList [word_val (ih_magic h), word_val (ih_version h), word_val (ih_command h), word_val (ih_reserved h)]"

definition key_val :: "key \<Rightarrow> c_val" where
  "key_val k = VList [word_val (k_len k), bytes_val (k_data k)]"

definition value_val :: "val \<Rightarrow> c_val" where
  "value_val v = VList [word_val (v_len v), bytes_val (v_data v)]"

definition version_val :: "Version \<Rightarrow> c_val" where
  "version_val v = VList [word_val (version_get v)]"

definition ttl_val :: "Ttl \<Rightarrow> c_val" where
  "ttl_val t = VList [word_val (ttl_as_nanos t)]"

definition batch_entry_layout :: c_type where
  "batch_entry_layout = CStruct [key_layout, value_layout, CStruct [CInt 8], CStruct [CInt 8]]"

definition batch_entry_val :: "BatchPromoteEntry \<Rightarrow> c_val" where
  "batch_entry_val b = VList [key_val (be_key b), value_val (be_value b), version_val (be_version b), ttl_val (be_ttl b)]"

definition stats_layout :: c_type where
  "stats_layout = CStruct [CInt 8, CInt 8, CInt 8, CInt 8, CInt 8, CInt 8, CInt 8, CInt 8, CInt 8, CInt 8, CInt 8,
     CInt 8, CInt 8]"

definition stats_val :: "CacheStats \<Rightarrow> c_val" where
  "stats_val s = VList (map word_val [cs_lookups s, cs_hits s, cs_misses s, cs_stale_hits s, cs_promotions s,
     cs_demotions s, cs_evictions s, cs_invalidations s, cs_used_bytes s, cs_max_bytes s, cs_entry_count s,
     cs_lock_contentions s, cs_rcu_grace_periods s])"

text \<open>The payloads of the device, and the fields that follow the header of each.\<close>

datatype payload =
  PReadRequest ReadRequest
| PReadResponse ReadResponse
| PPromoteRequest PromoteRequest
| PPromoteResponse PromoteResponse
| PBatchPromoteRequest BatchPromoteRequest
| PBatchPromoteResponse BatchPromoteResponse
| PDemoteRequest DemoteRequest
| PInvalidateRequest InvalidateRequest
| PStatsRequest StatsRequest
| PStatsResponse StatsResponse
| PConfigRequest ConfigRequest
| PFlushRequest FlushRequest

fun payload_header :: "payload \<Rightarrow> IoctlHeader" where
  "payload_header (PReadRequest m) = rq_header m"
| "payload_header (PReadResponse m) = rs_header m"
| "payload_header (PPromoteRequest m) = pq_header m"
| "payload_header (PPromoteResponse m) = pr_header m"
| "payload_header (PBatchPromoteRequest m) = bq_header m"
| "payload_header (PBatchPromoteResponse m) = br_header m"
| "payload_header (PDemoteRequest m) = dq_header m"
| "payload_header (PInvalidateRequest m) = iq_header m"
| "payload_header (PStatsRequest m) = tq_header m"
| "payload_header (PStatsResponse m) = tr_header m"
| "payload_header (PConfigRequest m) = cq_header m"
| "payload_header (PFlushRequest m) = fq_header m"

fun payload_fields :: "payload \<Rightarrow> c_type list" where
  "payload_fields (PReadRequest m) = [key_layout]"
| "payload_fields (PReadResponse m) = [CInt 2, value_layout]"
| "payload_fields (PPromoteRequest m) = [key_layout, value_layout, CStruct [CInt 8], CStruct [CInt 8]]"
| "payload_fields (PPromoteResponse m) = [CInt 2, CInt 2]"
| "payload_fields (PBatchPromoteRequest m) = [CInt 2, CInt 2, CArr MAX_BATCH_SIZE batch_entry_layout]"
| "payload_fields (PBatchPromoteResponse m) = [CInt 2, CInt 2, CArr BATCH_RESULT_BYTES (CInt 1)]"
| "payload_fields (PDemoteRequest m) = [key_layout]"
| "payload_fields (PInvalidateRequest m) = [key_layout, CStruct [CInt 8]]"
| "payload_fields (PStatsRequest m) = []"
| "payload_fields (PStatsResponse m) = [CInt 2, CInt 2, stats_layout]"
| "payload_fields (PConfigRequest m) = [CInt 8, CInt 8, CInt 4, CInt 4, CInt 8]"
| "payload_fields (PFlushRequest m) = []"

fun payload_vals :: "payload \<Rightarrow> c_val list" where
  "payload_vals (PReadRequest m) = [key_val (rq_key m)]"
| "payload_vals (PReadResponse m) = [word_val (rs_status m), value_val (rs_value m)]"
| "payload_vals (PPromoteRequest m) =
     [key_val (pq_key m), value_val (pq_value m), version_val (pq_version m), ttl_val (pq_ttl m)]"
| "payload_vals (PPromoteResponse m) = [word_val (pr_status m), word_val (pr_reserved m)]"
| "payload_vals (PBatchPromoteRequest m) =
     [word_val (bq_count m), word_val (bq_reserved m), VList (map batch_entry_val (bq_entries m))]"
| "payload_vals (PBatchPromoteResponse m) =
     [word_val (br_count m), word_val (br_reserved m), bytes_val (br_results m)]"
| "payload_vals (PDemoteRequest m) = [key_val (dq_key m)]"
| "payload_vals (PInvalidateRequest m) = [key_val (iq_key m), version_val (iq_version m)]"
| "payload_vals (PStatsRequest m) = []"
| "payload_vals (PStatsResponse m) = [word_val (tr_status m), word_val (tr_reserved m), stats_val (tr_stats m)]"
| "payload_vals (PConfigRequest m) =
     [word_val (cq_max_bytes m), word_val (cq_max_entries m), word_val (cq_high_watermark m),
      word_val (cq_low_watermark m), word_val (cq_reserved m)]"
| "payload_vals (PFlushRequest m) = []"

definition payload_layout :: "payload \<Rightarrow> c_type" where
  "payload_layout p = CStruct (header_layout # payload_fields p)"

definition payload_val :: "payload \<Rightarrow> c_val" where
  "payload_val p = VList (header_val (payload_header p) # payload_vals p)"

definition payload_image :: "byte \<Rightarrow> payload \<Rightarrow> bytes" where
  "payload_image pad p = c_encode pad (payload_layout p) (payload_val p)"

text \<open>The payloads that the constructors build, by the command of the call they belong to.\<close>

definition batch_entries_wf :: "BatchPromoteEntry list \<Rightarrow> bool" where
  "batch_entries_wf es \<longleftrightarrow> length es = MAX_BATCH_SIZE \<and> list_all (\<lambda>b. key_wf (be_key b) \<and> value_wf (be_value b)) es"

inductive built :: "IoctlCommand \<Rightarrow> payload \<Rightarrow> bool" where
  "key_wf k \<Longrightarrow> built Read (PReadRequest (read_request_new k))"
| "value_wf v \<Longrightarrow> built Read (PReadResponse (read_response_new status v))"
| "key_wf k \<Longrightarrow> value_wf v \<Longrightarrow> built Promote (PPromoteRequest (promote_request_new k v ver ttl))"
| "built Promote (PPromoteResponse (promote_response_new status))"
| "batch_entries_wf es \<Longrightarrow> built BatchPromote (PBatchPromoteRequest (batch_request_new es cnt))"
| "built BatchPromote (PBatchPromoteResponse (batch_response_new cnt))"
| "key_wf k \<Longrightarrow> built Demote (PDemoteRequest (demote_request_new k))"
| "key_wf k \<Longrightarrow> built Invalidate (PInvalidateRequest (invalidate_request_new k ver))"
| "built Stats (PStatsRequest stats_request_new)"
| "built Stats (PStatsResponse (stats_response_new status stats))"
| "built Config (PConfigRequest (config_request_new mb me hi lo))"
| "built Flush (PFlushRequest flush_request_new)"

lemmas payload_new_defs = read_request_new_def read_response_new_def promote_request_new_def
  promote_response_new_def batch_request_new_def batch_response_new_def demote_request_new_def
  invalidate_request_new_def stats_request_new_def stats_response_new_def config_request_new_def
  flush_request_new_def

lemmas payload_size_defs [hkv_defs] = batch_entry_layout_def stats_layout_def
  MAX_BATCH_SIZE_def BATCH_RESULT_BYTES_def

lemma built_header: "built c p \<Longrightarrow> payload_header p = header_new c"
  by (induction rule: built.induct) (simp_all add: payload_new_defs)

subsection \<open>Every built payload has its layout\<close>

lemma c_typed_word [simp]:
  "c_typed (CInt (Suc 0)) (word_val (b :: byte))" "c_typed (CInt 2) (word_val (h :: u16))"
  "c_typed (CInt 4) (word_val (w :: u32))" "c_typed (CInt 8) (word_val (d :: u64))"
  using unsigned_less [of b] unsigned_less [of h] unsigned_less [of w] unsigned_less [of d] by (simp_all add: word_val_def)

lemma c_typed_bytes: "length bs = n \<Longrightarrow> c_typed (CArr n (CInt (Suc 0))) (bytes_val bs)"
  by (simp add: bytes_val_def list_all_length)

lemma c_typed_header: "c_typed header_layout (header_val h)"
  by (simp add: header_layout_def header_val_def)

lemma c_typed_key: "key_wf k \<Longrightarrow> c_typed key_layout (key_val k)"
  by (simp add: key_layout_def key_val_def key_wf_def c_typed_bytes)

lemma c_typed_value: "value_wf v \<Longrightarrow> c_typed value_layout (value_val v)"
  by (simp add: value_layout_def value_val_def value_wf_def c_typed_bytes)

lemma c_typed_stamps [simp]:
  "c_typed (CStruct [CInt 8]) (version_val ver)" "c_typed (CStruct [CInt 8]) (ttl_val ttl)"
  by (simp_all add: version_val_def ttl_val_def del: One_nat_def)

lemma c_typed_stats: "c_typed stats_layout (stats_val s)"
  by (simp add: stats_layout_def stats_val_def)

lemma c_typed_entries:
  "batch_entries_wf es \<Longrightarrow> length es = MAX_BATCH_SIZE \<and> list_all (c_typed batch_entry_layout) (map batch_entry_val es)"
  by (simp add: batch_entries_wf_def batch_entry_layout_def batch_entry_val_def list_all_length
      c_typed_key c_typed_value)

lemma built_typed: "built c p \<Longrightarrow> c_typed (payload_layout p) (payload_val p)"
  by (induction rule: built.induct)
    (simp_all add: payload_layout_def payload_val_def payload_new_defs c_typed_header c_typed_key c_typed_value
      c_typed_stats c_typed_entries c_typed_bytes)

subsection \<open>Sizes\<close>

lemma header_size [simp]: "c_size header_layout = 4" "c_align header_layout = 1"
  by (simp_all add: header_layout_def hkv_defs)

lemma payload_sizes:
  "c_size (payload_layout (PReadRequest m1)) = 262"
  "c_size (payload_layout (PReadResponse m2)) = 1032"
  "c_size (payload_layout (PPromoteRequest m3)) = 1304"
  "c_size (payload_layout (PPromoteResponse m4)) = 8"
  "c_size (payload_layout (PBatchPromoteRequest m5)) = 1304008"
  "c_size (payload_layout (PBatchPromoteResponse m6)) = 134"
  "c_size (payload_layout (PDemoteRequest m7)) = 262"
  "c_size (payload_layout (PInvalidateRequest m8)) = 272"
  "c_size (payload_layout (PStatsRequest m9)) = 4"
  "c_size (payload_layout (PStatsResponse m10)) = 112"
  "c_size (payload_layout (PConfigRequest m11)) = 40"
  "c_size (payload_layout (PFlushRequest m12)) = 4"
  by (simp_all add: payload_layout_def hkv_defs)

subsection \<open>The header is the first four bytes\<close>

lemma byte_image: "word_of_nat (unat (b :: byte) mod 256) = b"
proof -
  have "unat b < 256" using unsigned_less [of b] by simp
  then show ?thesis by simp
qed

lemma header_image:
  "c_encode pad header_layout (header_val h) = [ih_magic h, ih_version h, ih_command h, ih_reserved h]"
  by (simp add: header_layout_def header_val_def word_val_def byte_image hkv_defs)

lemma payload_image_header:
  "take 4 (payload_image pad p) =
    [ih_magic (payload_header p), ih_version (payload_header p), ih_command (payload_header p), ih_reserved (payload_header p)]"
  by (simp add: payload_image_def payload_layout_def payload_val_def header_image hkv_defs)

subsection \<open>The bytes of every payload\<close>

text \<open>
  The bytes of a key, a value and an entry of a batch, written out: a length of two bytes and the whole
  buffer, and before the two 64-bit fields of an entry four bytes of padding.
\<close>

definition key_abi :: "key \<Rightarrow> bytes" where
  "key_abi k = le_bytes 2 (unat (k_len k)) @ k_data k"

definition value_abi :: "val \<Rightarrow> bytes" where
  "value_abi v = le_bytes 2 (unat (v_len v)) @ v_data v"

definition entry_abi :: "byte \<Rightarrow> BatchPromoteEntry \<Rightarrow> bytes" where
  "entry_abi pad b = key_abi (be_key b) @ value_abi (be_value b) @ replicate 4 pad @
     le_bytes 8 (unat (version_get (be_version b))) @ le_bytes 8 (unat (ttl_as_nanos (be_ttl b)))"

lemma word_image [simp]: "c_encode pad (CInt n) (word_val w) = le_bytes n (unat w)"
  by (simp add: word_val_def)

lemma le_bytes_zero: "le_bytes n 0 = replicate n 0"
  by (induction n) simp_all

lemma bytes_image: "concat (map (c_encode pad (CInt (Suc 0)) \<circ> word_val) (bs :: bytes)) = bs"
  by (induction bs) (simp_all add: byte_image)

lemma key_image: "c_encode pad key_layout (key_val k) = key_abi k"
  by (simp add: key_layout_def key_val_def key_abi_def bytes_val_def bytes_image hkv_defs)

lemma value_image: "c_encode pad value_layout (value_val v) = value_abi v"
  by (simp add: value_layout_def value_val_def value_abi_def bytes_val_def bytes_image hkv_defs)

lemma stamp_image:
  "c_encode pad (CStruct [CInt 8]) (version_val ver) = le_bytes 8 (unat (version_get ver))"
  "c_encode pad (CStruct [CInt 8]) (ttl_val ttl) = le_bytes 8 (unat (ttl_as_nanos ttl))"
  by (simp_all add: version_val_def ttl_val_def hkv_defs)

lemma stats_image:
  "c_encode pad stats_layout (stats_val s) = concat (map (\<lambda>w. le_bytes 8 (unat w))
    [cs_lookups s, cs_hits s, cs_misses s, cs_stale_hits s, cs_promotions s, cs_demotions s, cs_evictions s,
     cs_invalidations s, cs_used_bytes s, cs_max_bytes s, cs_entry_count s, cs_lock_contentions s,
     cs_rcu_grace_periods s])"
  by (simp add: stats_layout_def stats_val_def round_up_eval)

lemma entry_image: "c_encode pad batch_entry_layout (batch_entry_val b) = entry_abi pad b"
  by (simp add: batch_entry_layout_def batch_entry_val_def entry_abi_def key_image value_image stamp_image
      type_sizes round_up_eval)

lemma entries_image: "c_encode pad batch_entry_layout \<circ> batch_entry_val = entry_abi pad"
  by (simp add: fun_eq_iff entry_image)

lemma byte_array_image: "c_encode pad (CArr n (CInt (Suc 0))) (bytes_val bs) = bs"
  by (simp add: bytes_val_def bytes_image)

lemma layout_sizes:
  "c_size batch_entry_layout = 1304" "c_align batch_entry_layout = 8"
  "c_size stats_layout = 104" "c_align stats_layout = 8"
  by (simp_all add: hkv_defs)

lemmas image_eqs = payload_image_def payload_layout_def payload_val_def payload_new_defs header_image header_new_def
  key_image value_image stamp_image stats_image entries_image byte_array_image type_sizes layout_sizes round_up_eval le_bytes_zero

subsection \<open>Reading back\<close>

lemma payload_image_length: "built c p \<Longrightarrow> length (payload_image pad p) = c_size (payload_layout p)"
  unfolding payload_image_def by (rule c_encode_length [OF built_typed])

lemma payload_image_decode: "built c p \<Longrightarrow> c_decode (payload_layout p) (payload_image pad p @ rest) = payload_val p"
  unfolding payload_image_def by (rule c_decode_encode [OF built_typed])

lemma word_val_inject [simp]: "word_val v = word_val w \<longleftrightarrow> v = w"
  by (simp add: word_val_def word_unat_eq_iff)

lemma bytes_val_inject [simp]: "bytes_val v = bytes_val w \<longleftrightarrow> v = w"
  by (simp add: bytes_val_def inj_map_eq_map inj_def)

lemma key_val_inject [simp]: "key_val k = key_val l \<longleftrightarrow> k = l"
  by (cases k; cases l) (simp add: key_val_def)

lemma value_val_inject [simp]: "value_val v = value_val w \<longleftrightarrow> v = w"
  by (cases v; cases w) (simp add: value_val_def)

lemma stamp_val_inject [simp]:
  "version_val a = version_val b \<longleftrightarrow> a = b" "ttl_val s = ttl_val t \<longleftrightarrow> s = t"
  by (cases a; cases b; cases s; cases t; simp add: version_val_def ttl_val_def)+

lemma stats_val_inject [simp]: "stats_val s = stats_val t \<longleftrightarrow> s = t"
  by (cases s; cases t) (simp add: stats_val_def)

lemma header_val_inject [simp]: "header_val h = header_val i \<longleftrightarrow> h = i"
  by (cases h; cases i) (simp add: header_val_def)

lemma batch_entry_val_inject [simp]: "batch_entry_val a = batch_entry_val b \<longleftrightarrow> a = b"
  by (cases a; cases b) (simp add: batch_entry_val_def)

lemma batch_entries_val_inject [simp]: "map batch_entry_val es = map batch_entry_val fs \<longleftrightarrow> es = fs"
  by (simp add: inj_map_eq_map inj_def)

text \<open>
  No two payloads share an image: the command byte and the size tell which structure it is.
\<close>

lemma built_same_layout:
  "built c p \<Longrightarrow> built c q \<Longrightarrow> c_size (payload_layout p) = c_size (payload_layout q) \<Longrightarrow>
    payload_layout p = payload_layout q"
  by (elim built.cases) (simp_all add: payload_sizes, simp_all add: payload_layout_def)

lemma payload_val_inject:
  "built c p \<Longrightarrow> built c q \<Longrightarrow> c_size (payload_layout p) = c_size (payload_layout q) \<Longrightarrow>
    payload_val p = payload_val q \<Longrightarrow> p = q"
  by (elim built.cases) (simp_all add: payload_sizes, simp_all add: payload_val_def payload_new_defs)

lemma header_new_command: "header_new c = header_new d \<longleftrightarrow> c = d"
  by (simp add: header_new_def as_u8_inject)

lemma payload_image_inject:
  assumes p: "built c p" and q: "built d q" and eq: "payload_image pad p = payload_image pad' q"
  shows "c = d \<and> p = q"
proof -
  have "payload_header p = payload_header q"
    using payload_image_header [of pad p] payload_image_header [of pad' q] eq
    by (cases "payload_header p"; cases "payload_header q") simp
  then have c: "c = d" using p q by (simp add: built_header header_new_command)
  have sz: "c_size (payload_layout p) = c_size (payload_layout q)"
    using payload_image_length [OF p, of pad] payload_image_length [OF q, of pad'] eq by simp
  have "payload_val p = payload_val q"
    using payload_image_decode [OF p, of pad "[]"] payload_image_decode [OF q, of pad' "[]"]
      built_same_layout [OF p _ sz] q c eq by simp
  then show ?thesis using payload_val_inject [OF p _ sz] q c by simp
qed

end
