(* ===== verification/Spec2Isabelle.thy ===== *)
theory Spec2Isabelle
  imports Wire Server_Process Bench_Engine HKV_Protocol "HOL-Library.List_Lexorder"
begin

text \<open>
  HybridKV, a key-value store in Rust: a verification of its user-space parts.

  \<^bold>\<open>The program.\<close> A server process (\<^verbatim>\<open>hkv-server\<close>) accepts TCP connections, cuts the byte stream of each
  into RESP requests, dispatches them to a shared in-memory engine (\<^verbatim>\<open>hkv-engine\<close>) and counts what it
  does. The client library (\<^verbatim>\<open>hkv-client\<close>) writes requests, reads replies and keeps a pool of connections.
  \<^verbatim>\<open>hkv-common\<close> holds the vocabulary shared with a kernel module: error codes, types with a C layout,
  the commands of the device and their payloads. The kernel module itself, the GUI and the benchmark
  crate are placeholders in the repository.

  \<^bold>\<open>How code becomes definitions.\<close> Machine integers are words, so that \<open>+\<close> and \<open>-\<close> wrap around as they do in
  a release build; \<^verbatim>\<open>Vec<u8>\<close>, slices and buffers are lists of bytes. Code that may panic returns an
  option, with \<open>None\<close> for the panic; a \<^verbatim>\<open>Result\<close> is a sum with the error on the left. Mutable structures
  are records that are passed and returned. A critical section is one function of the state its lock
  protects. Clocks, hash functions, the order in which a hash map is visited, sockets and the allocations
  whose size comes from outside (the shards of an engine, the pool, the benchmark's buffers, the lengths a
  reply announces) are arguments, and a theorem that relies on one of them says so in a hypothesis.

  \<^bold>\<open>Theories and sources.\<close>
  \<^item> \<open>HKV_Prelude\<close>: machine types, saturating arithmetic, vectors, the locale \<open>invariant_system\<close>, and
    \<open>labelled_run\<close>, the executions of a transition system with labelled steps.
    \<open>HKV_Time\<close>: instants, durations, the wall clock. \<open>Decimal\<close>: the digit loops of the printers and
    parsers of decimal numbers. \<open>Float64\<close>: rounding to 53 bits and decimal formats, for the figures of the
    metrics and the benchmark. \<open>Utf8_Text\<close>: \<^verbatim>\<open>String::from_utf8_lossy\<close> against the encoding of code points.
  \<^item> \<open>HKV_Error\<close> (\<^verbatim>\<open>hkv-common/src/error.rs\<close>): errors, their codes, categories and messages.
  \<^item> \<open>Shard_LRU\<close> and \<open>Shard_Refine\<close> (\<^verbatim>\<open>hkv-engine/src/memory.rs\<close>, \<^verbatim>\<open>Node\<close> and \<^verbatim>\<open>ShardInner\<close>): the doubly
    linked list in an arena with a free list and a map, and its refinement to a list of entries from
    the least to the most recently used one.
  \<^item> \<open>Memory_Engine\<close> (\<^verbatim>\<open>MemoryEngine\<close>): the record \<open>memory_engine\<close>, the sections \<open>get_section\<close>, \<open>set_section\<close>,
    \<open>delete_section\<close>, \<open>expire_section\<close>, \<open>ttl_section\<close> and the operations \<open>kv_get\<close>, \<open>kv_set\<close> and so on around them,
    \<open>evict_if_needed\<close>, \<open>purge_expired\<close> and the constructors, which panic when the vector of shards cannot be
    allocated.
    \<open>Engine_Sections\<close>, \<open>Engine_Inv\<close>, \<open>Engine_Evict\<close> and \<open>Engine_Laws\<close> hold the invariant \<open>engine_inv\<close>, the
    refinement of every section, and one law per operation over \<open>view\<close>, the entries of the engine.
  \<^item> \<open>KV_Trait\<close> (\<^verbatim>\<open>hkv-engine/src/engine.rs\<close>): the trait \<^verbatim>\<open>KVEngine\<close> as a table of operations, its laws as the
    locales \<open>kv_store\<close> and \<open>kv_store_lossless\<close>, and their interpretations by the engine.
  \<^item> \<open>Engine_Concurrency\<close>: threads that share an engine. A step is a section under a shard's lock or one
    access to an atomic counter; \<open>threads\<close> interprets \<open>invariant_system\<close>, and the locale \<open>kv_history\<close> holds what
    follows for whole executions. \<open>Engine_Linear\<close>: the locale \<open>kv_linear\<close>, executions that a map with
    deadlines can follow operation by operation. \<open>Expirer\<close>: the thread of \<^verbatim>\<open>start_expirer\<close> and its stop handle.
  \<^item> \<open>Resp_Parser\<close> (\<^verbatim>\<open>hkv-server/src/protocol.rs\<close>): the incremental parser \<open>parse\<close> over a buffer.
  \<^item> \<open>Metrics\<close> (\<^verbatim>\<open>hkv-server/src/metrics.rs\<close>): counters, histogram, snapshots and percentiles.
  \<^item> \<open>Server\<close>, \<open>Server_Laws\<close> and \<open>Server_Counters\<close> (\<^verbatim>\<open>hkv-server/src/server.rs\<close>): the reply encoders, one
    definition per command handler, \<open>dispatch_command\<close>, and the connection loop over the chunks a socket
    delivers. \<open>Server_Programs\<close>: the handlers once more, as programs that stop at each call of the engine,
    with the proof that run in one go they are the handlers.
  \<^item> \<open>Server_Process\<close> (\<^verbatim>\<open>hkv-server/src/main.rs\<close> with \<^verbatim>\<open>server.rs\<close>): the process with its engine, counters, sweeper
    and any number of connections. \<open>conn_step\<close> is one step of a connection's task, \<open>process_step\<close> one step of
    the process; \<open>server\<close> interprets \<open>invariant_system\<close> and \<open>server_linear\<close> interprets \<open>kv_linear\<close>.
  \<^item> \<open>Client_Resp\<close>, \<open>Client_Pool\<close> and \<open>Client\<close> (\<^verbatim>\<open>hkv-client/src/resp.rs\<close>, \<^verbatim>\<open>pool.rs\<close>, \<^verbatim>\<open>client.rs\<close>): the request
    encoder and the reply decoder, the pool with its transition system \<open>pool_step\<close>, and one definition
    per method of \<^verbatim>\<open>KVClient\<close>, with the text of its errors. \<open>Wire\<close> connects the client's connection to the server's loop.
  \<^item> \<open>C_Layout\<close>: sizes, alignments and memory images of \<^verbatim>\<open>repr(C)\<close> structures on a 64-bit little-endian
    machine. \<open>HKV_Types\<close>, \<open>HKV_Ioctl\<close> and \<open>HKV_Protocol\<close> (\<^verbatim>\<open>hkv-common/src/types.rs\<close>, \<^verbatim>\<open>ioctl.rs\<close>,
    \<^verbatim>\<open>protocol.rs\<close>): the shared types, the commands and the payloads.
  \<^item> \<open>Bench_Engine\<close> (\<^verbatim>\<open>hkv-engine/src/bin/bench_engine.rs\<close>): the benchmark of the engine.

  \<^bold>\<open>What is shown.\<close> The properties below are grouped by component.
  \<^item> The engine answers any sequence of calls like a map with deadlines; with a byte limit it is a cache
    of that map that meets the limit after every \<^verbatim>\<open>set\<close> and gives up the least recently used entries of a
    shard first. Eviction ends. The sweep removes the expired entries and nothing else.
  \<^item> With any interleaving of threads the engine stays well formed, its byte counter is exact up to
    subtractions under way, no thread panics, and values read were written. \<^verbatim>\<open>stop\<close> of the sweeper returns.
  \<^item> With any interleaving of its connections and its sweeper the server process keeps its engine and its
    counters consistent and no task is stuck. When the instants that calls use follow the order of their
    sections, the calls on the engine are linearizable: they answer as a map with deadlines that runs
    them one at a time. Serving one connection alone is the sequential loop.
  \<^item> The parser accepts exactly the RESP texts of requests, independently of how they are cut into reads,
    and panics on two lengths only; what the client writes the server reads, and what the server
    writes the client reads. The reply decoder ends on every input, and stops short of a value or an error
    only at an announced length that cannot be allocated.
  \<^item> A client call through pool, wire, parser, dispatch and engine has the effect of the engine's
    operation, and the counters of the server agree with the replies it has sent.
  \<^item> The histogram counts every sample in the bucket its value belongs to and percentiles are the buckets of their ranks. The pool keeps its
    books and limits under any interleaving.
  \<^item> Keys and values respect their capacities; the bytes of every payload of the device are written out,
    and payloads are told apart by them. Keys and errors are shown as well-formed text. A benchmark run
    ends, reports, hits every key and leaves exactly the keys it has prepared.
  \<^item> Some properties state where the code does not do what it means to: the huge bulk length, the
    out-of-range deadline, the in-flight gauge after a failed write, the allocation of announced lengths in
    the client, the 99.9th percentile, times to live below a second, and the clock of \<^verbatim>\<open>Ttl\<close>, which is the wall
    clock and not the documented \<^verbatim>\<open>CLOCK_MONOTONIC\<close>.

  \<^bold>\<open>Bounds and fuel.\<close> The only fuel is the argument \<open>depth\<close> of \<open>read_response\<close>, the number of nested calls the
  stack has room for; a depth above the number of bytes left is always enough. All loops are total
  functions: eviction decreases the number of occupied slots, the parser the bytes of its buffer. The
  loop of a connection runs over the list of reads that its environment provides; in the process a
  connection and the sweeper are step relations without a bound.

  \<^bold>\<open>Not modelled.\<close>
  \<^item> Of \<^verbatim>\<open>hkv-server/src/main.rs\<close>, reading the address and binding the socket; a failed bind or accept ends the
    process, and with it the execution.
  \<^item> The sources read the clock just before they lock a shard. The order of sections is not always the
    order of the instants they use; linearizability is shown for executions in which it is, all other
    statements about interleavings hold for any instants.
  \<^item> Within one section under a lock the intermediate values of \<^verbatim>\<open>used_bytes\<close> are not visible to the other
    threads of the model, and atomics are sequentially consistent. Each call of \<^verbatim>\<open>Metrics\<close>, a snapshot
    included, is one step, although the sources update and read its atomics one by one.
  \<^item> \<^verbatim>\<open>Debug\<close> of keys, values and entries, which escapes characters by tables of the standard library; the
    kernel module, the GUI and the benchmark crate, which have no behaviour; tests.
\<close>

section \<open>The in-memory engine\<close>

text \<open>The engines of the witnesses: four shards, with and without a byte limit.\<close>

lemma four_shards: "engine_inv (engine_of h 4 cap)" "view (engine_of h 4 cap) = Map.empty" "e_max_bytes (engine_of h 4 cap) = cap"
  using engine_of_fresh [of 2 h cap] by (simp_all add: engine_of_def)

lemma fresh_unbounded: "unbounded_inv (engine_of h 4 (- 1)) \<and> view (engine_of h 4 (- 1)) = Map.empty"
  by (simp add: unbounded_inv_def four_shards)

text \<open>
  C1. Without a byte limit the in-memory engine is indistinguishable from a map with deadlines: any
  sequence of trait calls at non-decreasing instants gets the same answers (or the same panic).
\<close>

theorem unbounded_engine_is_map:
  assumes "unbounded_inv e" and "time_ordered now cs"
  shows "map_option fst (run_cmds memory_kv cs e) = map_option fst (run_cmds spec_kv cs (view e))"
  using assms by (intro memory_unbounded.run_cmds_simulates) (simp_all add: memory_unbounded.simulates_def)

theorem unbounded_engine_is_map_witness:
  "map_option fst (run_cmds memory_kv
      [(5, Cmd_Set [1] [2]), (6, Cmd_Expire [1] 10), (7, Cmd_Get [1]), (20, Cmd_Get [1])]
      (engine_of (\<lambda>_. 3) 4 (- 1))) =
    Some [Ans_Unit (Inr ()), Ans_Unit (Inr ()), Ans_Value (Inr (Some [2])), Ans_Value (Inr None)]"
  using unbounded_engine_is_map [of "engine_of (\<lambda>_. 3) 4 (- 1)" 0
      "[(5, Cmd_Set [1] [2]), (6, Cmd_Expire [1] 10), (7, Cmd_Get [1]), (20, Cmd_Get [1])]"]
    fresh_unbounded [of "\<lambda>_. 3"]
  by (simp add: spec_kv_def live_at_def instant_add_def instant_limit_def nanos_per_sec_def)

text \<open>
  C2. With a byte limit the engine is a cache of that map: it runs whenever the map does, keeps its
  invariant, and each answer is the map's answer or says that the key is not there.
\<close>

theorem bounded_engine_is_cache:
  assumes "engine_inv e" and "time_ordered now cs" and "run_cmds spec_kv cs (view e) = Some (bs, m)"
  shows "\<exists>as e'. run_cmds memory_kv cs e = Some (as, e') \<and> list_all2 cache_answer as bs \<and> engine_inv e'"
  using assms by (intro memory.run_cmds_cached) (simp_all add: memory.cached_def)

theorem bounded_engine_is_cache_witness:
  "\<exists>as e'. run_cmds memory_kv [(5, Cmd_Set [1] [2]), (6, Cmd_Get [1])]
      (engine_of (\<lambda>_. 3) 4 1) = Some (as, e') \<and>
    list_all2 cache_answer as [Ans_Unit (Inr ()), Ans_Value (Inr (Some [2]))] \<and> engine_inv e'"
  using four_shards [of "\<lambda>_. 3" 1]
  by (intro bounded_engine_is_cache [where now = 0 and m = "[[1] \<mapsto> ([2], None)]"])
    (auto simp: spec_kv_def live_at_def expired_at_def)

text \<open>
  C3. A \<^verbatim>\<open>set\<close> always succeeds and leaves the engine within its byte limit; what is stored afterwards
  is the new entry and entries from before; and the new entry is only missing if its whole shard
  had to be evicted.
\<close>

theorem set_within_limit:
  assumes "engine_inv e"
  shows "\<exists>e'. kv_set e now k v = Some (Inr (), e') \<and> engine_inv e' \<and> same_config e e' \<and>
    view e' \<subseteq>\<^sub>m (view e)(k \<mapsto> (v, None)) \<and> e_used_bytes e' \<le> e_max_bytes e \<and>
    (view e' k = Some (v, None) \<or> abs_shards e' ! key_slot e k = [])"
  using kv_set_law [OF assms] by blast

theorem set_within_limit_witness:
  "\<exists>e'. kv_set (engine_of (\<lambda>_. 3) 4 100) 7 [1] [2] = Some (Inr (), e') \<and>
    e_used_bytes e' \<le> 100"
  using set_within_limit [of "engine_of (\<lambda>_. 3) 4 100" 7 "[1]" "[2]"]
    four_shards [of "\<lambda>_. 3" 100]
  by (auto simp: engine_of_def)

text \<open>
  C4. Eviction terminates and meets the byte limit. It is a sequence of steps each of which starts
  above the limit and drops the least recently used entry of one shard, so that every shard keeps
  its most recently used entries; nothing happens when the limit is met already.
\<close>

theorem eviction_trims_oldest:
  assumes "engine_inv e"
  shows "\<exists>e'. evict_if_needed e = Some e' \<and> engine_inv e' \<and> e_used_bytes e' \<le> e_max_bytes e' \<and>
    evict_step\<^sup>*\<^sup>* e e' \<and> list_all2 suffix (abs_shards e') (abs_shards e) \<and>
    (e_used_bytes e \<le> e_max_bytes e \<longrightarrow> e' = e)"
  using evict_if_needed_refines [OF assms] by (auto simp: trimmed_def)

theorem eviction_trims_oldest_witness:
  "evict_if_needed (engine_of (\<lambda>_. 3) 4 100) =
    Some (engine_of (\<lambda>_. 3) 4 100)"
  using eviction_trims_oldest [of "engine_of (\<lambda>_. 3) 4 100"]
    four_shards [of "\<lambda>_. 3" 100]
  by (auto simp: engine_of_def)

text \<open>
  C10. A hit moves the entry to the most recently used end of its shard and leaves the other shards
  alone, so that the order eviction follows is the order of last use.
\<close>

theorem get_moves_to_back:
  assumes "engine_inv e" and "live_at now (view e) k = Some (v, d)"
  shows "\<exists>e'. kv_get e now k = Some (Inr (Some v), e') \<and> engine_inv e' \<and> view e' = view e \<and>
    abs_shards e' = (abs_shards e)[key_slot e k := move_to_back k (abs_shards e ! key_slot e k)]"
proof (cases rule: key_cases [of e k now])
  case (live v' d')
  with assms have "abs_get now k (abs_shards e ! key_slot e k) =
      Some (Inr (Some v), move_to_back k (abs_shards e ! key_slot e k))"
    by (simp add: abs_get_def)
  from under_lock_refines [OF assms(1) get_section_refines local_ops(1) this] live show ?thesis
    by (auto simp: kv_get_def fun_upd_idem)
qed (use assms in simp_all)

text \<open>The engine of the next witness: one entry, with a deadline.\<close>

lemma one_entry_engine:
  obtains e where "engine_inv e" and "view e = [[1] \<mapsto> ([2], Some 16)]"
proof -
  let ?e = "engine_of (\<lambda>_. 3) 4 (- 1)"
  have inv: "engine_inv ?e" and empty: "view ?e = Map.empty" and max: "e_max_bytes ?e = - 1"
    using fresh_unbounded [of "\<lambda>_. 3"] by (simp_all add: unbounded_inv_def)
  from kv_set_law [OF inv, of 5 "[1]" "[2]"] max obtain e1 where
    e1: "engine_inv e1" "view e1 = [[1] \<mapsto> ([2], None)]" by (auto simp: empty)
  have "live_at 6 (view e1) [1] = Some ([2], None)" "instant_add 6 10 = Some 16"
    by (simp_all add: e1(2) live_at_def instant_add_def instant_limit_def nanos_per_sec_def)
  from kv_expire_live [OF e1(1) this] e1(2) that show thesis by auto
qed

theorem get_moves_to_back_witness:
  "\<exists>e e'. view e = [[1] \<mapsto> ([2], Some 16)] \<and> kv_get e 7 [1] = Some (Inr (Some [2]), e') \<and> view e' = view e"
proof -
  obtain e where e: "engine_inv e" "view e = [[1] \<mapsto> ([2], Some 16)]" using one_entry_engine .
  then have "live_at 7 (view e) [1] = Some ([2], Some 16)" by (simp add: live_at_def)
  from get_moves_to_back [OF e(1) this] e(2) show ?thesis by blast
qed

text \<open>
  C11. \<^verbatim>\<open>expire\<close> has three outcomes: \<^verbatim>\<open>NotFound\<close> for a key that is missing or expired, a panic for a
  duration beyond the range of \<^verbatim>\<open>Instant\<close>, and otherwise the deadline is set and nothing else
  changes.
\<close>

theorem expire_outcomes:
  assumes "engine_inv e"
  shows "case live_at now (view e) k of
      None \<Rightarrow> \<exists>e'. kv_expire e now k dur = Some (Inl NotFound, e') \<and> engine_inv e' \<and>
        live_eq now (view e') (view e)
    | Some (v, d) \<Rightarrow> (case instant_add now dur of
        None \<Rightarrow> kv_expire e now k dur = None
      | Some t \<Rightarrow> \<exists>e'. kv_expire e now k dur = Some (Inr (), e') \<and> engine_inv e' \<and>
          view e' = (view e)(k \<mapsto> (v, Some t)))"
proof (cases "live_at now (view e) k")
  case None
  with kv_expire_missing [OF assms None, of dur] show ?thesis by auto
next
  case (Some x)
  obtain v d where x: "x = (v, d)" by (cases x)
  show ?thesis
  proof (cases "instant_add now dur")
    case None
    with kv_expire_panic [OF assms Some [unfolded x] None] Some x show ?thesis by simp
  next
    case t: (Some t)
    with kv_expire_live [OF assms Some [unfolded x] t] Some x show ?thesis by auto
  qed
qed

theorem expire_outcomes_witness:
  "\<exists>e. view e = [[1] \<mapsto> ([2], Some 16)] \<and> kv_expire e 7 [1] instant_limit = None"
proof -
  obtain e where e: "engine_inv e" "view e = [[1] \<mapsto> ([2], Some 16)]" using one_entry_engine .
  then have "live_at 7 (view e) [1] = Some ([2], Some 16)" by (simp add: live_at_def)
  moreover have "instant_add 7 instant_limit = None" by (simp add: instant_add_def)
  ultimately show ?thesis using expire_outcomes [OF e(1), of 7 "[1]" instant_limit] e(2) by auto
qed

text \<open>
  C12. A sweep removes exactly the expired entries, keeps the order of the others in every shard,
  and returns how many it removed; \<open>vals\<close> is the iteration order of the hash map, any order in
  which every key is visited once.
\<close>

theorem purge_removes_expired:
  assumes "visits_values vals" and "engine_inv e"
  shows "\<exists>e'. purge_expired vals e now = Some (of_nat (expired_count now e), e') \<and> engine_inv e' \<and>
    abs_shards e' = map (live_entries now) (abs_shards e) \<and> view e' = live_at now (view e)"
  using purge_expired_law [OF assms, of now] by blast

text \<open>An order of iteration: by the keys, compared as lists.\<close>

definition sorted_values :: "(bytes \<rightharpoonup> nat) \<Rightarrow> nat list" where
  "sorted_values m = map (\<lambda>k. the (m k)) (sorted_list_of_set (dom m))"

lemma sorted_values_visits: "visits_values sorted_values"
  unfolding visits_values_def sorted_values_def
  by (metis distinct_sorted_list_of_set set_sorted_list_of_set)

theorem purge_removes_expired_witness:
  "\<exists>e n e'. view e = [[1] \<mapsto> ([2], Some 16)] \<and> purge_expired sorted_values e 16 = Some (n, e') \<and>
    view e' = Map.empty"
proof -
  obtain e where e: "engine_inv e" "view e = [[1] \<mapsto> ([2], Some 16)]" using one_entry_engine .
  have "live_at 16 (view e) = Map.empty" by (simp add: e(2) live_at_def fun_eq_iff)
  with purge_removes_expired [OF sorted_values_visits e(1), of 16] e(2) show ?thesis by auto
qed

text \<open>
  C13. The shard count is rounded up to the least power of two that is not below the request. If a vector
  of that many shards can be allocated, the constructor returns an empty engine with that many shards and
  the given byte limit, which satisfies the invariant; otherwise it panics.
\<close>

theorem fresh_engine_shards:
  assumes "unat shards \<le> 2 ^ 63"
  shows "\<exists>n<64. normalize_shard_count shards = 2 ^ n \<and>
    unat shards \<le> 2 ^ n \<and> (\<forall>m<n. 2 ^ m < max 1 (unat shards)) \<and>
    (if alloc_shards (2 ^ n)
     then \<exists>e. with_shard_count_and_capacity alloc_shards h shards cap = Some e \<and> length (e_shards e) = 2 ^ n \<and>
       e_max_bytes e = cap \<and> engine_inv e \<and> view e = Map.empty
     else with_shard_count_and_capacity alloc_shards h shards cap = None)"
proof -
  obtain n where n: "n < 64" "normalize_shard_count shards = 2 ^ n" "unat shards \<le> 2 ^ n"
    "\<forall>m<n. 2 ^ m < max 1 (unat shards)" using normalize_shard_count_power [OF assms] by blast
  then show ?thesis using engine_of_fresh [OF n(1), of h cap]
    by (intro exI [of _ n]) (simp add: with_shard_count_and_capacity_def unat_exp engine_of_def)
qed

theorem fresh_engine_shards_witness:
  "\<exists>e. with_shard_count_and_capacity (\<lambda>n. n \<le> 1024) (\<lambda>_. 0) 5 100 = Some e \<and> length (e_shards e) = 8 \<and>
    engine_inv e \<and> view e = Map.empty"
proof -
  from fresh_engine_shards [of 5 "\<lambda>n. n \<le> 1024" "\<lambda>_. 0" 100]
  obtain n where n: "5 \<le> (2 :: nat) ^ n" "\<forall>m<n. (2 :: nat) ^ m < 5"
    and e: "if (2 :: nat) ^ n \<le> 1024
      then \<exists>e. with_shard_count_and_capacity (\<lambda>n. n \<le> 1024) (\<lambda>_. 0) 5 100 = Some e \<and> length (e_shards e) = 2 ^ n \<and>
        e_max_bytes e = 100 \<and> engine_inv e \<and> view e = Map.empty
      else with_shard_count_and_capacity (\<lambda>n. n \<le> 1024) (\<lambda>_. 0) 5 100 = None" by auto
  have "\<not> 3 < n" using n(2) by force
  moreover have "\<not> n \<le> 2"
  proof
    assume "n \<le> 2"
    then have "(2 :: nat) ^ n \<le> 2 ^ 2" by (rule power_increasing) simp
    with n(1) show False by simp
  qed
  ultimately have "n = 3" by linarith
  with e show ?thesis by auto
qed

section \<open>Threads that share the engine\<close>

text \<open>
  C7. However the threads of the process interleave, the shared state stays consistent: every shard
  is well formed and the byte counter is the number of bytes stored plus what evicting threads have
  unlinked and not yet subtracted, so that it is exact whenever no subtraction is outstanding. No
  thread is ever stuck or panics: an eviction or a sweep can always take its next step, and every
  operation of the trait goes through unless the map with deadlines panics on it as well.
\<close>
theorem threads_keep_engine_consistent:
  assumes "reach conc_init (\<lambda>s s'. \<exists>ev. conc_step ev s s') (ts, e)"
  shows "engine_inv (settled_engine (ts, e)) \<and>
    ((\<forall>t\<in>set ts. \<forall>sz. t \<noteq> Evict_Sub sz) \<longrightarrow> engine_inv e \<and> e_used_bytes e = engine_bytes e) \<and>
    (\<forall>t\<in>set ts. t \<noteq> Idle \<longrightarrow> (\<exists>u e'. thread_step None (t, e) (u, e'))) \<and>
    (run_cmd spec_kv now c (view e) \<noteq> None \<longrightarrow>
      (\<exists>a e'. thread_step (Some (now, c, a)) (Idle, e) (after_cmd e c, e')))"
proof (intro conjI impI ballI)
  have inv: "conc_inv (ts, e)" using threads.reach_inv [OF assms] .
  then show settled: "engine_inv (settled_engine (ts, e))" by (simp add: conc_inv_def)
  show "engine_inv e" if "\<forall>t\<in>set ts. \<forall>sz. t \<noteq> Evict_Sub sz" using conc_quiescent [OF inv that] .
  then show "e_used_bytes e = engine_bytes e" if "\<forall>t\<in>set ts. \<forall>sz. t \<noteq> Evict_Sub sz"
    using that by (simp add: engine_inv_def)
  show "\<exists>u e'. thread_step None (t, e) (u, e')" if "t \<noteq> Idle" for t
    using thread_goes_on [OF settled [unfolded settled_engine.simps] that] .
  show "\<exists>a e'. thread_step (Some (now, c, a)) (Idle, e) (after_cmd e c, e')"
    if "run_cmd spec_kv now c (view e) \<noteq> None"
    using op_settled [OF settled [unfolded settled_engine.simps], of c now] that
    by (auto intro: thread_step.op split: option.splits)
qed

lemma demo_set_step:
  defines "e \<equiv> engine_of (\<lambda>_. 3) 4 1"
  shows "\<exists>e'. conc_step (Some (7, Cmd_Set [1] [2], Ans_Unit (Inr ()))) ([Idle, Idle], e) ([Evict_Load, Idle], e')"
proof -
  have inv: "engine_inv e" unfolding e_def using four_shards by simp
  from op_law [OF inv, of "Cmd_Set [1] [2]" 7] obtain e' where
    "under_lock e (cmd_key (Cmd_Set [1] [2])) (op_section 7 (Cmd_Set [1] [2])) = Some (Ans_Unit (Inr ()), e')"
    by (auto simp: spec_kv_def)
  from thread_step.op [OF this] have "thread_step (Some (7, Cmd_Set [1] [2], Ans_Unit (Inr ()))) (Idle, e) (Evict_Load, e')"
    by (simp add: after_cmd_def e_def engine_of_def)
  then have "conc_step (Some (7, Cmd_Set [1] [2], Ans_Unit (Inr ()))) ([Idle, Idle], e) ([Evict_Load, Idle], e')"
    by (rule conc_stepI [where i = 0]) simp_all
  then show ?thesis by blast
qed

theorem threads_keep_engine_consistent_witness:
  "\<exists>e. reach conc_init (\<lambda>s s'. \<exists>ev. conc_step ev s s') ([Evict_Load, Idle], e) \<and>
    e_used_bytes e = engine_bytes e \<and> (\<exists>u e'. thread_step None (Evict_Load, e) (u, e'))"
proof -
  let ?e = "engine_of (\<lambda>_. 3) 4 1"
  have "conc_init ([Idle, Idle], ?e)" using four_shards by (simp add: conc_init_def)
  then have "reach conc_init (\<lambda>s s'. \<exists>ev. conc_step ev s s') ([Idle, Idle], ?e)" by (rule reach_init)
  with demo_set_step obtain e' where r: "reach conc_init (\<lambda>s s'. \<exists>ev. conc_step ev s s') ([Evict_Load, Idle], e')"
    using reach_step [of conc_init "\<lambda>s s'. \<exists>ev. conc_step ev s s'"] by blast
  with threads_keep_engine_consistent [OF r, of 0 "Cmd_Get []"] show ?thesis by auto
qed

text \<open>
  C8. In every concurrent execution that starts from an empty engine, a value that some thread reads
  under a key has been written under that key by an earlier \<^verbatim>\<open>set\<close> of some thread.
\<close>
theorem concurrent_reads_were_written:
  assumes "labelled_run conc_step (xs @ Some (now, Cmd_Get k, Ans_Value (Inr (Some v))) # ys) (ts, e) s"
    and "engine_inv e" and "view e = Map.empty" and "\<forall>t\<in>set ts. t = Idle"
  shows "\<exists>t0 a. Some (t0, Cmd_Set k v, a) \<in> set xs"
  using threads_history.read_written [OF assms(1) conc_init_inv] assms(2-4)
  by (simp add: conc_init_def written_def)

lemma demo_set_get_run:
  defines "e \<equiv> engine_of (\<lambda>_. 3) 4 (- 1)"
  shows "\<exists>s. labelled_run conc_step ([Some (5, Cmd_Set [1] [2], Ans_Unit (Inr ()))] @
    Some (6, Cmd_Get [1], Ans_Value (Inr (Some [2]))) # []) ([Idle, Idle], e) s"
proof -
  have inv: "engine_inv e" and empty: "view e = Map.empty"
    unfolding e_def using fresh_unbounded by (simp_all add: unbounded_inv_def)
  have max: "e_max_bytes e = - 1" by (simp add: e_def engine_of_def)
  from op_settled [of e 0 "Cmd_Set [1] [2]" 5] inv obtain e1 where
    e1: "under_lock e (cmd_key (Cmd_Set [1] [2])) (op_section 5 (Cmd_Set [1] [2])) = Some (Ans_Unit (Inr ()), e1)"
      "engine_inv e1" "acts_as 5 (Cmd_Set [1] [2]) (Ans_Unit (Inr ())) (view e) (view e1)"
    by (auto simp: spec_kv_def)
  have "live_eq 5 (view e1) ((view e)([1] \<mapsto> ([2], None)))" using e1(3) by (auto simp: acts_as_def spec_kv_def)
  then have "live_at 6 (view e1) [1] = Some ([2], None)"
    using live_eq_now [OF live_eq_later [of 5 _ _ 6]] by (simp add: live_at_def expired_at_def)
  with op_law [OF e1(2), of "Cmd_Get [1]" 6] obtain e2 where
    e2: "under_lock e1 (cmd_key (Cmd_Get [1])) (op_section 6 (Cmd_Get [1])) = Some (Ans_Value (Inr (Some [2])), e2)"
    by (auto simp: spec_kv_def)
  have s1: "conc_step (Some (5, Cmd_Set [1] [2], Ans_Unit (Inr ()))) ([Idle, Idle], e) ([Idle, Idle], e1)"
    by (rule conc_stepI [OF thread_step.op [OF e1(1)], where i = 0]) (simp_all add: after_cmd_def max)
  have s2: "conc_step (Some (6, Cmd_Get [1], Ans_Value (Inr (Some [2])))) ([Idle, Idle], e1) ([Idle, Idle], e2)"
    by (rule conc_stepI [OF thread_step.op [OF e2], where i = 1]) (simp_all add: after_cmd_def)
  show ?thesis using run_snoc [where step = conc_step, OF run_snoc [where step = conc_step, OF run_nil s1] s2] by auto
qed

theorem concurrent_reads_were_written_witness:
  "\<exists>t0 a. Some (t0, Cmd_Set [1] [2], a) \<in> set [Some (5 :: instant, Cmd_Set [1] [2], Ans_Unit (Inr ()))]"
proof -
  obtain s where run: "labelled_run conc_step ([Some (5, Cmd_Set [1] [2], Ans_Unit (Inr ()))] @
      Some (6, Cmd_Get [1], Ans_Value (Inr (Some [2]))) # []) ([Idle, Idle], engine_of (\<lambda>_. 3) 4 (- 1)) s"
    using demo_set_get_run by blast
  show ?thesis
    by (rule concurrent_reads_were_written [OF run]) (use fresh_unbounded in \<open>simp_all add: unbounded_inv_def\<close>)
qed

text \<open>
  C9. \<^verbatim>\<open>stop\<close> returns. Whatever the sweeper was doing when its handle set the flag, and whatever the other
  threads do to the engine, the sweeper and the handle have at most as many steps left as the engine
  has shards, plus five; until \<^verbatim>\<open>join\<close> has returned one of them is possible; and then the thread has
  ended. The sweeper never spins: its interval is not zero.
\<close>

theorem expirer_stops:
  assumes "reach expirer_init (\<lambda>s s'. \<exists>own. expirer_system own s s') (x, e)" and "x_handle x = Joining"
    and "labelled_run expirer_system ls (x, e) (x', e')"
  shows "count_list ls True \<le> length (e_shards e) + 5 \<and>
    (if x_handle x' = Stopped then x_thread x' = Ended else \<exists>s. expirer_system True (x', e') s) \<and> 0 < x_interval x'"
proof -
  have inv: "expirer_inv (x, e)" using sweeper.reach_inv [OF assms(1)] .
  have inv': "expirer_inv (x', e')" using sweeper.steps_inv [OF labelled_run_steps [OF assms(3)] inv] .
  then obtain q where x': "expirer_ok x'" "engine_inv (settle q e')" "0 < x_interval x'" by (auto simp: expirer_inv_def)
  have "expirer_ok x" "x_stop x" using inv assms(2) by (auto simp: expirer_inv_def expirer_ok_def)
  with expirer_run_left [OF assms(3)] have left: "x_stop x'" "count_list ls True \<le> steps_left (x, e)" by auto
  from left(1) x'(1) have "x_handle x' = Joining \<or> x_handle x' = Stopped" by (cases "x_handle x'") (auto simp: expirer_ok_def)
  with stop_goes_on [OF x'(2,1)] left(2) steps_left_bound [of x e] x' show ?thesis by (auto simp: expirer_ok_def)
qed

theorem expirer_stops_witness:
  "\<exists>x e ls x' e'. reach expirer_init (\<lambda>s s'. \<exists>own. expirer_system own s s') (x, e) \<and> x_handle x = Joining \<and>
    labelled_run expirer_system ls (x, e) (x', e') \<and> x_thread x' = Ended \<and> x_handle x' = Stopped \<and>
    count_list ls True \<le> length (e_shards e) + 5"
proof -
  define e where "e = engine_of (\<lambda>_. 3) 4 (- 1)"
  define x where "x = (start_expirer 0)\<lparr>x_stop := True, x_handle := Joining\<rparr>"
  have "expirer_init (start_expirer 0, e)" using fresh_unbounded by (auto simp: expirer_init_def e_def unbounded_inv_def)
  moreover have "expirer_system True (start_expirer 0, e) (x, e)"
    unfolding x_def by (intro handle store) (simp add: start_expirer_def)
  ultimately have r: "reach expirer_init (\<lambda>s s'. \<exists>own. expirer_system own s s') (x, e)"
    by (blast intro: reach_init reach_step)
  have x: "x_handle x = Joining" by (simp add: x_def)
  have "expirer_system True (x, e) (x\<lparr>x_thread := Ended\<rparr>, e)"
    by (intro own leave) (simp_all add: x_def start_expirer_def)
  moreover have "expirer_system True (x\<lparr>x_thread := Ended\<rparr>, e) (x\<lparr>x_thread := Ended, x_handle := Stopped\<rparr>, e)"
    using handle [OF join, of "x\<lparr>x_thread := Ended\<rparr>" e] by (simp add: x_def)
  ultimately have run: "labelled_run expirer_system ([] @ [True] @ [True]) (x, e) (x\<lparr>x_thread := Ended, x_handle := Stopped\<rparr>, e)"
    using run_snoc [where step = expirer_system, OF run_snoc [where step = expirer_system, OF run_nil]] by fastforce
  from expirer_stops [OF r x run] r x run show ?thesis by fastforce
qed

section \<open>The RESP request parser\<close>

text \<open>
  C14. The incremental parser recognises exactly the RESP requests: a fresh parser returns the
  arguments \<open>args\<close> and leaves \<open>rest\<close> in the buffer if and only if the buffer is the text of an array
  of bulk strings with those contents, followed by \<open>rest\<close>.
\<close>

theorem parser_recognises_requests:
  assumes "length buf < 2 ^ 64 - 2"
  shows "(\<exists>p'. parse resp_parser_new buf = Some (Inr (Some args), p', rest)) \<longleftrightarrow>
    (\<exists>bs. request_text args bs \<and> buf = bs @ rest)"
proof
  assume "\<exists>p'. parse resp_parser_new buf = Some (Inr (Some args), p', rest)"
  then obtain p' where run: "parse resp_parser_new buf = Some (Inr (Some args), p', rest)" ..
  have "accepted resp_parser_new buf args rest"
    using parse_sound [OF run] by (simp add: resp_parser_new_def)
  then show "\<exists>bs. request_text args bs \<and> buf = bs @ rest"
    by (simp add: accepted_def resp_parser_new_def)
next
  assume "\<exists>bs. request_text args bs \<and> buf = bs @ rest"
  then obtain bs where bs: "request_text args bs" "buf = bs @ rest" by blast
  have "\<forall>d\<in>set args. length d < 2 ^ 64 - 2"
    using request_text_length [OF bs(1)] bs(2) assms by fastforce
  with parse_complete [OF _ bs(1)] bs(2)
  show "\<exists>p'. parse resp_parser_new buf = Some (Inr (Some args), p', rest)"
    by (simp add: resp_parser_new_def)
qed

theorem parser_recognises_requests_witness:
  "\<exists>p'. parse resp_parser_new (request_frame [ascii ''GET'', [1]] @ [42]) =
    Some (Inr (Some [ascii ''GET'', [1]]), p', [42])"
proof -
  have "request_text [ascii ''GET'', [1]] (request_frame [ascii ''GET'', [1]])"
    by (rule request_frame_text) (simp add: sizes_ok_def)
  moreover have "length (request_frame [ascii ''GET'', [1]] @ [42]) < 2 ^ 64 - 2"
    by (simp add: request_frame_def bulk_frame_def dec_digits.simps)
  ultimately show ?thesis using parser_recognises_requests by blast
qed

text \<open>
  C15. Parsing is incremental: what the parser does with a prefix of the input it does with the
  whole of it, and where it asks for more it continues from the saved state with the rest of the
  input, so that the result does not depend on how the input arrives.
\<close>

theorem parse_incremental:
  assumes "parse p buf = Some (r, p', buf')"
  shows "parse p (buf @ more_input) =
    (if r = Inr None then parse p' (buf' @ more_input) else Some (r, p', buf' @ more_input))"
  using assms by (rule parse_append)

theorem parse_incremental_witness:
  "\<exists>p' buf' q. parse resp_parser_new (ascii ''*1'' @ [13, 10] @ ascii ''$4'' @ [13, 10] @ ascii ''PI'') =
      Some (Inr None, p', buf') \<and>
    parse p' (buf' @ ascii ''NG'' @ [13, 10]) = Some (Inr (Some [ascii ''PING'']), q, [])"
proof -
  let ?head = "ascii ''*1'' @ [13, 10] @ ascii ''$4'' @ [13, 10] @ ascii ''PI''" and ?tail = "ascii ''NG'' @ [13, 10]"
  have "\<exists>p' buf'. parse resp_parser_new ?head = Some (Inr None, p', buf')"
    by (simp add: parse.simps resp_parser_new_def length_line_def read_line_split ascii_simps parse_usize_def
        saturating_add_def saturating_mul_def)
  then obtain p' buf' where head: "parse resp_parser_new ?head = Some (Inr None, p', buf')" by blast
  have "?head @ ?tail = request_frame [ascii ''PING'']"
    by (simp add: request_frame_def bulk_frame_def dec_digits.simps ascii_simps)
  moreover obtain q where "parse resp_parser_new (request_frame [ascii ''PING'']) = Some (Inr (Some [ascii ''PING'']), q, [])"
    using parse_request_frame [of "[ascii ''PING'']" resp_parser_new "[]"] by (auto simp: resp_parser_new_def)
  ultimately have "parse resp_parser_new (?head @ ?tail) = Some (Inr (Some [ascii ''PING'']), q, [])" by (simp only:)
  with head parse_incremental [OF head, of ?tail] show ?thesis by auto
qed

text \<open>
  C16. The parser panics only on a bulk length of at least \<open>2\<^sup>6\<^sup>4 - 2\<close>, for which the test
  \<^verbatim>\<open>buffer.len() < bulk_len + 2\<close> wraps around.
\<close>

theorem parser_panics_only_on_huge_length:
  assumes "parse resp_parser_new buf = None"
  shows "huge_bulk buf"
  using parse_panics [OF assms] by (simp add: resp_parser_new_def)

definition huge_request :: bytes where
  "huge_request = ascii ''*1'' @ [13, 10] @ ascii ''$18446744073709551615'' @ [13, 10] @ ascii ''xy''"

lemma huge_length_panics: "parse resp_parser_new huge_request = None"
  by (simp add: huge_request_def parse.simps resp_parser_new_def length_line_def read_line_split ascii_simps parse_usize_def
      saturating_add_def saturating_mul_def split_to_def bad_crlf_def)

theorem parser_panics_only_on_huge_length_witness:
  "huge_bulk huge_request"
  using parser_panics_only_on_huge_length [OF huge_length_panics] .

section \<open>Client and server\<close>

text \<open>
  C17. Every command the client encodes is read back by the server's parser as the same list of
  arguments, whatever follows it in the buffer, and leaves the parser idle.
\<close>

theorem request_round_trip:
  assumes "sizes_ok args" and "p_state p = ArrayLen"
  shows "\<exists>bs p'. encode_command args [] = Some bs \<and>
    parse p (bs @ rest) = Some (Inr (Some args), p', rest) \<and> p_state p' = ArrayLen \<and> p_args p' = []"
  using parse_request_frame [OF assms, of rest] encode_command_frame [OF assms(1), of "[]"] by auto

theorem request_round_trip_witness:
  "\<exists>bs p'. encode_command [ascii ''SET'', [1], []] [] = Some bs \<and>
    parse resp_parser_new (bs @ [42]) = Some (Inr (Some [ascii ''SET'', [1], []]), p', [42])"
  using request_round_trip [of "[ascii ''SET'', [1], []]" resp_parser_new "[42]"]
  by (auto simp: sizes_ok_def resp_parser_new_def)


definition roomy :: client_env where
  "roomy = \<lparr>alloc_bytes = (\<lambda>n. n < 1000), alloc_items = (\<lambda>n. n < 1000)\<rparr>"


text \<open>
  C19. The client's decoder ends on every input. With a call depth beyond the number of bytes to read it
  returns a value or an error, except where the input announces a bulk string or an array that cannot be
  allocated. A reply that starts with such an announcement makes it panic, since the announced length is
  allocated before any of the data has arrived.
\<close>

theorem decoder_terminates:
  assumes "length (r_bytes r) < depth"
  shows "((\<exists>result r'. read_response env depth r = Some (result, r')) \<or> exhausts env (r_bytes r)) \<and>
    (n < 2 ^ 63 \<and> \<not> alloc_bytes env n \<and> r_bytes r = [36] @ dec_digits n @ [13, 10] @ rest \<longrightarrow>
      read_response env depth r = None) \<and>
    (n < 2 ^ 63 \<and> 0 < n \<and> \<not> alloc_items env n \<and> r_bytes r = [42] @ dec_digits n @ [13, 10] @ rest \<longrightarrow>
      read_response env depth r = None)"
  using read_response_total(1) [OF assms, of env] announced_length_stops [of n env depth rest "r_error r"]
  by (cases r) auto

theorem decoder_terminates_witness:
  "(\<exists>result r'. read_response \<lparr>alloc_bytes = (\<lambda>n. n < 2 ^ 40), alloc_items = (\<lambda>n. n < 2 ^ 40)\<rparr> 4
      \<lparr>r_bytes = [42, 49, 13], r_error = None\<rparr> = Some (result, r')) \<and>
    read_response \<lparr>alloc_bytes = (\<lambda>n. n < 2 ^ 40), alloc_items = (\<lambda>n. n < 2 ^ 40)\<rparr> 40
      \<lparr>r_bytes = [42] @ dec_digits (2 ^ 63 - 1) @ [13, 10], r_error = None\<rparr> = None"
proof -
  let ?env = "\<lparr>alloc_bytes = (\<lambda>n. n < 2 ^ 40), alloc_items = (\<lambda>n. n < 2 ^ 40)\<rparr>"
  have "\<not> announces kind n [42, 49, 13]" for kind n
    by (auto simp: announces_def Cons_eq_append_conv append_eq_Cons_conv)
  then have "\<not> exhausts ?env [42, 49, 13]" by (simp add: exhausts_def)
  moreover have "length (dec_digits (2 ^ 63 - 1)) \<le> 20" by (rule length_dec_digits_u64) simp
  ultimately show ?thesis
    using decoder_terminates [of "\<lparr>r_bytes = [42, 49, 13], r_error = None\<rparr>" 4 ?env]
      decoder_terminates [of "\<lparr>r_bytes = [42] @ dec_digits (2 ^ 63 - 1) @ [13, 10], r_error = None\<rparr>" 40 ?env "2 ^ 63 - 1" "[]"]
    by simp
qed

text \<open>
  C20. A \<^verbatim>\<open>get\<close> of the client returns the value that is live in the server's engine at the time of the
  call, or \<^verbatim>\<open>None\<close>; it puts the connection back into the pool and changes no visible entry.
\<close>

theorem client_get_reads_engine:
  assumes "conn_idle senv p c" and "client_ready cfg attempt s conn s1" and "length k < 2 ^ 63"
    and "\<And>v d. live_at (calls_of senv c 0) (view (sc_engine c)) k = Some (v, d) \<Longrightarrow> fits cenv v"
  shows "\<exists>e'. client_get cfg attempt (remote cenv (Suc depth) senv p c) k s =
      Some (Inr (map_option fst (live_at (calls_of senv c 0) (view (sc_engine c)) k)),
        drop_pooled cfg conn True s1) \<and>
    engine_after senv p c [ascii ''GET'', k] = Some e' \<and> engine_ok e' \<and>
    live_eq (calls_of senv c 0) (view e') (view (sc_engine c))"
  using remote_get [OF assms(1,2,3), of cenv] assms(4) by metis

text \<open>The setting of the witnesses: an idle connection of a fresh server and an empty pool.\<close>

definition demo_env :: conn_env where
  "demo_env = \<lparr>env_write = (\<lambda>_. True),
     env_clock = (\<lambda>_. \<lparr>rq_start = 4, rq_calls = (\<lambda>i. 5 + i), rq_end = 9\<rparr>)\<rparr>"

definition demo_conn :: server_conn where
  "demo_conn = \<lparr>sc_engine = engine_of (\<lambda>_. 3) 4 (- 1), sc_metrics = metrics_new 0, sc_replies = []\<rparr>"

definition demo_pool :: pool_config where
  "demo_pool = \<lparr>pc_addr = ''127.0.0.1:6379'', pc_max_idle = 1, pc_max_total = 1, pc_read_timeout = None,
     pc_write_timeout = None, pc_connect_timeout = None\<rparr>"

definition demo_reader :: reader where
  "demo_reader = \<lparr>r_bytes = [], r_error = None\<rparr>"

lemma demo_idle:
  "conn_idle demo_env resp_parser_new demo_conn" "view (sc_engine demo_conn) = Map.empty"
  "e_max_bytes (sc_engine demo_conn) = - 1"
  using fresh_unbounded [of "\<lambda>_. 3"]
  by (simp_all add: conn_idle_def demo_conn_def demo_env_def resp_parser_new_def engine_ok_def
      unbounded_inv_def metrics_new_def hist_ok_new)

lemma demo_ready:
  "client_ready demo_pool (Inr demo_reader) pool_new demo_reader (pool_new\<lparr>ps_total := 1\<rparr>)"
  by (simp add: client_ready_def acquire_def pop_idle_def try_reserve_def pool_new_def demo_pool_def
      demo_reader_def)

theorem client_get_reads_engine_witness:
  "\<exists>s. client_get demo_pool (Inr demo_reader) (remote roomy 1 demo_env resp_parser_new demo_conn) [7] pool_new =
    Some (Inr None, s)"
  using client_get_reads_engine [OF demo_idle(1) demo_ready, of "[7]" roomy 0]
  by (auto simp: demo_idle(2))

text \<open>
  C21. What one client stores another one reads: after \<^verbatim>\<open>set\<close> on one connection, \<^verbatim>\<open>get\<close> of the same key
  on a connection that sees the resulting engine returns the value, and \<^verbatim>\<open>ttl\<close> reports no expiry.
\<close>

theorem client_set_then_get:
  assumes "conn_idle senv p c" and "client_ready cfg attempt s conn s1"
    and "length k < 2 ^ 63" and "fits cenv' v" and "e_max_bytes (sc_engine c) = - 1"
    and "conn_idle senv' p' c'" and "client_ready cfg' attempt' s' conn' s1'"
    and "engine_after senv p c [ascii ''SET'', k, v] = Some (sc_engine c')"
  shows "client_set cfg attempt (remote cenv (Suc depth) senv p c) k v s =
      Some (Inr (), drop_pooled cfg conn True s1) \<and>
    client_get cfg' attempt' (remote cenv' (Suc depth) senv' p' c') k s' =
      Some (Inr (Some v), drop_pooled cfg' conn' True s1') \<and>
    client_ttl cfg' attempt' (remote cenv' (Suc depth) senv' p' c') k s' =
      Some (Inr CNoExpiry, drop_pooled cfg' conn' True s1')"
proof -
  have v: "length v < 2 ^ 63" using assms(4) by (simp add: fits_def)
  from remote_set [OF assms(1,2,3) v, of cenv depth] assms(5,8)
  have set: "client_set cfg attempt (remote cenv (Suc depth) senv p c) k v s =
      Some (Inr (), drop_pooled cfg conn True s1)"
    and "view (sc_engine c') k = Some (v, None)"
    by fastforce+
  then have live: "live_at (calls_of senv' c' 0) (view (sc_engine c')) k = Some (v, None)"
    by (simp add: live_at_def)
  have "client_get cfg' attempt' (remote cenv' (Suc depth) senv' p' c') k s' =
      Some (Inr (Some v), drop_pooled cfg' conn' True s1')"
    using remote_get [OF assms(6,7,3), of cenv' depth] live assms(4) by force
  moreover have "client_ttl cfg' attempt' (remote cenv' (Suc depth) senv' p' c') k s' =
      Some (Inr CNoExpiry, drop_pooled cfg' conn' True s1')"
    using remote_ttl [OF assms(6,7,3), of cenv' depth] live by (force simp: client_ttl_of_def)
  ultimately show ?thesis using set by blast
qed

lemma demo_idle_engine:
  "engine_ok e \<Longrightarrow> conn_idle demo_env resp_parser_new (demo_conn\<lparr>sc_engine := e\<rparr>)"
  using demo_idle(1) by (simp add: conn_idle_def)

lemma demo_stored:
  obtains e where "engine_after demo_env resp_parser_new demo_conn [ascii ''SET'', [7], [8, 9]] = Some e"
    "engine_ok e" "view e = [[7] \<mapsto> ([8, 9], None)]"
  by (rule remote_set [OF demo_idle(1) demo_ready, of "[7]" "[8, 9]" roomy 0])
    (use that demo_idle in auto)

theorem client_set_then_get_witness:
  "\<exists>c' s. client_get demo_pool (Inr demo_reader) (remote roomy 1 demo_env resp_parser_new c') [7] pool_new =
    Some (Inr (Some [8, 9]), s)"
proof -
  obtain e where e: "engine_after demo_env resp_parser_new demo_conn [ascii ''SET'', [7], [8, 9]] = Some e"
    "engine_ok e" using demo_stored .
  let ?c = "demo_conn\<lparr>sc_engine := e\<rparr>"
  have "client_get demo_pool (Inr demo_reader) (remote roomy (Suc 0) demo_env resp_parser_new ?c) [7] pool_new =
      Some (Inr (Some [8, 9]), drop_pooled demo_pool demo_reader True (pool_new\<lparr>ps_total := 1\<rparr>))"
    using client_set_then_get [OF demo_idle(1) demo_ready _ _ demo_idle(3) demo_idle_engine [OF e(2)]
        demo_ready, of "[7]" roomy "[8, 9]" roomy 0] e(1)
    by (simp add: fits_def roomy_def)
  then show ?thesis by auto
qed

text \<open>
  C22. \<^verbatim>\<open>expire\<close> of the client reports whether the key is live and then sets its deadline, counted in
  whole seconds from the server's clock; a later \<^verbatim>\<open>ttl\<close> that still finds the key returns the time
  left, rounded down to seconds.
\<close>

theorem client_expire_then_ttl:
  assumes "conn_idle senv p c" and "client_ready cfg attempt s conn s1" and "length k < 2 ^ 63"
    and "instant_add (calls_of senv c 0) (from_secs (as_secs ttl)) = Some t"
    and "live_at (calls_of senv c 0) (view (sc_engine c)) k = Some (v, d)"
    and "conn_idle senv' p' c'" and "client_ready cfg' attempt' s' conn' s1'"
    and "engine_after senv p c [ascii ''EXPIRE'', k, dec_digits (unat (as_secs ttl))] = Some (sc_engine c')"
  shows "client_expire cfg attempt (remote cenv (Suc depth) senv p c) k ttl s =
      Some (Inr True, drop_pooled cfg conn True s1) \<and>
    client_ttl cfg' attempt' (remote cenv' (Suc depth) senv' p' c') k s' =
      Some (Inr (if t \<le> calls_of senv' c' 0 then CMissing
          else CExpiresIn ((t - calls_of senv' c' 0) div nanos_per_sec * nanos_per_sec)),
        drop_pooled cfg' conn' True s1')"
proof -
  obtain e where e: "client_expire cfg attempt (remote cenv (Suc depth) senv p c) k ttl s =
      Some (Inr True, drop_pooled cfg conn True s1)"
    "engine_after senv p c [ascii ''EXPIRE'', k, dec_digits (unat (as_secs ttl))] = Some e"
    "view e = (view (sc_engine c))(k \<mapsto> (v, Some t))"
    using remote_expire [OF assms(1,2,3,4), of cenv depth] assms(5) by force
  then have "live_at (calls_of senv' c' 0) (view (sc_engine c')) k =
      (if t \<le> calls_of senv' c' 0 then None else Some (v, Some t))"
    using assms(8) by (simp add: live_at_def)
  with remote_ttl [OF assms(6,7,3), of cenv' depth] e(1) show ?thesis
    by (force simp: client_ttl_of_def)
qed

theorem client_expire_then_ttl_witness:
  "\<exists>c' s. client_ttl demo_pool (Inr demo_reader) (remote roomy 1 demo_env resp_parser_new c') [7] pool_new =
    Some (Inr (CExpiresIn (60 * nanos_per_sec)), s)"
proof -
  obtain e where e: "engine_ok e" "view e = [[7] \<mapsto> ([8, 9], None)]"
    using demo_stored .
  define c where "c = demo_conn\<lparr>sc_engine := e\<rparr>"
  let ?t = "5 + 60 * nanos_per_sec"
  have c: "conn_idle demo_env resp_parser_new c" "view (sc_engine c) = [[7] \<mapsto> ([8, 9], None)]"
    using demo_idle_engine [OF e(1)] e(2) by (simp_all add: c_def)
  have clk: "calls_of demo_env x 0 = 5" for x by (simp add: demo_env_def)
  have t: "instant_add 5 (from_secs (as_secs (60 * nanos_per_sec))) = Some ?t"
    by (simp add: instant_add_def from_secs_def as_secs_def nanos_per_sec_def instant_limit_def)
  have live: "live_at 5 (view (sc_engine c)) [7] = Some ([8, 9], None)" by (simp add: c(2) live_at_def)
  obtain f where f: "engine_ok f"
    "engine_after demo_env resp_parser_new c
      [ascii ''EXPIRE'', [7], dec_digits (unat (as_secs (60 * nanos_per_sec)))] = Some f"
    by (rule remote_expire [OF c(1) demo_ready, of "[7]" "60 * nanos_per_sec" ?t roomy 0])
      (use t that in \<open>simp_all add: clk\<close>)
  let ?d = "demo_conn\<lparr>sc_engine := f\<rparr>"
  have "client_ttl demo_pool (Inr demo_reader) (remote roomy (Suc 0) demo_env resp_parser_new ?d) [7] pool_new =
      Some (Inr (CExpiresIn (60 * nanos_per_sec)),
        drop_pooled demo_pool demo_reader True (pool_new\<lparr>ps_total := 1\<rparr>))"
    using client_expire_then_ttl [OF c(1) demo_ready, of "[7]" "60 * nanos_per_sec" ?t "[8, 9]" None
        demo_env resp_parser_new ?d demo_pool "Inr demo_reader" pool_new demo_reader _ roomy 0 roomy]
      t live f demo_idle_engine [OF f(1)] demo_ready
    by (simp add: clk nanos_per_sec_def)
  then show ?thesis by auto
qed

text \<open>
  C23. \<^verbatim>\<open>set_with_ttl\<close> of the client with a duration below one second answers success and stores a key
  that no later read can see: the duration is cut to zero seconds.
\<close>

theorem subsecond_ttl_expires_at_once:
  assumes "conn_idle senv p c" and "client_ready cfg attempt s conn s1"
    and "length k < 2 ^ 63" and "length v < 2 ^ 63" and "e_max_bytes (sc_engine c) = - 1"
    and "ttl < nanos_per_sec" and "calls_of senv c 1 < instant_limit"
  shows "\<exists>e'. client_set_with_ttl cfg attempt (remote cenv (Suc depth) senv p c) k v ttl s =
      Some (Inr (), drop_pooled cfg conn True s1) \<and>
    engine_after senv p c [ascii ''SET'', k, v, ascii ''EX'', [48]] = Some e' \<and>
    (\<forall>t\<ge>calls_of senv c 1. live_at t (view e') k = None)"
proof -
  have secs: "as_secs ttl = 0" using assms(6) by (simp add: as_secs_def)
  have "dec_digits 0 = [48]" by (simp add: dec_digits.simps)
  moreover have "instant_add (calls_of senv c 1) (from_secs (as_secs ttl)) = Some (calls_of senv c 1)"
    using assms(7) by (simp add: secs instant_add_def from_secs_def)
  from remote_set_with_ttl [OF assms(1-5) this, of cenv depth] obtain e' where
    "client_set_with_ttl cfg attempt (remote cenv (Suc depth) senv p c) k v ttl s =
      Some (Inr (), drop_pooled cfg conn True s1)"
    "engine_after senv p c [ascii ''SET'', k, v, ascii ''EX'', dec_digits 0] = Some e'"
    "view e' = (view (sc_engine c))(k \<mapsto> (v, Some (calls_of senv c 1)))"
    by (auto simp: secs)
  ultimately show ?thesis by (auto simp: live_at_def)
qed

theorem subsecond_ttl_expires_at_once_witness:
  "\<exists>s. client_set_with_ttl demo_pool (Inr demo_reader) (remote roomy 1 demo_env resp_parser_new demo_conn)
      [7] [8] 500000000 pool_new = Some (Inr (), s)"
  using subsecond_ttl_expires_at_once [OF demo_idle(1) demo_ready _ _ demo_idle(3), of "[7]" "[8]" 500000000 roomy 0]
  by (auto simp: nanos_per_sec_def demo_env_def instant_limit_def)

section \<open>The server\<close>

text \<open>
  C24. For any list of arguments a request is answered with one well-formed RESP value and leaves
  an engine that satisfies the invariant; the only panic is an \<^verbatim>\<open>EXPIRE\<close> or a \<^verbatim>\<open>SET\<close> with \<^verbatim>\<open>EX\<close> whose number of
  seconds leads beyond the range of \<^verbatim>\<open>Instant\<close>.
\<close>

theorem every_request_is_answered:
  assumes "engine_ok e" and "length args < 2 ^ 63"
  shows "case dispatch_command args clk e m of
      None \<Rightarrow> overflows clk args
    | Some (reply, e') \<Rightarrow> engine_ok e' \<and> same_config e e' \<and> is_reply reply"
  using dispatch_served [OF assms, of clk m] by (simp add: served_def)

theorem every_request_is_answered_witness:
  "case dispatch_command [[1, 2]] (\<lambda>_. 0) (sc_engine demo_conn) (metrics_new 0) of
      None \<Rightarrow> overflows (\<lambda>_. 0) [[1, 2]]
    | Some (reply, e') \<Rightarrow> engine_ok e' \<and> same_config (sc_engine demo_conn) e' \<and> is_reply reply"
  by (rule every_request_is_answered) (use demo_idle(1) in \<open>simp_all add: conn_idle_def\<close>)

text \<open>
  C25. A connection serves the same requests with the same replies however its input is split into
  reads.
\<close>

theorem replies_independent_of_chunks:
  assumes "\<forall>b\<in>set (a # bs). b \<noteq> []" and "length (concat (a # bs)) < 2 ^ 64 - 2"
  shows "map_option visible (handle_connection_with_metrics env (map Chunk (a # bs) @ reads) e m) =
    map_option visible (handle_connection_with_metrics env (Chunk (concat (a # bs)) # reads) e m)"
  unfolding handle_connection_with_metrics_def
  using chunks_join [OF assms(1), of "[]"] assms(2) by simp

theorem replies_independent_of_chunks_witness:
  "map_option visible (handle_connection_with_metrics demo_env [Chunk [42], Chunk [49, 13], Chunk [10]]
      (sc_engine demo_conn) (metrics_new 0)) =
    map_option visible (handle_connection_with_metrics demo_env [Chunk [42, 49, 13, 10]]
      (sc_engine demo_conn) (metrics_new 0))"
  using replies_independent_of_chunks [of "[42]" "[[49, 13], [10]]" demo_env "[]" "sc_engine demo_conn" "metrics_new 0"]
  by simp


lemma demo_ping:
  obtains p c where "handle_connection_with_metrics demo_env [Chunk (request_frame [ascii ''PING''])]
      (sc_engine demo_conn) (metrics_new 0) = Some (Closed, p, [], c)"
    "sc_replies c = [resp_simple (ascii ''PONG'')]"
proof -
  have "dispatch_command [ascii ''PING''] (calls_of demo_env demo_conn) (sc_engine demo_conn)
      (record_request_start (sc_metrics demo_conn)) = Some (resp_simple (ascii ''PONG''), sc_engine demo_conn)"
    by (simp add: dispatch_cases handle_ping_def)
  moreover have "sizes_ok [ascii ''PING'']" by simp
  ultimately obtain p c where
    "serve_buffer demo_env resp_parser_new (request_frame [ascii ''PING'']) demo_conn = Some (Waiting, p, [], c)"
    "sc_replies c = sc_replies demo_conn @ [resp_simple (ascii ''PONG'')]"
    using serve_one [OF demo_idle(1)] by blast
  with that show thesis
    by (simp add: handle_connection_with_metrics_def demo_conn_def request_frame_def)
qed


text \<open>
  C28. A client can crash the task of its connection at any time. Whatever well-formed requests it has sent
  before and in whatever pieces the input arrives, a request that announces, after any arguments, a bulk
  string of \<open>2\<^sup>6\<^sup>4 - 2\<close> bytes or more makes the task panic on the next byte, whatever the engine holds.
\<close>

theorem huge_bulk_length_crashes_connection:
  assumes "\<And>k. env_write env k" and "list_all sizes_ok qs" and "sizes_ok args" and "length args < count"
    and "count < 2 ^ 64" and "2 ^ 64 - 2 \<le> len" and "rest \<noteq> []" and "\<forall>b\<in>set (a # bs). b \<noteq> []"
    and "concat (a # bs) = concat (map request_frame qs) @ oversized_request count args len @ rest"
    and "length (concat (a # bs)) < 2 ^ 64 - 2"
  shows "handle_connection_with_metrics env (map Chunk (a # bs) @ reads) e m = None"
proof -
  let ?c = "\<lparr>sc_engine = e, sc_metrics = m, sc_replies = []\<rparr>"
  have "length rest < 2 ^ 64 - 2" using assms(9,10) by simp
  with serve_before_panic [OF assms(1) parse_oversized [OF assms(3-7)] assms(2), of resp_parser_new ?c]
  have "serve_buffer env resp_parser_new (concat (a # bs)) ?c = None"
    unfolding assms(9) by (simp add: resp_parser_new_def)
  moreover have "concat (a # bs) \<noteq> []" using assms(8) by simp
  ultimately have "handle_connection env (Chunk (concat (a # bs)) # reads) resp_parser_new [] ?c = None"
    by (simp only: handle_connection.simps append_Nil) simp
  with chunks_join [OF assms(8), of "[]" env reads resp_parser_new ?c] assms(10) show ?thesis
    by (simp add: handle_connection_with_metrics_def)
qed

theorem huge_bulk_length_crashes_connection_witness:
  "handle_connection_with_metrics demo_env
    (map Chunk [request_frame [ascii ''PING''], oversized_request 2 [ascii ''GET''] (2 ^ 64), [120]] @ [])
    (sc_engine demo_conn) (metrics_new 0) = None"
  by (rule huge_bulk_length_crashes_connection [where qs = "[[ascii ''PING'']]" and args = "[ascii ''GET'']" and count = 2
        and len = "2 ^ 64" and rest = "[120]"])
    (simp_all add: demo_env_def request_frame_def oversized_request_def bulk_frame_def dec_digits.simps)

section \<open>The server process\<close>

text \<open>
  C6. However the connections and the sweeper of the server interleave, its shared state stays
  consistent: the engine is well formed and its byte counter exact, and the counters are those of the
  connections, with one request for every reply written and for every task that holds a request, one
  sample for every reply written, one error for every error reply produced, and a gauge that counts the
  tasks that hold a request, those among them that ended without delivering its reply included. No task
  is stuck: a connection that has not ended, and the sweeper, always have a next step.
\<close>

theorem server_process_consistent:
  assumes "reach process_init (\<lambda>s s'. \<exists>ev. process_step ev s s') s"
  shows "engine_inv (pr_engine s) \<and> e_used_bytes (pr_engine s) = engine_bytes (pr_engine s) \<and>
    m_requests_total (pr_metrics s) = of_nat (\<Sum>c\<leftarrow>pr_conns s. length (c_replies c) + of_bool (in_flight c)) \<and>
    m_errors_total (pr_metrics s) =
      of_nat (\<Sum>c\<leftarrow>pr_conns s. length (filter is_error_response (c_replies c @ undelivered c))) \<and>
    m_inflight (pr_metrics s) = of_nat (length (filter in_flight (pr_conns s))) \<and>
    h_samples (m_latency (pr_metrics s)) = of_nat (\<Sum>c\<leftarrow>pr_conns s. length (c_replies c)) \<and>
    (\<forall>c\<in>set (pr_conns s). \<not> ended c \<longrightarrow> (\<exists>ev r. conn_step ev (c, pr_engine s, pr_metrics s) r)) \<and>
    (\<exists>r. expirer_step (pr_expirer s, pr_engine s) r)"
proof -
  have inv: "process_inv s" using server.reach_inv [OF assms] .
  then have e: "engine_inv (settle 0 (pr_engine s))" "hist_ok (m_latency (pr_metrics s))"
    by (simp_all add: process_inv_def unbounded_inv_def counters_ok_def)
  have "x_thread (pr_expirer s) \<noteq> Ended" using sweeper_runs [OF assms] by simp
  with expirer_goes_on [OF e(1)] inv have "\<exists>r. expirer_step (pr_expirer s, pr_engine s) r"
    by (auto simp: process_inv_def)
  moreover have "\<forall>c\<in>set (pr_conns s). \<not> ended c \<longrightarrow> (\<exists>ev r. conn_step ev (c, pr_engine s, pr_metrics s) r)"
    using conn_goes_on [OF e] by blast
  ultimately show ?thesis using inv
    by (simp add: process_inv_def unbounded_inv_def engine_inv_def counters_ok_def tally_def started_def [abs_def]
        error_replies_def [abs_def] sum_of_bool)
qed

definition demo_server :: process where
  "demo_server = \<lparr>pr_engine = engine_of (\<lambda>_. 3) 4 (- 1), pr_metrics = metrics_new 0, pr_conns = [],
     pr_expirer = start_expirer (from_secs 1)\<rparr>"

lemma normalize_four: "normalize_shard_count 4 = 4"
  by (simp add: normalize_shard_count_def next_power_of_two_def max_def word_le_nat_alt upt_conv_Cons)

lemma demo_engine_new: "engine_new (\<lambda>n. n \<le> 1024) (\<lambda>_. 3) None = Some (engine_of (\<lambda>_. 3) 4 (- 1))"
  by (simp add: engine_new_def with_shard_count_def with_shard_count_and_capacity_def default_shard_multiplier_def
      saturating_mul_def normalize_four)

lemma demo_process_init: "process_init demo_server"
  unfolding process_init_def
  by (intro exI [of _ "\<lambda>n. n \<le> 1024"] exI [of _ "\<lambda>_. 3"] exI [of _ None] exI [of _ 0])
    (simp add: server_start_def demo_engine_new demo_server_def default_shard_multiplier_def saturating_mul_def)

lemma demo_server_start:
  "pr_engine demo_server = sc_engine demo_conn" "pr_metrics demo_server = metrics_new 0" "pr_conns demo_server = []"
  "process_init demo_server"
  using demo_process_init by (simp_all add: demo_server_def demo_conn_def)

lemma demo_served:
  obtains c e m where "process_runs demo_server (demo_server\<lparr>pr_engine := e, pr_metrics := m, pr_conns := [c]\<rparr>)"
    "c_replies c = [resp_simple (ascii ''PONG'')]" "ended c" "\<not> in_flight c"
proof -
  obtain p d where d: "handle_connection_with_metrics demo_env [Chunk (request_frame [ascii ''PING''])]
      (pr_engine demo_server) (pr_metrics demo_server) = Some (Closed, p, [], d)"
    "sc_replies d = [resp_simple (ascii ''PONG'')]" using demo_ping by (auto simp: demo_server_start)
  obtain c where c: "process_runs demo_server
      (demo_server\<lparr>pr_engine := sc_engine d, pr_metrics := sc_metrics d, pr_conns := pr_conns demo_server @ [c]\<rparr>)"
    "c_replies c = sc_replies d" "status_of (c_pc c) Closed" "ended c"
    using process_serves [OF d(1)] by blast
  have "\<not> in_flight c" using c(3) by (cases "(c_pc c, Closed)" rule: status_of.cases) (simp_all add: in_flight_def)
  with c d(2) that show thesis by (simp add: demo_server_start)
qed

theorem server_process_consistent_witness:
  "\<exists>s. reach process_init (\<lambda>s s'. \<exists>ev. process_step ev s s') s \<and> length (pr_conns s) = 1 \<and>
    m_requests_total (pr_metrics s) = 1 \<and> m_inflight (pr_metrics s) = 0 \<and> h_samples (m_latency (pr_metrics s)) = 1"
proof -
  obtain c e m where c: "process_runs demo_server (demo_server\<lparr>pr_engine := e, pr_metrics := m, pr_conns := [c]\<rparr>)"
    "c_replies c = [resp_simple (ascii ''PONG'')]" "\<not> in_flight c" using demo_served by blast
  let ?s = "demo_server\<lparr>pr_engine := e, pr_metrics := m, pr_conns := [c]\<rparr>"
  have r: "reach process_init (\<lambda>s s'. \<exists>ev. process_step ev s s') ?s"
    by (rule reach_steps [OF c(1) reach_init]) (rule demo_server_start(4))
  with server_process_consistent [OF r] c(2,3) show ?thesis by (intro exI [of _ ?s]) simp
qed

text \<open>
  C26. The connection loop, run to its end, is one of the runs of the process: from any state, accepting a
  connection and serving it alone takes the process to the engine, the counters and the replies that
  the sequential model computes, and ends the connection's task in the same way.
\<close>

theorem process_serves_connection:
  assumes "handle_connection_with_metrics env reads (pr_engine s) (pr_metrics s) = Some (status, p, b, d)"
  shows "\<exists>c. (\<lambda>s s'. \<exists>ev. process_step ev s s')\<^sup>*\<^sup>* s
      (s\<lparr>pr_engine := sc_engine d, pr_metrics := sc_metrics d, pr_conns := pr_conns s @ [c]\<rparr>) \<and>
    c_replies c = sc_replies d \<and> status_of (c_pc c) status \<and> ended c"
  by (rule process_serves [OF assms])

theorem process_serves_connection_witness:
  "\<exists>c e m. (\<lambda>s s'. \<exists>ev. process_step ev s s')\<^sup>*\<^sup>* demo_server
      (demo_server\<lparr>pr_engine := e, pr_metrics := m, pr_conns := [c]\<rparr>) \<and> c_replies c = [resp_simple (ascii ''PONG'')] \<and> ended c"
proof -
  obtain p c where c: "handle_connection_with_metrics demo_env [Chunk (request_frame [ascii ''PING''])]
      (pr_engine demo_server) (pr_metrics demo_server) = Some (Closed, p, [], c)"
    "sc_replies c = [resp_simple (ascii ''PONG'')]" using demo_ping by (auto simp: demo_server_start)
  from process_serves_connection [OF c(1)] c(2) demo_server_start(3) show ?thesis by auto
qed

text \<open>
  C5. The server is linearizable. In every execution whose steps happen at the times of one clock that
  never goes back, with each call using the time of its section and a sweep one that is past, the calls that the connections make on the engine are answered as one map with
  deadlines answers them one after the other, in the order of their sections; and from then on the
  engine holds the live entries of that map. Sweeps of expired entries in between are not noticed.
\<close>

theorem server_is_linearizable:
  assumes "labelled_run timed_step ls s s'" and "process_init s"
    and "sorted (map fst ls)" and "\<forall>l\<in>set ls. fst l \<le> now"
  shows "\<exists>m. run_cmds spec_kv (history_cmds ls) Map.empty = Some (history_answers ls, m) \<and>
    live_eq now (view (pr_engine s')) m"
  using server_linear.run_linear [OF assms(1) _ assms(3,4)] process_init_inv [OF assms(2)] by simp

lemma timed_conn_step:
  assumes "conn_step ev r r'" and "i < length (pr_conns s)" and "x_thread (pr_expirer s) = Checking"
    and "case ev of None \<Rightarrow> True | Some (now, c, a) \<Rightarrow> now = t"
  shows "timed_step (t, ev) (with_conn s i r) (with_conn s i r')"
  using with_conn_step [OF assms(1,2)] assms(3,4)
  by (simp add: timed_step_def times_ok_def swept_by_def with_conn_def split: prod.splits)

lemma demo_set_run:
  "\<exists>s. labelled_run timed_step [(0, None), (0, None), (0, None), (5, Some (5, Cmd_Set [1] [2], Ans_Unit (Inr ())))]
    demo_server s"
proof -
  let ?args = "[ascii ''SET'', [1], [2]]" and ?e = "pr_engine demo_server" and ?m = "pr_metrics demo_server"
  let ?s = "demo_server\<lparr>pr_conns := [conn_new]\<rparr>"
  obtain p where p: "parse resp_parser_new (request_frame ?args) = Some (Inr (Some ?args), p, [])"
    using parse_request_frame [of ?args resp_parser_new "[]"] by (auto simp: resp_parser_new_def)
  have frame: "request_frame ?args \<noteq> []" by (simp add: request_frame_def)
  define c1 where "c1 = conn_new\<lparr>c_pc := Parsing, c_buffer := request_frame ?args\<rparr>"
  define c2 where "c2 = c1\<lparr>c_pc := Running 0 (Call (Cmd_Set [1] [2]) ok_prog) Idle, c_parser := p, c_buffer := []\<rparr>"
  have prog: "command_prog ?args = Call (Cmd_Set [1] [2]) ok_prog"
    by (simp add: command_prog_def set_prog_def Let_def ascii_simps eq_ignore_ascii_case_def to_ascii_lowercase_def)
  have th: "x_thread (pr_expirer ?s) = Checking" by (simp add: demo_server_def start_expirer_def)
  have "engine_inv (settle 0 ?e)" using process_init_inv [OF demo_server_start(4)] by (simp add: process_inv_def unbounded_inv_def)
  from op_settled [OF this, of "Cmd_Set [1] [2]" 5] obtain e' where
    e': "under_lock ?e (cmd_key (Cmd_Set [1] [2])) (op_section 5 (Cmd_Set [1] [2])) = Some (Ans_Unit (Inr ()), e')"
    by (auto simp: spec_kv_def)
  have "timed_step (0, None) demo_server ?s"
    using process_step.accept [of demo_server] th by (simp add: timed_step_def times_ok_def swept_by_def demo_server_start)
  moreover have "?s = with_conn ?s 0 (conn_new, ?e, ?m)" by (simp add: with_conn_def)
  ultimately have s1: "timed_step (0, None) demo_server (with_conn ?s 0 (conn_new, ?e, ?m))" by simp
  have s2: "timed_step (0, None) (with_conn ?s 0 (conn_new, ?e, ?m)) (with_conn ?s 0 (c1, ?e, ?m))"
    using conn_step.read_data [OF _ frame, of conn_new ?e ?m] th
    by (intro timed_conn_step) (simp_all add: conn_new_def c1_def)
  have s3: "timed_step (0, None) (with_conn ?s 0 (c1, ?e, ?m)) (with_conn ?s 0 (c2, ?e, record_request_start ?m))"
    using conn_step.parse_request [of c1 ?args p "[]" ?e ?m 0] p th
    by (intro timed_conn_step) (simp_all add: conn_new_def c1_def c2_def prog)
  have s4: "timed_step (5, Some (5, Cmd_Set [1] [2], Ans_Unit (Inr ()))) (with_conn ?s 0 (c2, ?e, record_request_start ?m))
      (with_conn ?s 0 (c2\<lparr>c_pc := Running 0 (ok_prog (Ans_Unit (Inr ()))) (after_cmd ?e (Cmd_Set [1] [2]))\<rparr>, e', record_request_start ?m))"
    using conn_step.call [OF _ thread_step.op [OF e'], of c2 0 ok_prog "record_request_start ?m"] th
    by (intro timed_conn_step) (simp_all add: c2_def)
  note run1 = run_snoc [where step = timed_step, OF run_nil s1]
  note run2 = run_snoc [where step = timed_step, OF run1 s2]
  note run3 = run_snoc [where step = timed_step, OF run2 s3]
  show ?thesis using run_snoc [where step = timed_step, OF run3 s4] by auto
qed

theorem server_is_linearizable_witness:
  "\<exists>s m. labelled_run timed_step [(0, None), (0, None), (0, None), (5, Some (5, Cmd_Set [1] [2], Ans_Unit (Inr ())))]
      demo_server s \<and>
    run_cmds spec_kv [(5, Cmd_Set [1] [2])] Map.empty = Some ([Ans_Unit (Inr ())], m) \<and>
    live_eq 5 (view (pr_engine s)) m"
proof -
  obtain s where run: "labelled_run timed_step
      [(0, None), (0, None), (0, None), (5, Some (5, Cmd_Set [1] [2], Ans_Unit (Inr ())))] demo_server s"
    using demo_set_run by blast
  from server_is_linearizable [OF run demo_server_start(4), of 5] obtain m where
    "run_cmds spec_kv [(5, Cmd_Set [1] [2])] Map.empty = Some ([Ans_Unit (Inr ())], m)" "live_eq 5 (view (pr_engine s)) m"
    by (auto simp: history_cmds_def history_answers_def List.map_filter_def simp del: run_cmds.simps)
  with run show ?thesis by blast
qed

section \<open>Metrics\<close>

text \<open>
  C29. Recording any sequence of latencies never panics, and the histogram holds exactly those
  samples, in whole microseconds: each bucket counts the samples above all bounds before its own and not
  above its own, the last bucket those above every bound, and the number, the sum and the maximum are
  those of the samples.
\<close>

theorem histogram_counts_samples:
  fixes ds :: "duration list"
  defines "xs \<equiv> map (\<lambda>d. of_nat (d div 1000) :: u64) ds"
  shows "\<exists>h. record_all (histogram_new bounds) ds = Some h \<and> h_bounds_us h = bounds \<and>
    h_buckets h = map (\<lambda>i. of_nat (length (filter (in_bucket bounds i) xs))) [0..<length bounds + 1] \<and>
    h_samples h = of_nat (length xs) \<and> h_sum_us h = sum_list xs \<and> h_max_us h = fold max xs 0"
proof -
  have "xs = map as_micros ds" by (simp add: xs_def as_micros_def)
  with record_all_hist [OF hist_of_new, of bounds ds] obtain h where
    h: "record_all (histogram_new bounds) ds = Some h" "hist_of h xs" "h_bounds_us h = bounds"
    by (auto simp: histogram_new_def)
  with hist_of_buckets [OF h(2)] show ?thesis by (auto simp: hist_of_def simp del: upt_Suc)
qed

text \<open>
  C30. A percentile is the least bucket bound that covers its rank among the recorded samples, or
  the maximum if no bound does.
\<close>

theorem percentile_covers_rank:
  assumes "record_all (histogram_new bounds) ds = Some h" and "sorted bounds"
    and "length ds \<le> u64_max" and "ds \<noteq> []" and "0 < p" and "p \<le> 100"
  shows "percentile_us (histogram_snapshot h) p =
    Some (percentile_spec bounds (map as_micros ds) (max 1 (unat (percentile_rank (of_nat (length ds)) p))))"
proof -
  have "hist_of h (map as_micros ds)" "h_bounds_us h = bounds"
    using record_all_hist [OF hist_of_new, of bounds ds] assms(1) by (auto simp: histogram_new_def)
  with percentile_us_spec [of h "map as_micros ds" p] assms(2-) show ?thesis by simp
qed

theorem percentile_covers_rank_witness:
  "\<exists>h. record_all (histogram_new [1, 2, 5]) [3000, 9000] = Some h \<and>
    percentile_us (histogram_snapshot h) 50 = Some (percentile_spec [1, 2, 5] [3, 9] (max 1 (unat (percentile_rank 2 50))))"
proof -
  obtain h where h: "record_all (histogram_new [1, 2, 5]) [3000, 9000] = Some h"
    using record_all_hist [OF hist_of_new] by blast
  from percentile_covers_rank [OF h, of 50] h show ?thesis by (simp add: as_micros_def)
qed

text \<open>
  C31. The 99.9th percentile of 1000 samples is taken at rank 1000, not 999: the product of the
  sample count and the quotient \<^verbatim>\<open>99.9 / 100.0\<close> is rounded to a value above 999 before \<^verbatim>\<open>ceil\<close>.
\<close>

theorem p999_of_1000_takes_last_rank:
  assumes "record_all (histogram_new bounds) ds = Some h" and "sorted bounds" and "length ds = 1000"
  shows "percentile_us (histogram_snapshot h) (f64_round (999 / 10)) =
    Some (percentile_spec bounds (map as_micros ds) 1000)"
proof -
  have hist: "hist_of h (map as_micros ds)" "h_bounds_us h = bounds"
    using record_all_hist [OF hist_of_new, of bounds ds] assms(1) by (auto simp: histogram_new_def)
  have "0 < f64_round (999 / 10)" "f64_round (999 / 10) \<le> 100" by (simp_all add: f64_99_9)
  moreover have "ds \<noteq> []" using assms(3) by auto
  ultimately show ?thesis
    using percentile_us_spec [OF hist(1), of "f64_round (999 / 10)"] hist(2) assms(2,3)
    by (auto simp: rank_999)
qed

theorem p999_of_1000_takes_last_rank_witness:
  "\<exists>h. record_all (histogram_new [1, 2]) (replicate 999 1000 @ [5000]) = Some h \<and>
    percentile_us (histogram_snapshot h) (f64_round (999 / 10)) =
      Some (percentile_spec [1, 2] (replicate 999 1 @ [5]) 1000)"
proof -
  obtain h where h: "record_all (histogram_new [1, 2]) (replicate 999 1000 @ [5000]) = Some h"
    using record_all_hist [OF hist_of_new] by blast
  from p999_of_1000_takes_last_rank [OF h] h show ?thesis by (simp add: as_micros_def)
qed

section \<open>The connection pool\<close>

text \<open>
  C32. However the threads of a process interleave their use of the pool, \<^verbatim>\<open>total\<close> is the number of
  idle and lent connections and of attempts under way, and neither \<^verbatim>\<open>max_total\<close> nor \<^verbatim>\<open>max_idle\<close> is
  ever exceeded.
\<close>

theorem pool_never_exceeds_limits:
  assumes "reach pool_init (pool_step cfg) s"
  shows "ps_total (sys_pool s) = length (ps_idle (sys_pool s)) + length (sys_lent s) + sys_connecting s \<and>
    ps_total (sys_pool s) \<le> pc_max_total cfg \<and> length (ps_idle (sys_pool s)) \<le> pc_max_idle cfg"
  using pool.reach_inv [OF assms] by (simp add: pool_inv_def)

lemma pool_reserved:
  "reach pool_init (pool_step demo_pool)
    \<lparr>sys_pool = \<lparr>ps_idle = [], ps_total = 1\<rparr>, sys_connecting = 1, sys_lent = []\<rparr>"
proof -
  let ?s = "\<lparr>sys_pool = pool_new, sys_connecting = 0, sys_lent = []\<rparr>"
  have start: "reach pool_init (pool_step demo_pool) ?s" by (rule reach_init) (simp add: pool_init_def)
  have "try_reserve demo_pool (sys_pool ?s) = (True, \<lparr>ps_idle = [], ps_total = 1\<rparr>)"
    by (simp add: try_reserve_def demo_pool_def pool_new_def)
  from pool_step.step_reserve [OF this] show ?thesis using reach_step [OF start] by simp
qed

theorem pool_never_exceeds_limits_witness:
  "ps_total (sys_pool \<lparr>sys_pool = \<lparr>ps_idle = [], ps_total = 1\<rparr>, sys_connecting = 1, sys_lent = []\<rparr>) \<le>
    pc_max_total demo_pool"
  using pool_never_exceeds_limits [OF pool_reserved] by simp

text \<open>
  C33. Used by one thread, the pool refuses a connection exactly when all of its connections are
  lent out and the limit is reached, whatever connecting does, and a call returns or drops the
  connection it borrowed.
\<close>

theorem pool_exhausted_iff:
  assumes "pool_books cfg lent s"
  shows "(fst (acquire cfg (connection_connect net cfg) s) = Inl PoolExhausted \<longleftrightarrow>
      ps_idle s = [] \<and> lent = pc_max_total cfg) \<and>
    (\<forall>r t. pooled_exec cfg (connection_connect net cfg) ex s = Some (r, t) \<longrightarrow> pool_books cfg lent t)"
proof -
  have "connection_connect net cfg \<noteq> Inl PoolExhausted" using connect_errors [of net cfg PoolExhausted] by auto
  then show ?thesis using acquire_exhausted [OF assms] pooled_exec_books [OF assms] by blast
qed

definition demo_net :: "(string, reader) net" where
  "demo_net = \<lparr>net_parse = Some, net_connect_timeout = (\<lambda>a d. Inr demo_reader), net_connect = (\<lambda>a. Inr demo_reader),
     net_set_read_timeout = (\<lambda>d c. Inr c), net_set_write_timeout = (\<lambda>d c. Inr c), net_set_nodelay = Inr\<rparr>"

theorem pool_exhausted_iff_witness:
  "fst (acquire demo_pool (connection_connect demo_net demo_pool) \<lparr>ps_idle = [], ps_total = 1\<rparr>) = Inl PoolExhausted"
  using pool_exhausted_iff [of demo_pool 1 "\<lparr>ps_idle = [], ps_total = 1\<rparr>" demo_net]
  by (simp add: pool_books_def demo_pool_def)

section \<open>Shared vocabulary\<close>

text \<open>
  C40. The numeric codes of the errors are injective and decode back, every other code is rejected,
  the category of an error is the decade of its code, exactly the transient errors are worth a retry,
  and the messages are distinct.
\<close>

theorem error_codes_round_trip:
  "(from_code c = Some e \<longleftrightarrow> c = error_code e) \<and> (error_code d = error_code e \<longleftrightarrow> d = e) \<and>
    category e = (if unat (error_code e) div 10 = 0 then CatClient
      else if unat (error_code e) div 10 = 1 then CatServer
      else if unat (error_code e) div 10 = 2 then CatTransient
      else CatProtocol) \<and>
    (error_is_retryable e \<longleftrightarrow> category e = CatTransient) \<and>
    (error_label d = error_label e \<longleftrightarrow> d = e)"
proof (intro conjI)
  show "from_code c = Some e \<longleftrightarrow> c = error_code e" using from_code_error_code from_code_SomeD by blast
  show "error_is_retryable e \<longleftrightarrow> category e = CatTransient"
    by (cases e) (simp_all add: error_is_retryable_def)
qed (rule error_code_inject category_decade error_label_inject)+

section \<open>The types shared with the kernel\<close>

text \<open>
  C36. Keys hold at most 256 bytes and values at most 1024: the constructor refuses longer data with its
  own error, never panics, and a buffer it builds is well formed, gives back exactly the data, is
  hashed by its length and its data alone, and equals a well-formed buffer exactly when the contents
  are the same.
\<close>
theorem bounded_buffers:
  "(case key_new d of
      None \<Rightarrow> False
    | Some (Inl err) \<Rightarrow> err = KeyTooLong \<and> length d > max_key_size
    | Some (Inr k) \<Rightarrow> length d \<le> max_key_size \<and> key_wf k \<and> key_as_bytes k = Some d \<and>
        key_hash k = Some (of_nat (length d), d) \<and> (\<forall>l. key_wf l \<longrightarrow> key_eq k l = Some (key_as_bytes l = Some d))) \<and>
   (case value_new d of
      None \<Rightarrow> False
    | Some (Inl err) \<Rightarrow> err = ValueTooLong \<and> length d > max_value_size
    | Some (Inr v) \<Rightarrow> length d \<le> max_value_size \<and> value_wf v \<and> value_as_bytes v = Some d \<and>
        value_hash v = Some (of_nat (length d), d) \<and>
        (\<forall>w. value_wf w \<longrightarrow> value_eq v w = Some (value_as_bytes w = Some d)))"
  using keys.make_spec vals.make_spec by blast

theorem bounded_buffers_witness:
  "\<exists>k. key_new [7, 8] = Some (Inr k) \<and> key_as_bytes k = Some [7, 8] \<and> key_eq k k = Some True"
  using bounded_buffers [of "[7, 8]"] by (auto simp: max_key_size_def split: option.splits sum.splits)

text \<open>
  C39. Bytes are shown as text. Whatever a server sends as the message of an error and whatever a key
  holds, \<^verbatim>\<open>Display\<close> of the client's error and of the key writes well-formed UTF-8, the encoding of a
  sequence of code points; bytes that are text already are written unchanged, and a key takes at most
  768 bytes.
\<close>

theorem display_is_text:
  assumes "\<And>err. is_text (io_text err)" and "key_new data = Some (Inr k)"
  shows "is_text (client_error_text io_text e) \<and>
    (is_text message \<longrightarrow> client_error_text io_text (CServer message) = ascii ''server error: '' @ message) \<and>
    (\<exists>t. key_display k = Some t \<and> is_text t \<and> length t \<le> 3 * max_key_size \<and> (is_text data \<longrightarrow> t = data))"
proof -
  have "key_as_bytes k = Some data \<and> length data \<le> max_key_size" using keys.make_spec [of data] assms(2) by simp
  then have "key_display k = Some (from_utf8_lossy data) \<and> length (from_utf8_lossy data) \<le> 3 * max_key_size"
    using lossy_length [of data] by (simp add: key_display_def)
  then show ?thesis using client_error_is_text [of io_text e] assms(1) lossy_is_text lossy_text by auto
qed

theorem display_is_text_witness:
  "\<exists>k. key_new [0xC3, 0xA9, 0xFF] = Some (Inr k) \<and> (\<exists>t. key_display k = Some t \<and> is_text t) \<and>
    is_text (client_error_text (\<lambda>_. []) (CServer [0xFF]))"
proof -
  obtain k where k: "key_new [0xC3, 0xA9, 0xFF] = Some (Inr k)"
    using keys.make_spec [of "[0xC3, 0xA9, 0xFF]"] by (auto simp: max_key_size_def split: option.splits sum.splits)
  show ?thesis
    using display_is_text [where io_text = "\<lambda>_. []" and e = "CServer [0xFF]" and message = "[]", OF is_text_Nil k] k by blast
qed

text \<open>
  C37. The validity of an entry follows the wall clock, where the documentation of \<^verbatim>\<open>Ttl\<close> promises
  \<^verbatim>\<open>CLOCK_MONOTONIC\<close>. An entry with a time to live is valid at exactly the readings of the wall clock before
  its deadline (for deadlines and readings below \<open>2\<^sup>6\<^sup>4 - 1\<close> and \<open>2\<^sup>6\<^sup>4\<close> nanoseconds, before they are cut to 64
  bits), in whatever order the readings come: an expired entry is valid again after the clock is set back.
  Touching it changes nothing, and marked as invalidated it is valid at no reading.
\<close>
theorem entry_validity_follows_wall_clock:
  assumes "unix_now clock + d < 2 ^ 64 - 1"
  shows "\<exists>ttl. ttl_from_duration clock d = Some ttl \<and>
    (\<forall>now touched. unix_now now < 2 ^ 64 \<longrightarrow>
      (entry_is_valid now (entry_new made k v ver ttl) \<longleftrightarrow> unix_now now < unix_now clock + d) \<and>
      (entry_is_valid now (entry_touch touched (entry_new made k v ver ttl)) \<longleftrightarrow> unix_now now < unix_now clock + d)) \<and>
    (\<forall>now e. \<not> entry_is_valid now (e\<lparr>ce_metadata := (ce_metadata e)
      \<lparr>md_flags := flags_set (md_flags (ce_metadata e)) flag_INVALIDATED\<rparr>\<rparr>))"
proof -
  let ?t = "of_nat (unix_now clock + d) :: u64"
  have t: "unat ?t = unix_now clock + d" using assms by (simp only: unat_of_nat) simp
  then have "?t \<noteq> - 1" using assms by (auto simp: unsigned_minus_1_eq_mask mask_eq_exp_minus_1 dest: arg_cong [of _ _ unat])
  moreover have "unix_nanos now < ?t \<longleftrightarrow> unix_now now < unix_now clock + d" if "unix_now now < 2 ^ 64" for now
  proof -
    have "unat (unix_nanos now) = unix_now now" using that unfolding unix_nanos_def by (simp only: unat_of_nat) simp
    with t show ?thesis by (simp only: word_less_nat_alt)
  qed
  ultimately show ?thesis
    using assms by (simp add: ttl_exact entry_new_valid touch_valid invalidated_not_valid ttl_is_expired_def ttl_is_infinite_def
        flip: not_less)
qed

theorem entry_validity_follows_wall_clock_witness:
  "\<exists>ttl. ttl_from_duration (Some 1000) 500 = Some ttl \<and>
    \<not> entry_is_valid (Some 1500) (entry_new (Some 1000) \<lparr>k_len = 0, k_data = []\<rparr> \<lparr>v_len = 0, v_data = []\<rparr> version_zero ttl) \<and>
    entry_is_valid (Some 1499) (entry_new (Some 1000) \<lparr>k_len = 0, k_data = []\<rparr> \<lparr>v_len = 0, v_data = []\<rparr> version_zero ttl)"
  using entry_validity_follows_wall_clock [of "Some 1000" 500 "Some 1000" "\<lparr>k_len = 0, k_data = []\<rparr>"
      "\<lparr>v_len = 0, v_data = []\<rparr>" version_zero]
  by (auto simp: unix_now_def)

section \<open>The device interface\<close>

text \<open>
  C35. The bytes that pass the device boundary, written out for every payload that a constructor builds:
  the magic number, the protocol version, the number of the command and a zero byte; then every argument
  of the constructor as little-endian bytes of its width at its place, the reserved fields zero; and
  padding bytes only where the alignment of the next field or of the structure asks for them. The sizes
  are those that the tests of the protocol expect.
\<close>
theorem payload_abi:
  assumes "key_wf k" and "value_wf v" and "batch_entries_wf es"
  shows "payload_image pad (PReadRequest (read_request_new k)) = [0x48, 1, 0, 0] @ key_abi k \<and>
    payload_image pad (PReadResponse (read_response_new status v)) =
      [0x48, 1, 0, 0] @ le_bytes 2 (unat status) @ value_abi v \<and>
    payload_image pad (PPromoteRequest (promote_request_new k v ver ttl)) =
      [0x48, 1, 1, 0] @ key_abi k @ value_abi v @
        le_bytes 8 (unat (version_get ver)) @ le_bytes 8 (unat (ttl_as_nanos ttl)) \<and>
    payload_image pad (PPromoteResponse (promote_response_new status)) =
      [0x48, 1, 1, 0] @ le_bytes 2 (unat status) @ replicate 2 0 \<and>
    payload_image pad (PBatchPromoteRequest (batch_request_new es cnt)) =
      [0x48, 1, 2, 0] @ le_bytes 2 (unat cnt) @ replicate 2 0 @ concat (map (entry_abi pad) es) \<and>
    payload_image pad (PBatchPromoteResponse (batch_response_new cnt)) =
      [0x48, 1, 2, 0] @ le_bytes 2 (unat cnt) @ replicate 2 0 @ replicate 125 0 @ [pad] \<and>
    payload_image pad (PDemoteRequest (demote_request_new k)) = [0x48, 1, 3, 0] @ key_abi k \<and>
    payload_image pad (PInvalidateRequest (invalidate_request_new k ver)) =
      [0x48, 1, 4, 0] @ key_abi k @ replicate 2 pad @ le_bytes 8 (unat (version_get ver)) \<and>
    payload_image pad (PStatsRequest stats_request_new) = [0x48, 1, 5, 0] \<and>
    payload_image pad (PStatsResponse (stats_response_new status stats)) =
      [0x48, 1, 5, 0] @ le_bytes 2 (unat status) @ replicate 2 0 @ concat (map (\<lambda>w. le_bytes 8 (unat w))
        [cs_lookups stats, cs_hits stats, cs_misses stats, cs_stale_hits stats, cs_promotions stats,
         cs_demotions stats, cs_evictions stats, cs_invalidations stats, cs_used_bytes stats, cs_max_bytes stats,
         cs_entry_count stats, cs_lock_contentions stats, cs_rcu_grace_periods stats]) \<and>
    payload_image pad (PConfigRequest (config_request_new mb me hi lo)) =
      [0x48, 1, 6, 0] @ replicate 4 pad @ le_bytes 8 (unat mb) @ le_bytes 8 (unat me) @
        le_bytes 4 (unat hi) @ le_bytes 4 (unat lo) @ replicate 8 0 \<and>
    payload_image pad (PFlushRequest flush_request_new) = [0x48, 1, 7, 0] \<and>
    length (key_abi k) = 258 \<and> length (value_abi v) = 1026 \<and> length (concat (map (entry_abi pad) es)) = 1304000"
proof -
  have es: "length (entry_abi pad b) = 1304" if "b \<in> set es" for b
    using assms(3) that
    by (auto simp: batch_entries_wf_def list_all_iff entry_abi_def key_abi_def value_abi_def key_wf_def value_wf_def
        max_key_size_def max_value_size_def)
  then have "length (concat (map (entry_abi pad) es)) = 1304000"
    using assms(3) by (simp add: length_concat comp_def sum_list_triv batch_entries_wf_def MAX_BATCH_SIZE_def cong: map_cong)
  moreover have "length (key_abi k) = 258" "length (value_abi v) = 1026"
    using assms(1,2) by (simp_all add: key_abi_def value_abi_def key_wf_def value_wf_def max_key_size_def max_value_size_def)
  ultimately show ?thesis
    by (intro conjI) (simp_all add: image_eqs, simp_all add: hkv_defs PROTOCOL_VERSION_def)
qed

theorem payload_abi_witness:
  "payload_image 9 (PConfigRequest (config_request_new 1 2 80 60)) =
     [0x48, 1, 6, 0, 9, 9, 9, 9, 1, 0, 0, 0, 0, 0, 0, 0, 2, 0, 0, 0, 0, 0, 0, 0, 80, 0, 0, 0, 60, 0, 0, 0,
      0, 0, 0, 0, 0, 0, 0, 0]"
proof -
  let ?k = "\<lparr>k_len = 0, k_data = replicate 256 0\<rparr>" and ?v = "\<lparr>v_len = 0, v_data = replicate 1024 0\<rparr>"
  have k: "key_wf ?k" and v: "value_wf ?v" by (simp_all add: key_wf_def value_wf_def max_key_size_def max_value_size_def)
  then have es: "batch_entries_wf (replicate 1000 (batch_entry_new ?k ?v version_zero (Ttl 0)))"
    by (simp add: batch_entries_wf_def MAX_BATCH_SIZE_def batch_entry_new_def list_all_iff)
  have "payload_image 9 (PConfigRequest (config_request_new 1 2 80 60)) = [0x48, 1, 6, 0] @ replicate 4 9 @
      le_bytes 8 (unat (1 :: u64)) @ le_bytes 8 (unat (2 :: u64)) @ le_bytes 4 (unat (80 :: u32)) @ le_bytes 4 (unat (60 :: u32)) @
      replicate 8 0"
    using payload_abi [OF k v es, where pad = 9 and mb = 1 and me = 2 and hi = 80 and lo = 60] by blast
  moreover have "le_bytes (numeral l) w = of_nat (w mod 256) # le_bytes (pred_numeral l) (w div 256)"
    "replicate (numeral l) b = b # replicate (pred_numeral l) b" for l w and b :: byte
    by (simp_all only: numeral_eq_Suc le_bytes.simps replicate.simps)
  ultimately show ?thesis by simp
qed

text \<open>
  C34. Two payloads with the same memory image are the same payload of the same command: the kernel can
  tell every request and response from its bytes.
\<close>
theorem payload_images_distinct:
  assumes "built c p" and "built d q" and "payload_image pad p = payload_image pad' q"
  shows "c = d \<and> p = q"
  using payload_image_inject [OF assms] .

theorem payload_images_distinct_witness:
  "payload_image 0 (PFlushRequest flush_request_new) = [0x48, 1, 7, 0] \<and>
    (Flush = Flush \<and> PFlushRequest flush_request_new = PFlushRequest flush_request_new)"
proof -
  have eq: "payload_image pad (PFlushRequest flush_request_new) = [0x48, 1, 7, 0]" for pad
    by (simp add: payload_image_def payload_layout_def payload_val_def header_image flush_request_new_def header_new_def
        PROTOCOL_VERSION_def hkv_defs)
  have "payload_image 0 (PFlushRequest flush_request_new) = payload_image 1 (PFlushRequest flush_request_new)"
    by (simp only: eq)
  from payload_images_distinct [OF built.intros(12) built.intros(12) this] eq show ?thesis by simp
qed

section \<open>The engine benchmark\<close>

text \<open>
  C38. A run of the benchmark harness ends without a panic or an error when its arguments are text, the
  requested number of keys and the shard count have a power of two above them, and the shards and the
  buffers can be allocated. Every lookup finds one of the prepared values, the process prints its
  configuration and two reports and exits with code 0, and the keys of the engine are the prepared
  ones: for each number below the rounded key count the bytes of that number, mixed with a constant, cut
  or filled up to the key size. When the key size has room for that many different keys, there are as
  many as that count.
\<close>
theorem bench_run_completes:
  assumes "\<forall>a\<in>set (take 5 argv). is_text a"
    and "unat (saturating_mul (case parallelism of Some n \<Rightarrow> n | None \<Rightarrow> 1) default_shard_multiplier) \<le> 2 ^ 63"
    and "alloc_shards (unat (normalize_shard_count
      (saturating_mul (case parallelism of Some n \<Rightarrow> n | None \<Rightarrow> 1) default_shard_multiplier)))"
    and "\<And>c. from_args argv = Some c \<Longrightarrow> unat (bc_requested_keys c) \<le> 2 ^ 63 \<and> alloc (24 * unat (bc_key_count c)) \<and>
      alloc (unat (bc_key_size c)) \<and> alloc (unat (bc_value_size c))"
  shows "\<exists>c seen d1 d2 e out. from_args argv = Some c \<and>
    out = config_line c @ report ''GET'' (bc_op_count c) d1 @ report ''SET'' (bc_op_count c) d2 \<and>
    bench_run alloc alloc_shards clk h parallelism argv = Some (Inr seen, out, e) \<and>
    bench_main alloc alloc_shards clk h parallelism argv = Some (0, out, []) \<and> engine_inv e \<and>
    length seen = unat (bc_op_count c) \<and>
    set seen \<subseteq> (\<lambda>i. Some (le_bytes (min (unat (bc_value_size c)) 8) (unat (0x5A5A5A5A5A5A5A5A XOR of_nat i :: u64)) @
      replicate (unat (bc_value_size c) - 8) 0)) ` {0..<unat (bc_key_count c)} \<and>
    dom (view e) = (\<lambda>i. le_bytes (min (unat (bc_key_size c)) 8) (unat (0xA5A5A5A5A5A5A5A5 XOR of_nat i :: u64)) @
      replicate (unat (bc_key_size c) - 8) 0) ` {0..<unat (bc_key_count c)} \<and>
    (unat (bc_key_count c) \<le> 256 ^ min (unat (bc_key_size c)) 8 \<longrightarrow> card (dom (view e)) = unat (bc_key_count c))"
proof -
  obtain c where c: "from_args argv = Some c" using from_args_None [of argv] assms(1) by (auto simp: list_all_iff)
  obtain e0 where e0: "engine_new alloc_shards h parallelism = Some e0"
    using assms(3) by (auto simp: engine_new_def with_shard_count_def with_shard_count_and_capacity_def Let_def)
  let ?n = "unat (bc_key_count c)" and ?s = "unat (bc_key_size c)"
  obtain seen d1 d2 e where run: "bench_run alloc alloc_shards clk h parallelism argv =
      Some (Inr seen, config_line c @ report ''GET'' (bc_op_count c) d1 @ report ''SET'' (bc_op_count c) d2, e)"
    "unbounded_inv e" "length seen = unat (bc_op_count c)"
    "set seen \<subseteq> Some ` bench_buffer 0x5A5A5A5A5A5A5A5A (unat (bc_value_size c)) ` {0..<?n}"
    "dom (view e) = bench_buffer 0xA5A5A5A5A5A5A5A5 ?s ` {0..<?n}"
    using bench_run_ok [OF c e0, of alloc clk] assms(2) assms(4) [OF c] by auto
  have "inj_on (bench_buffer 0xA5A5A5A5A5A5A5A5 ?s) {0..<?n}" if "?n \<le> 256 ^ min ?s 8"
    using that by (auto intro!: inj_onI elim!: bench_buffer_inject [rotated 2])
  then have "card (dom (view e)) = ?n" if "?n \<le> 256 ^ min ?s 8" using that by (simp add: run(5) card_image)
  moreover have "bench_main alloc alloc_shards clk h parallelism argv =
      Some (0, config_line c @ report ''GET'' (bc_op_count c) d1 @ report ''SET'' (bc_op_count c) d2, [])"
    using run(1) by (simp add: bench_main_def)
  ultimately show ?thesis using c run
    by (intro exI [of _ c] exI [of _ seen] exI [of _ d1] exI [of _ d2] exI [of _ e] exI conjI refl)
      (simp_all add: unbounded_inv_def bench_buffer_eq image_image)
qed

theorem bench_run_completes_witness:
  "\<exists>seen out e. bench_run (\<lambda>n. n < 2 ^ 40) (\<lambda>n. n \<le> 1024) (\<lambda>n. n) (\<lambda>_. 3) None [ascii ''bench_engine''] =
      Some (Inr seen, out, e) \<and> length seen = 1000000 \<and> card (dom (view e)) = 65536"
proof -
  have name: "is_text (ascii ''bench_engine'')" by (rule is_text_bytes) (simp add: ascii_simps)
  have pow: "is_power_of_two 65536" unfolding is_power_of_two_def list_ex_iff by (intro bexI [of _ 16]) simp_all
  have c: "from_args [ascii ''bench_engine''] = Some \<lparr>bc_requested_keys = 65536, bc_key_count = 65536, bc_key_mask = 65535,
      bc_op_count = 1000000, bc_key_size = 16, bc_value_size = 128\<rparr>"
    using pow by (simp add: from_args_def next_arg_def lossy_text [OF name] bench_parse_usize_def DEFAULT_KEY_COUNT_def
        DEFAULT_KEY_SIZE_def DEFAULT_OP_COUNT_def DEFAULT_VALUE_SIZE_def normalize_power_of_two_def Let_def max_def word_le_nat_alt)
  from bench_run_completes [where argv = "[ascii ''bench_engine'']" and parallelism = None and alloc = "\<lambda>n. n < 2 ^ 40"
      and alloc_shards = "\<lambda>n. n \<le> 1024" and clk = "\<lambda>n. n" and h = "\<lambda>_. 3"] name
  show ?thesis by (auto simp: c default_shard_multiplier_def saturating_mul_def normalize_four min_def)
qed

end
